(* ===== verification/NC_Prelude.thy ===== *)
theory NC_Prelude
  imports Main "HOL-Library.Word"
begin

unbundle bit_operations_syntax

text \<open>
  Shared vocabulary of the development: the machine types of the C code, the return codes of
  nc_core.h, the values that stand for behaviour the C standard leaves undefined, the byte
  constants of the two wire protocols, and the generic lemmas on words and lists that the
  component theories use.

  The code is the x86-64 build that src/config.h describes: little endian, \<open>char\<close> is signed,
  \<open>int\<close> has 32 bits, \<open>size_t\<close> and \<open>long\<close> have 64, and neither NC_ASSERT_PANIC nor NC_ASSERT_LOG
  is defined, so the ASSERT macro expands to nothing.  Assertions of the source appear here as
  hypotheses of lemmas, never as branches of definitions.
\<close>

named_theorems nc_defs "definitions of the model that the component proofs unfold together"
named_theorems word_xor_linear "maps on words that distribute over exclusive or"

section \<open>Machine types\<close>

type_synonym u8 = "8 word"
type_synonym u16 = "16 word"
type_synonym u32 = "32 word"
type_synonym u64 = "64 word"
type_synonym bytes = "u8 list"

text \<open>\<open>rstatus_t\<close> of nc_core.h: \<open>NC_OK\<close>, \<open>NC_ERROR\<close>, \<open>NC_EAGAIN\<close>, \<open>NC_ENOMEM\<close>.\<close>

datatype rstatus = NC_OK | NC_ERROR | NC_EAGAIN | NC_ENOMEM

text \<open>
  Behaviour outside the C standard is a value of type \<open>fault\<close>: a read or write past the end of
  an object, the use of a null pointer, a signed overflow, a division by zero, a floating point
  value that does not fit the integer it is converted to, a \<open>printf\<close> conversion without its
  argument.  A definition that can run into it has the result type \<open>fault + 'a\<close>.
\<close>

datatype fault = OutOfBounds | NullDeref | SignedOverflow | DivByZero | BadConversion | BadFormat

definition bind_fault :: "fault + 'a \<Rightarrow> ('a \<Rightarrow> fault + 'b) \<Rightarrow> fault + 'b" where
  "bind_fault r f = (case r of Inl e \<Rightarrow> Inl e | Inr x \<Rightarrow> f x)"

lemma bind_fault_simps [simp]:
  "bind_fault (Inl e) f = Inl e"
  "bind_fault (Inr x) f = f x"
  by (simp_all add: bind_fault_def)

lemma bind_fault_eq_Inr [simp]:
  "bind_fault r f = Inr y \<longleftrightarrow> (\<exists>x. r = Inr x \<and> f x = Inr y)"
  by (cases r) simp_all

section \<open>Bytes\<close>

text \<open>A C string literal as bytes.\<close>

definition bytes_of :: "string \<Rightarrow> bytes" where
  "bytes_of s = map of_char s"

definition CR :: u8 where "CR = 13"
definition LF :: u8 where "LF = 10"
definition SPACE :: u8 where "SPACE = 32"

text \<open>The C locale's \<open>isdigit\<close> and \<open>islower\<close> on an unsigned byte.\<close>

definition isdigit :: "u8 \<Rightarrow> bool" where
  "isdigit c \<longleftrightarrow> 48 \<le> c \<and> c \<le> 57"

definition islower :: "u8 \<Rightarrow> bool" where
  "islower c \<longleftrightarrow> 97 \<le> c \<and> c \<le> 122"

text \<open>The digits that \<open>printf\<close> prints for \<open>%u\<close>.\<close>

fun decimal :: "nat \<Rightarrow> bytes" where
  "decimal n = (if n < 10 then [48 + word_of_nat n] else decimal (n div 10) @ [48 + word_of_nat (n mod 10)])"

declare decimal.simps [simp del]

lemma length_decimal: "n < 10 ^ k \<Longrightarrow> 0 < k \<Longrightarrow> length (decimal n) \<le> k"
proof (induction n arbitrary: k rule: decimal.induct)
  case (1 n)
  show ?case
  proof (cases "n < 10")
    case True
    with "1.prems" show ?thesis by (simp add: decimal.simps)
  next
    case False
    then obtain j where k: "k = Suc j" "0 < j"
      using "1.prems" by (cases k; cases "k = 1") auto
    with "1.prems" have "n div 10 < 10 ^ j" by (simp add: less_mult_imp_div_less mult.commute)
    with 1 False k show ?thesis by (simp add: decimal.simps [of n])
  qed
qed

lemma length_bytes_of [simp]: "length (bytes_of s) = length s"
  by (simp add: bytes_of_def)

section \<open>Words\<close>

text \<open>The four bytes at the head of a list as a little endian word, as an x86 load reads them.\<close>

definition le32 :: "u8 \<Rightarrow> u8 \<Rightarrow> u8 \<Rightarrow> u8 \<Rightarrow> u32" where
  "le32 b0 b1 b2 b3 =
     ucast b0 OR push_bit 8 (ucast b1) OR push_bit 16 (ucast b2) OR push_bit 24 (ucast b3)"

text \<open>Disjoint bits may be added or joined with either bitwise operation.\<close>

lemma funpow_xor:
  fixes f :: "'a::len word \<Rightarrow> 'a word"
  assumes "\<And>a b. f (a XOR b) = f a XOR f b"
  shows "(f ^^ n) (a XOR b) = (f ^^ n) a XOR (f ^^ n) b"
  by (induction n) (simp_all add: assms)

lemma xor_self_cancel: "((a :: 'a::len word) XOR b) XOR b = a"
  by (rule bit_word_eqI) (auto simp: bit_xor_iff)

lemma mask32: "(mask 32 :: u32) = 0xffffffff"
  by (simp add: mask_eq_exp_minus_1)

lemma mask8: "(0xff :: 'a::len word) = mask 8"
  by (simp add: mask_eq_exp_minus_1)

lemma unat_ucast_widen:
  fixes w :: "'a::len word"
  assumes "LENGTH('a) \<le> LENGTH('b::len)"
  shows "unat (ucast w :: 'b word) = unat w"
proof -
  have "unat w < 2 ^ LENGTH('a)"
    by (rule unsigned_less)
  also have "(2 :: nat) ^ LENGTH('a) \<le> 2 ^ LENGTH('b)"
    by (rule power_increasing) (use assms in simp_all)
  finally show ?thesis
    by (simp add: unsigned_ucast_eq take_bit_nat_eq_self)
qed

section \<open>Lists\<close>

lemma foldl_invariant:
  assumes "P a" and "\<And>x y. P x \<Longrightarrow> P (f x y)"
  shows "P (foldl f a ys)"
  using assms(1) by (induction ys arbitrary: a) (auto intro: assms(2))

lemma foldl_simulation:
  assumes "\<And>x y. h (f x y) = g (h x) y"
  shows "h (foldl f a ys) = foldl g (h a) ys"
  by (induction ys arbitrary: a) (simp_all add: assms)

lemma unat_of_nat_u32: "n < 2 ^ 32 \<Longrightarrow> unat (word_of_nat n :: u32) = n"
  by (simp add: unat_of_nat take_bit_eq_mod)

lemma unat_sub_of_nat: "k \<le> unat w \<Longrightarrow> unat (w - word_of_nat k) = unat w - k" for w :: u32
  using unsigned_less [of w, where 'a = nat]
  by (subst unat_sub) (simp_all add: word_le_nat_alt unat_of_nat_u32)

end
