(* ===== verification/NC_Crc.thy ===== *)
theory NC_Crc
  imports NC_Prelude
begin

unbundle bit_operations_syntax

text \<open>
  The table driven checksums of src/src/hashkit/nc_crc16.c and nc_crc32.c, against the bit by bit
  definition of the two polynomials.
\<close>

section \<open>nc_crc16.c\<close>

definition crc16tab :: "u16 list" where
  "crc16tab =
    [0x0000, 0x1021, 0x2042, 0x3063, 0x4084, 0x50a5, 0x60c6, 0x70e7,
     0x8108, 0x9129, 0xa14a, 0xb16b, 0xc18c, 0xd1ad, 0xe1ce, 0xf1ef,
     0x1231, 0x0210, 0x3273, 0x2252, 0x52b5, 0x4294, 0x72f7, 0x62d6,
     0x9339, 0x8318, 0xb37b, 0xa35a, 0xd3bd, 0xc39c, 0xf3ff, 0xe3de,
     0x2462, 0x3443, 0x0420, 0x1401, 0x64e6, 0x74c7, 0x44a4, 0x5485,
     0xa56a, 0xb54b, 0x8528, 0x9509, 0xe5ee, 0xf5cf, 0xc5ac, 0xd58d,
     0x3653, 0x2672, 0x1611, 0x0630, 0x76d7, 0x66f6, 0x5695, 0x46b4,
     0xb75b, 0xa77a, 0x9719, 0x8738, 0xf7df, 0xe7fe, 0xd79d, 0xc7bc,
     0x48c4, 0x58e5, 0x6886, 0x78a7, 0x0840, 0x1861, 0x2802, 0x3823,
     0xc9cc, 0xd9ed, 0xe98e, 0xf9af, 0x8948, 0x9969, 0xa90a, 0xb92b,
     0x5af5, 0x4ad4, 0x7ab7, 0x6a96, 0x1a71, 0x0a50, 0x3a33, 0x2a12,
     0xdbfd, 0xcbdc, 0xfbbf, 0xeb9e, 0x9b79, 0x8b58, 0xbb3b, 0xab1a,
     0x6ca6, 0x7c87, 0x4ce4, 0x5cc5, 0x2c22, 0x3c03, 0x0c60, 0x1c41,
     0xedae, 0xfd8f, 0xcdec, 0xddcd, 0xad2a, 0xbd0b, 0x8d68, 0x9d49,
     0x7e97, 0x6eb6, 0x5ed5, 0x4ef4, 0x3e13, 0x2e32, 0x1e51, 0x0e70,
     0xff9f, 0xefbe, 0xdfdd, 0xcffc, 0xbf1b, 0xaf3a, 0x9f59, 0x8f78,
     0x9188, 0x81a9, 0xb1ca, 0xa1eb, 0xd10c, 0xc12d, 0xf14e, 0xe16f,
     0x1080, 0x00a1, 0x30c2, 0x20e3, 0x5004, 0x4025, 0x7046, 0x6067,
     0x83b9, 0x9398, 0xa3fb, 0xb3da, 0xc33d, 0xd31c, 0xe37f, 0xf35e,
     0x02b1, 0x1290, 0x22f3, 0x32d2, 0x4235, 0x5214, 0x6277, 0x7256,
     0xb5ea, 0xa5cb, 0x95a8, 0x8589, 0xf56e, 0xe54f, 0xd52c, 0xc50d,
     0x34e2, 0x24c3, 0x14a0, 0x0481, 0x7466, 0x6447, 0x5424, 0x4405,
     0xa7db, 0xb7fa, 0x8799, 0x97b8, 0xe75f, 0xf77e, 0xc71d, 0xd73c,
     0x26d3, 0x36f2, 0x0691, 0x16b0, 0x6657, 0x7676, 0x4615, 0x5634,
     0xd94c, 0xc96d, 0xf90e, 0xe92f, 0x99c8, 0x89e9, 0xb98a, 0xa9ab,
     0x5844, 0x4865, 0x7806, 0x6827, 0x18c0, 0x08e1, 0x3882, 0x28a3,
     0xcb7d, 0xdb5c, 0xeb3f, 0xfb1e, 0x8bf9, 0x9bd8, 0xabbb, 0xbb9a,
     0x4a75, 0x5a54, 0x6a37, 0x7a16, 0x0af1, 0x1ad0, 0x2ab3, 0x3a92,
     0xfd2e, 0xed0f, 0xdd6c, 0xcd4d, 0xbdaa, 0xad8b, 0x9de8, 0x8dc9,
     0x7c26, 0x6c07, 0x5c64, 0x4c45, 0x3ca2, 0x2c83, 0x1ce0, 0x0cc1,
     0xef1f, 0xff3e, 0xcf5d, 0xdf7c, 0xaf9b, 0xbfba, 0x8fd9, 0x9ff8,
     0x6e17, 0x7e36, 0x4e55, 0x5e74, 0x2e93, 0x3eb2, 0x0ed1, 0x1ef0]"

definition hash_crc16_step :: "u32 \<Rightarrow> u8 \<Rightarrow> u32" where
  "hash_crc16_step crc c =
     push_bit 8 crc XOR ucast (crc16tab ! unat ((drop_bit 8 crc XOR scast c) AND 0x00ff))"

definition hash_crc16 :: "bytes \<Rightarrow> u32" where
  "hash_crc16 key = foldl hash_crc16_step 0 key"

section \<open>nc_crc32.c\<close>

definition crc32tab :: "u32 list" where
  "crc32tab =
    [0x00000000, 0x77073096, 0xee0e612c, 0x990951ba,
     0x076dc419, 0x706af48f, 0xe963a535, 0x9e6495a3,
     0x0edb8832, 0x79dcb8a4, 0xe0d5e91e, 0x97d2d988,
     0x09b64c2b, 0x7eb17cbd, 0xe7b82d07, 0x90bf1d91,
     0x1db71064, 0x6ab020f2, 0xf3b97148, 0x84be41de,
     0x1adad47d, 0x6ddde4eb, 0xf4d4b551, 0x83d385c7,
     0x136c9856, 0x646ba8c0, 0xfd62f97a, 0x8a65c9ec,
     0x14015c4f, 0x63066cd9, 0xfa0f3d63, 0x8d080df5,
     0x3b6e20c8, 0x4c69105e, 0xd56041e4, 0xa2677172,
     0x3c03e4d1, 0x4b04d447, 0xd20d85fd, 0xa50ab56b,
     0x35b5a8fa, 0x42b2986c, 0xdbbbc9d6, 0xacbcf940,
     0x32d86ce3, 0x45df5c75, 0xdcd60dcf, 0xabd13d59,
     0x26d930ac, 0x51de003a, 0xc8d75180, 0xbfd06116,
     0x21b4f4b5, 0x56b3c423, 0xcfba9599, 0xb8bda50f,
     0x2802b89e, 0x5f058808, 0xc60cd9b2, 0xb10be924,
     0x2f6f7c87, 0x58684c11, 0xc1611dab, 0xb6662d3d,
     0x76dc4190, 0x01db7106, 0x98d220bc, 0xefd5102a,
     0x71b18589, 0x06b6b51f, 0x9fbfe4a5, 0xe8b8d433,
     0x7807c9a2, 0x0f00f934, 0x9609a88e, 0xe10e9818,
     0x7f6a0dbb, 0x086d3d2d, 0x91646c97, 0xe6635c01,
     0x6b6b51f4, 0x1c6c6162, 0x856530d8, 0xf262004e,
     0x6c0695ed, 0x1b01a57b, 0x8208f4c1, 0xf50fc457,
     0x65b0d9c6, 0x12b7e950, 0x8bbeb8ea, 0xfcb9887c,
     0x62dd1ddf, 0x15da2d49, 0x8cd37cf3, 0xfbd44c65,
     0x4db26158, 0x3ab551ce, 0xa3bc0074, 0xd4bb30e2,
     0x4adfa541, 0x3dd895d7, 0xa4d1c46d, 0xd3d6f4fb,
     0x4369e96a, 0x346ed9fc, 0xad678846, 0xda60b8d0,
     0x44042d73, 0x33031de5, 0xaa0a4c5f, 0xdd0d7cc9,
     0x5005713c, 0x270241aa, 0xbe0b1010, 0xc90c2086,
     0x5768b525, 0x206f85b3, 0xb966d409, 0xce61e49f,
     0x5edef90e, 0x29d9c998, 0xb0d09822, 0xc7d7a8b4,
     0x59b33d17, 0x2eb40d81, 0xb7bd5c3b, 0xc0ba6cad,
     0xedb88320, 0x9abfb3b6, 0x03b6e20c, 0x74b1d29a,
     0xead54739, 0x9dd277af, 0x04db2615, 0x73dc1683,
     0xe3630b12, 0x94643b84, 0x0d6d6a3e, 0x7a6a5aa8,
     0xe40ecf0b, 0x9309ff9d, 0x0a00ae27, 0x7d079eb1,
     0xf00f9344, 0x8708a3d2, 0x1e01f268, 0x6906c2fe,
     0xf762575d, 0x806567cb, 0x196c3671, 0x6e6b06e7,
     0xfed41b76, 0x89d32be0, 0x10da7a5a, 0x67dd4acc,
     0xf9b9df6f, 0x8ebeeff9, 0x17b7be43, 0x60b08ed5,
     0xd6d6a3e8, 0xa1d1937e, 0x38d8c2c4, 0x4fdff252,
     0xd1bb67f1, 0xa6bc5767, 0x3fb506dd, 0x48b2364b,
     0xd80d2bda, 0xaf0a1b4c, 0x36034af6, 0x41047a60,
     0xdf60efc3, 0xa867df55, 0x316e8eef, 0x4669be79,
     0xcb61b38c, 0xbc66831a, 0x256fd2a0, 0x5268e236,
     0xcc0c7795, 0xbb0b4703, 0x220216b9, 0x5505262f,
     0xc5ba3bbe, 0xb2bd0b28, 0x2bb45a92, 0x5cb36a04,
     0xc2d7ffa7, 0xb5d0cf31, 0x2cd99e8b, 0x5bdeae1d,
     0x9b64c2b0, 0xec63f226, 0x756aa39c, 0x026d930a,
     0x9c0906a9, 0xeb0e363f, 0x72076785, 0x05005713,
     0x95bf4a82, 0xe2b87a14, 0x7bb12bae, 0x0cb61b38,
     0x92d28e9b, 0xe5d5be0d, 0x7cdcefb7, 0x0bdbdf21,
     0x86d3d2d4, 0xf1d4e242, 0x68ddb3f8, 0x1fda836e,
     0x81be16cd, 0xf6b9265b, 0x6fb077e1, 0x18b74777,
     0x88085ae6, 0xff0f6a70, 0x66063bca, 0x11010b5c,
     0x8f659eff, 0xf862ae69, 0x616bffd3, 0x166ccf45,
     0xa00ae278, 0xd70dd2ee, 0x4e048354, 0x3903b3c2,
     0xa7672661, 0xd06016f7, 0x4969474d, 0x3e6e77db,
     0xaed16a4a, 0xd9d65adc, 0x40df0b66, 0x37d83bf0,
     0xa9bcae53, 0xdebb9ec5, 0x47b2cf7f, 0x30b5ffe9,
     0xbdbdf21c, 0xcabac28a, 0x53b39330, 0x24b4a3a6,
     0xbad03605, 0xcdd70693, 0x54de5729, 0x23d967bf,
     0xb3667a2e, 0xc4614ab8, 0x5d681b02, 0x2a6f2b94,
     0xb40bbe37, 0xc30c8ea1, 0x5a05df1b, 0x2d02ef8d]"

definition hash_crc32_step :: "u32 \<Rightarrow> u8 \<Rightarrow> u32" where
  "hash_crc32_step crc c =
     drop_bit 8 crc XOR crc32tab ! unat ((ucast crc XOR (scast c :: u64)) AND 0xff)"

definition hash_crc32 :: "bytes \<Rightarrow> u32" where
  "hash_crc32 key = drop_bit 16 (NOT (foldl hash_crc32_step 0xffffffff key)) AND 0x7fff"

definition hash_crc32a_step :: "u32 \<Rightarrow> u8 \<Rightarrow> u32" where
  "hash_crc32a_step crc c =
     crc32tab ! unat ((crc XOR ucast c) AND 0xFF) XOR drop_bit 8 crc"

definition hash_crc32a :: "bytes \<Rightarrow> u32" where
  "hash_crc32a key = foldl hash_crc32a_step (NOT 0) key XOR NOT 0"

section \<open>The polynomials bit by bit\<close>

text \<open>
  CRC-16 (polynomial 0x1021, most significant bit first) and CRC-32 (polynomial 0x04c11db7,
  reflected: least significant bit first), one message bit at a time.
\<close>

definition crc16_bit :: "u16 \<Rightarrow> u16" where
  "crc16_bit c = (if bit c 15 then push_bit 1 c XOR 0x1021 else push_bit 1 c)"

definition crc32_bit :: "u32 \<Rightarrow> u32" where
  "crc32_bit c = (if bit c 0 then drop_bit 1 c XOR 0xedb88320 else drop_bit 1 c)"

definition crc16_byte :: "u16 \<Rightarrow> u8 \<Rightarrow> u16" where
  "crc16_byte c b = (crc16_bit ^^ 8) (c XOR push_bit 8 (ucast b))"

definition crc32_byte :: "u32 \<Rightarrow> u8 \<Rightarrow> u32" where
  "crc32_byte c b = (crc32_bit ^^ 8) (c XOR ucast b)"

text \<open>A table is checked entry by entry, without building the list of its indices.\<close>

fun table_ok :: "('a::len word \<Rightarrow> 'b) \<Rightarrow> 'a word \<Rightarrow> 'b list \<Rightarrow> bool" where
  "table_ok f i [] \<longleftrightarrow> True"
| "table_ok f i (x # xs) \<longleftrightarrow> f i = x \<and> table_ok f (i + 1) xs"

lemma table_ok_nth: "table_ok f i xs \<Longrightarrow> k < length xs \<Longrightarrow> xs ! k = f (i + of_nat k)"
proof (induction f i xs arbitrary: k rule: table_ok.induct)
  case (2 f i x xs)
  then show ?case by (cases k) (simp_all add: ac_simps)
qed simp

lemma table_ok_cong: "i = j \<Longrightarrow> table_ok f i xs = table_ok f j xs"
  by simp

lemma funpow_eight: "(f ^^ 8) x = f (f (f (f (f (f (f (f x)))))))"
  by (simp add: numeral_eq_Suc)

lemma crc16tab_ok: "table_ok (\<lambda>i. (crc16_bit ^^ 8) (push_bit 8 i)) 0 crc16tab"
  unfolding crc16tab_def by (simp add: crc16_bit_def funpow_eight cong: table_ok_cong)

lemma crc32tab_ok: "table_ok (crc32_bit ^^ 8) 0 crc32tab"
  unfolding crc32tab_def by (simp add: crc32_bit_def funpow_eight cong: table_ok_cong)

lemma length_crc_tables [simp]: "length crc16tab = 256" "length crc32tab = 256"
  by (simp_all add: crc16tab_def crc32tab_def)

section \<open>The table driven step is eight single bit steps\<close>

lemma crc32_bit_xor: "crc32_bit (a XOR b) = crc32_bit a XOR crc32_bit b"
  by (cases "bit a 0"; cases "bit b 0")
    (auto simp: crc32_bit_def bit_simps intro!: bit_word_eqI)

lemma crc16_bit_xor: "crc16_bit (a XOR b) = crc16_bit a XOR crc16_bit b"
  by (cases "bit a 15"; cases "bit b 15")
    (auto simp: crc16_bit_def bit_simps intro!: bit_word_eqI)


lemma crc32_bits_low_zero:
  "(\<And>k. k < n \<Longrightarrow> \<not> bit c k) \<Longrightarrow> (crc32_bit ^^ n) c = drop_bit n c"
proof (induction n)
  case (Suc n)
  then have IH: "(crc32_bit ^^ n) c = drop_bit n c" and "\<not> bit c n"
    by simp_all
  then have "crc32_bit (drop_bit n c) = drop_bit 1 (drop_bit n c)"
    by (simp add: crc32_bit_def bit_drop_bit_eq)
  then show ?case
    by (simp only: funpow.simps o_apply IH drop_bit_drop_bit) simp
qed simp

lemma crc16_bits_high_zero:
  "n \<le> 16 \<Longrightarrow> (\<And>k. 16 - n \<le> k \<Longrightarrow> k < 16 \<Longrightarrow> \<not> bit c k) \<Longrightarrow> (crc16_bit ^^ n) c = push_bit n c"
proof (induction n)
  case (Suc n)
  then have IH: "(crc16_bit ^^ n) c = push_bit n c" and "\<not> bit c (15 - n)"
    by auto
  then have "crc16_bit (push_bit n c) = push_bit 1 (push_bit n c)"
    by (simp add: crc16_bit_def bit_push_bit_iff)
  then show ?case
    by (simp only: funpow.simps o_apply IH push_bit_push_bit) simp
qed simp

lemma crc32_byte_eq_table: "crc32_byte c b = hash_crc32a_step c b"
proof -
  define x where "x = c XOR ucast b"
  have split: "x = (x AND 0xff) XOR push_bit 8 (drop_bit 8 x)"
    unfolding mask8 by (rule bit_word_eqI) (auto simp: bit_simps)
  have idx: "unat (x AND 0xff) < 256"
    using word_and_le1 [of x "0xff"] by (simp add: word_le_nat_alt)
  have "(crc32_bit ^^ 8) x = (crc32_bit ^^ 8) (x AND 0xff) XOR (crc32_bit ^^ 8) (push_bit 8 (drop_bit 8 x))"
    by (subst split) (rule funpow_xor, rule crc32_bit_xor)
  also have "(crc32_bit ^^ 8) (push_bit 8 (drop_bit 8 x)) = drop_bit 8 c"
  proof (subst crc32_bits_low_zero)
    have "\<not> bit b (8 + n)" "bit c (8 + n) \<Longrightarrow> n < 24" for n
      using bit_imp_le_length [of b "8 + n"] bit_imp_le_length [of c "8 + n"] by auto
    then show "drop_bit 8 (push_bit 8 (drop_bit 8 x)) = drop_bit 8 c"
      by (auto simp: x_def bit_simps intro!: bit_word_eqI)
  qed (simp add: bit_simps)
  also have "(crc32_bit ^^ 8) (x AND 0xff) = crc32tab ! unat (x AND 0xff)"
    using table_ok_nth [OF crc32tab_ok, of "unat (x AND 0xff)"] idx by simp
  finally show ?thesis
    by (simp add: crc32_byte_def hash_crc32a_step_def x_def)
qed

lemma hash_crc32_step_eq: "hash_crc32_step c b = hash_crc32a_step c b"
proof -
  have "(ucast c XOR (scast b :: u64)) AND 0xff = ucast ((c XOR ucast b) AND 0xff)"
    unfolding mask8 by (rule bit_word_eqI) (auto simp: bit_simps)
  then have "unat ((ucast c XOR (scast b :: u64)) AND 0xff) = unat ((c XOR ucast b) AND 0xff)"
    by (simp add: unat_ucast_widen)
  then show ?thesis
    by (simp add: hash_crc32_step_def hash_crc32a_step_def xor.commute)
qed

lemma crc16_byte_eq_table: "crc16_byte (ucast c) b = ucast (hash_crc16_step c b)"
proof -
  define i where "i = (drop_bit 8 c XOR scast b) AND 0xff"
  have idx: "unat i < 256"
    using word_and_le1 [of "drop_bit 8 c XOR scast b" "0xff"] by (simp add: i_def word_le_nat_alt)
  have split: "ucast c XOR push_bit 8 (ucast b) = push_bit 8 (ucast i) XOR (ucast c AND (0xff :: u16))"
    unfolding i_def mask8 by (rule bit_word_eqI) (auto simp: bit_simps)
  have "crc16_byte (ucast c) b = (crc16_bit ^^ 8) (push_bit 8 (ucast i)) XOR (crc16_bit ^^ 8) (ucast c AND 0xff)"
    by (simp add: crc16_byte_def split funpow_xor [OF crc16_bit_xor])
  also have "(crc16_bit ^^ 8) (ucast c AND 0xff) = push_bit 8 (ucast c)"
    unfolding mask8 by (subst crc16_bits_high_zero) (auto simp: bit_simps intro!: bit_word_eqI)
  also have "(crc16_bit ^^ 8) (push_bit 8 (ucast i)) = crc16tab ! unat i"
    using table_ok_nth [OF crc16tab_ok, of "unat i"] idx by simp
  also have "crc16tab ! unat i XOR push_bit 8 (ucast c) = ucast (hash_crc16_step c b)"
    by (rule bit_word_eqI) (auto simp: hash_crc16_step_def i_def bit_simps)
  finally show ?thesis .
qed

section \<open>The checksums of a whole key\<close>

definition crc32_ref :: "bytes \<Rightarrow> u32" where
  "crc32_ref key = NOT (foldl crc32_byte (NOT 0) key)"

definition crc16_ref :: "bytes \<Rightarrow> u16" where
  "crc16_ref key = foldl crc16_byte 0 key"

text \<open>The published check values of CRC-32 and CRC-16/XMODEM.\<close>

lemma crc32_ref_check: "crc32_ref (bytes_of ''123456789'') = 0xcbf43926"
  by (simp add: crc32_ref_def crc32_byte_def crc32_bit_def bytes_of_def funpow_eight)

lemma crc16_ref_check: "crc16_ref (bytes_of ''123456789'') = 0x31c3"
  by (simp add: crc16_ref_def crc16_byte_def crc16_bit_def bytes_of_def funpow_eight)

lemma hash_crc32a_step_ref: "hash_crc32a_step = crc32_byte"
  by (intro ext) (simp add: crc32_byte_eq_table)

lemma hash_crc32_step_ref: "hash_crc32_step = crc32_byte"
  by (intro ext) (simp add: crc32_byte_eq_table hash_crc32_step_eq)

text \<open>
  C25: \<open>hash_crc32a\<close> computes the standard CRC-32 of the key: its table look-up is the bit by bit
  division by the polynomial, for every key.
\<close>

theorem hash_crc32a_correct: "hash_crc32a key = crc32_ref key"
  by (simp add: hash_crc32a_def crc32_ref_def hash_crc32a_step_ref not_eq_complement xor.commute)

text \<open>
  C26: \<open>hash_crc32\<close> is, as its comment says, not the CRC-32 but bits 16 to 30 of it, the value
  libmemcached uses; its result fits in 15 bits.
\<close>

theorem hash_crc32_correct:
  "hash_crc32 key = drop_bit 16 (crc32_ref key) AND 0x7fff \<and> hash_crc32 key \<le> 0x7fff"
proof -
  have "(0xffffffff :: u32) = NOT 0"
    by simp
  then have "hash_crc32 key = drop_bit 16 (crc32_ref key) AND 0x7fff"
    by (simp only: hash_crc32_def crc32_ref_def hash_crc32_step_ref)
  then show ?thesis
    by (simp add: word_and_le1)
qed

text \<open>
  C27: the low half of \<open>hash_crc16\<close> is the CRC-16/XMODEM of the key.
\<close>

theorem hash_crc16_correct: "ucast (hash_crc16 key) = crc16_ref key"
  unfolding hash_crc16_def crc16_ref_def
  by (subst foldl_simulation [where h = ucast and g = crc16_byte])
    (simp_all add: crc16_byte_eq_table)

end
