(* ===== verification/NC_Hash.thy ===== *)
theory NC_Hash
  imports NC_Prelude
begin

unbundle bit_operations_syntax

text \<open>
  The byte oriented key hashes of src/src/hashkit: nc_one_at_a_time.c, nc_fnv.c, nc_murmur.c and
  nc_hsieh.c.  \<open>char\<close> is signed, so where the code widens \<open>key[x]\<close> itself the byte is
  sign-extended (\<open>scast\<close>); where it reads through an \<open>unsigned char\<close> pointer the byte is
  zero-extended (\<open>ucast\<close>).
\<close>

section \<open>nc_one_at_a_time.c\<close>

definition one_at_a_time_step :: "u32 \<Rightarrow> u8 \<Rightarrow> u32" where
  "one_at_a_time_step value0 c =
     (let val = scast c;
          value1 = value0 + val;
          value2 = value1 + push_bit 10 value1
      in value2 XOR drop_bit 6 value2)"

definition one_at_a_time_final :: "u32 \<Rightarrow> u32" where
  "one_at_a_time_final value0 =
     (let value1 = value0 + push_bit 3 value0;
          value2 = value1 XOR drop_bit 11 value1
      in value2 + push_bit 15 value2)"

definition hash_one_at_a_time :: "bytes \<Rightarrow> u32" where
  "hash_one_at_a_time key = one_at_a_time_final (foldl one_at_a_time_step 0 key)"

section \<open>nc_fnv.c\<close>

definition FNV_64_INIT :: u64 where "FNV_64_INIT = 0xcbf29ce484222325"
definition FNV_64_PRIME :: u64 where "FNV_64_PRIME = 0x100000001b3"
definition FNV_32_INIT :: u32 where "FNV_32_INIT = 2166136261"
definition FNV_32_PRIME :: u32 where "FNV_32_PRIME = 16777619"

definition fnv1_64_step :: "u64 \<Rightarrow> u8 \<Rightarrow> u64" where
  "fnv1_64_step hash c = (hash * FNV_64_PRIME) XOR scast c"

definition hash_fnv1_64 :: "bytes \<Rightarrow> u32" where
  "hash_fnv1_64 key = ucast (foldl fnv1_64_step FNV_64_INIT key)"

definition fnv1a_64_step :: "u32 \<Rightarrow> u8 \<Rightarrow> u32" where
  "fnv1a_64_step hash c = (let val = scast c in (hash XOR val) * ucast FNV_64_PRIME)"

definition hash_fnv1a_64 :: "bytes \<Rightarrow> u32" where
  "hash_fnv1a_64 key = foldl fnv1a_64_step (ucast FNV_64_INIT) key"

definition fnv1_32_step :: "u32 \<Rightarrow> u8 \<Rightarrow> u32" where
  "fnv1_32_step hash c = (let val = scast c in (hash * FNV_32_PRIME) XOR val)"

definition hash_fnv1_32 :: "bytes \<Rightarrow> u32" where
  "hash_fnv1_32 key = foldl fnv1_32_step FNV_32_INIT key"

definition fnv1a_32_step :: "u32 \<Rightarrow> u8 \<Rightarrow> u32" where
  "fnv1a_32_step hash c = (let val = scast c in (hash XOR val) * FNV_32_PRIME)"

definition hash_fnv1a_32 :: "bytes \<Rightarrow> u32" where
  "hash_fnv1a_32 key = foldl fnv1a_32_step FNV_32_INIT key"

text \<open>
  \<open>hash_fnv1a_64\<close> keeps a 32 bit state and the low half of the prime.  The reference keeps all
  64 bits, as the FNV-1a definition does, and truncates once at the end.
\<close>

definition fnv1a_64_ref :: "bytes \<Rightarrow> u64" where
  "fnv1a_64_ref key = foldl (\<lambda>h c. (h XOR scast c) * FNV_64_PRIME) FNV_64_INIT key"

section \<open>nc_murmur.c\<close>

definition murmur_m :: u32 where "murmur_m = 0x5bd1e995"

definition murmur_mix :: "u32 \<Rightarrow> u32 \<Rightarrow> u32" where
  "murmur_mix h k0 =
     (let k1 = k0 * murmur_m;
          k2 = k1 XOR drop_bit 24 k1;
          k3 = k2 * murmur_m
      in (h * murmur_m) XOR k3)"

text \<open>The loop over four byte words, then the fall-through \<open>switch\<close> on the bytes that are left.\<close>

fun murmur_body :: "u32 \<Rightarrow> bytes \<Rightarrow> u32" where
  "murmur_body h (b0 # b1 # b2 # b3 # data) = murmur_body (murmur_mix h (le32 b0 b1 b2 b3)) data"
| "murmur_body h [b0, b1, b2] =
     (((h XOR push_bit 16 (ucast b2)) XOR push_bit 8 (ucast b1)) XOR ucast b0) * murmur_m"
| "murmur_body h [b0, b1] = ((h XOR push_bit 8 (ucast b1)) XOR ucast b0) * murmur_m"
| "murmur_body h [b0] = (h XOR ucast b0) * murmur_m"
| "murmur_body h [] = h"

definition murmur_final :: "u32 \<Rightarrow> u32" where
  "murmur_final h0 =
     (let h1 = h0 XOR drop_bit 13 h0;
          h2 = h1 * murmur_m
      in h2 XOR drop_bit 15 h2)"

definition hash_murmur :: "bytes \<Rightarrow> u32" where
  "hash_murmur key =
     (let len = word_of_nat (length key);
          seed = 0xdeadbeef * len
      in murmur_final (murmur_body (seed XOR len) key))"

section \<open>nc_hsieh.c\<close>

definition get16bits :: "u8 \<Rightarrow> u8 \<Rightarrow> u32" where
  "get16bits d0 d1 = push_bit 8 (ucast d1) + ucast d0"

fun hsieh_body :: "u32 \<Rightarrow> bytes \<Rightarrow> u32" where
  "hsieh_body hash0 (k0 # k1 # k2 # k3 # key) =
     (let hash1 = hash0 + get16bits k0 k1;
          tmp = push_bit 11 (get16bits k2 k3) XOR hash1;
          hash2 = push_bit 16 hash1 XOR tmp
      in hsieh_body (hash2 + drop_bit 11 hash2) key)"
| "hsieh_body hash0 [k0, k1, k2] =
     (let hash1 = hash0 + get16bits k0 k1;
          hash2 = hash1 XOR push_bit 16 hash1;
          hash3 = hash2 XOR push_bit 18 (scast k2)
      in hash3 + drop_bit 11 hash3)"
| "hsieh_body hash0 [k0, k1] =
     (let hash1 = hash0 + get16bits k0 k1;
          hash2 = hash1 XOR push_bit 11 hash1
      in hash2 + drop_bit 17 hash2)"
| "hsieh_body hash0 [k0] =
     (let hash1 = hash0 + ucast k0;
          hash2 = hash1 XOR push_bit 10 hash1
      in hash2 + drop_bit 1 hash2)"
| "hsieh_body hash0 [] = hash0"

definition hsieh_final :: "u32 \<Rightarrow> u32" where
  "hsieh_final hash0 =
     (let hash1 = hash0 XOR push_bit 3 hash0;
          hash2 = hash1 + drop_bit 5 hash1;
          hash3 = hash2 XOR push_bit 4 hash2;
          hash4 = hash3 + drop_bit 17 hash3;
          hash5 = hash4 XOR push_bit 25 hash4
      in hash5 + drop_bit 6 hash5)"

definition hash_hsieh :: "bytes \<Rightarrow> u32" where
  "hash_hsieh key = (if key = [] then 0 else hsieh_final (hsieh_body 0 key))"

section \<open>Mixing steps that lose nothing\<close>

lemma word_mult_inj:
  fixes m :: "'a::len word"
  assumes "i * m = 1" and "x * m = y * m"
  shows "x = y"
proof -
  have "x = x * (i * m)" and "y = y * (i * m)"
    by (simp_all add: assms(1))
  then show ?thesis
    using assms(2) by (metis mult.assoc mult.commute)
qed

lemma word_xor_inj: "(a :: 'a::len word) XOR b = a' XOR b \<longleftrightarrow> a = a'"
  by (metis xor_self_cancel)

lemma word_xor_inj_left: "(b :: 'a::len word) XOR a = b XOR a' \<longleftrightarrow> a = a'"
  by (metis word_xor_inj xor.commute)

lemma xorshift_right_inj:
  fixes x y :: "'a::len word"
  assumes "0 < k" and eq: "x XOR drop_bit k x = y XOR drop_bit k y"
  shows "x = y"
proof (rule bit_word_eqI)
  have step: "bit x n = bit y n" if "bit x (n + k) = bit y (n + k)" for n
  proof -
    have "bit (x XOR drop_bit k x) n = bit (y XOR drop_bit k y) n"
      by (simp only: eq)
    with that show ?thesis
      by (simp add: bit_xor_iff bit_drop_bit_eq add.commute) blast
  qed
  show "bit x n = bit y n" for n
  proof (induction "LENGTH('a) - n" arbitrary: n rule: less_induct)
    case less
    show ?case
    proof (cases "n < LENGTH('a)")
      case True
      with \<open>0 < k\<close> have "bit x (n + k) = bit y (n + k)"
        by (intro less) simp
      then show ?thesis by (rule step)
    next
      case False
      then show ?thesis
        by (metis bit_imp_le_length)
    qed
  qed
qed

lemma scast8_inj: "(scast (a :: u8) :: 'a::len word) = scast b \<longleftrightarrow> a = b" if "8 \<le> LENGTH('a)"
proof
  assume eq: "(scast a :: 'a word) = scast b"
  show "a = b"
  proof (rule bit_word_eqI)
    fix n assume "n < LENGTH(8)"
    then have "bit (scast a :: 'a word) n = bit a n" "bit (scast b :: 'a word) n = bit b n"
      using that by (simp_all add: bit_simps)
    with eq show "bit a n = bit b n" by simp
  qed
qed simp

lemma one_at_a_time_odd_mults:
  "(3222273025 :: u32) * 1025 = 1" "(954437177 :: u32) * 9 = 1" "(1073709057 :: u32) * 32769 = 1"
  by simp_all

lemma add_push_bit_eq_mult:
  fixes v :: u32
  shows "v + push_bit 10 v = v * 1025" "v + push_bit 3 v = v * 9" "v + push_bit 15 v = v * 32769"
  by (simp_all add: push_bit_eq_mult algebra_simps)

section \<open>Hashes that fold an invertible step\<close>

text \<open>
  The contract shared by the hashes that consume a key one byte at a time: the step is injective in
  the state and in the byte, and so is the finish.  Such a hash never maps two keys that differ in
  one byte to the same value, and a common suffix never creates a collision.
\<close>

locale invertible_fold =
  fixes step :: "'s \<Rightarrow> u8 \<Rightarrow> 's" and init :: 's and fin :: "'s \<Rightarrow> 'h"
  assumes step_state_inj: "step s c = step t c \<Longrightarrow> s = t"
    and step_byte_inj: "step s a = step s b \<Longrightarrow> a = b"
    and fin_inj: "fin s = fin t \<Longrightarrow> s = t"
begin

lemma foldl_state_inj: "foldl step s zs = foldl step t zs \<longleftrightarrow> s = t"
  by (induction zs arbitrary: s t) (auto dest: step_state_inj)

lemma suffix_cancel:
  "fin (foldl step init (xs @ zs)) = fin (foldl step init (ys @ zs)) \<longleftrightarrow>
   fin (foldl step init xs) = fin (foldl step init ys)"
  by (auto simp: foldl_state_inj dest!: fin_inj)

lemma one_byte:
  "fin (foldl step init (xs @ a # zs)) = fin (foldl step init (xs @ b # zs)) \<longleftrightarrow> a = b"
  by (auto simp: foldl_state_inj dest!: fin_inj step_byte_inj)

end

interpretation one_at_a_time: invertible_fold one_at_a_time_step 0 one_at_a_time_final
proof
  have odd: "x = y" if "x + push_bit 10 x = y + push_bit 10 (y :: u32)" for x y
    using that unfolding add_push_bit_eq_mult by (rule word_mult_inj [OF one_at_a_time_odd_mults(1)])
  show "s = t" if "one_at_a_time_step s c = one_at_a_time_step t c" for s t c
    using that by (auto simp: one_at_a_time_step_def Let_def dest!: xorshift_right_inj [rotated] odd)
  show "a = b" if "one_at_a_time_step s a = one_at_a_time_step s b" for s a b
    using that by (auto simp: one_at_a_time_step_def Let_def scast8_inj
        dest!: xorshift_right_inj [rotated] odd)
  show "s = t" if "one_at_a_time_final s = one_at_a_time_final t" for s t
    using that unfolding one_at_a_time_final_def Let_def add_push_bit_eq_mult
    by (auto dest!: word_mult_inj [OF one_at_a_time_odd_mults(2)]
        word_mult_inj [OF one_at_a_time_odd_mults(3)] xorshift_right_inj [rotated])
qed

lemma fnv_odd_mults:
  "(899433627 :: u32) * FNV_32_PRIME = 1" "(2952172923 :: u32) * ucast FNV_64_PRIME = 1"
  by (simp_all add: FNV_32_PRIME_def FNV_64_PRIME_def)

lemmas fnv_step_injs =
  word_mult_inj [OF fnv_odd_mults(1)] word_mult_inj [OF fnv_odd_mults(2)]

lemmas fnv_step_defs = fnv1_32_step_def fnv1a_32_step_def fnv1a_64_step_def Let_def

interpretation fnv1_32: invertible_fold fnv1_32_step FNV_32_INIT id
  by unfold_locales
    (auto simp: fnv_step_defs word_xor_inj word_xor_inj_left scast8_inj dest!: fnv_step_injs)

interpretation fnv1a_32: invertible_fold fnv1a_32_step FNV_32_INIT id
  by unfold_locales
    (auto simp: fnv_step_defs word_xor_inj word_xor_inj_left scast8_inj dest!: fnv_step_injs)

interpretation fnv1a_64: invertible_fold fnv1a_64_step "ucast FNV_64_INIT" id
  by unfold_locales
    (auto simp: fnv_step_defs word_xor_inj word_xor_inj_left scast8_inj dest!: fnv_step_injs)

text \<open>
  C28: two keys of the same length that differ in exactly one byte never collide under
  \<open>hash_one_at_a_time\<close>, \<open>hash_fnv1_32\<close>, \<open>hash_fnv1a_32\<close> or \<open>hash_fnv1a_64\<close>.
\<close>

theorem byte_hashes_separate_one_byte:
  "(hash_one_at_a_time (xs @ a # zs) = hash_one_at_a_time (xs @ b # zs) \<longleftrightarrow> a = b) \<and>
   (hash_fnv1_32 (xs @ a # zs) = hash_fnv1_32 (xs @ b # zs) \<longleftrightarrow> a = b) \<and>
   (hash_fnv1a_32 (xs @ a # zs) = hash_fnv1a_32 (xs @ b # zs) \<longleftrightarrow> a = b) \<and>
   (hash_fnv1a_64 (xs @ a # zs) = hash_fnv1a_64 (xs @ b # zs) \<longleftrightarrow> a = b)"
  using one_at_a_time.one_byte [of xs a zs b] fnv1_32.one_byte [of xs a zs b]
    fnv1a_32.one_byte [of xs a zs b] fnv1a_64.one_byte [of xs a zs b]
  unfolding hash_one_at_a_time_def hash_fnv1_32_def hash_fnv1a_32_def hash_fnv1a_64_def id_apply
  by blast

section \<open>FNV-1a with a 64 bit state\<close>

lemma ucast_mult_down:
  "LENGTH('b::len) \<le> LENGTH('a::len) \<Longrightarrow> ucast (v * w :: 'a word) = (ucast v * ucast w :: 'b word)"
  by transfer (metis min.absorb1 take_bit_mult take_bit_take_bit)

lemma ucast_scast8: "(ucast (scast (c :: u8) :: u64) :: u32) = scast c"
  by (rule bit_word_eqI) (auto simp: bit_simps)


section \<open>Murmur\<close>

lemma murmur_odd_mult: "(3852147133 :: u32) * murmur_m = 1"
  by (simp add: murmur_m_def)

lemmas murmur_m_inj = word_mult_inj [OF murmur_odd_mult]

lemma murmur_mix_inj:
  "murmur_mix h k = murmur_mix h' k \<longleftrightarrow> h = h'"
  "murmur_mix h k = murmur_mix h k' \<longleftrightarrow> k = k'"
  by (auto simp: murmur_mix_def Let_def word_xor_inj word_xor_inj_left
      dest!: murmur_m_inj xorshift_right_inj [rotated])

lemma murmur_body_inj: "murmur_body h zs = murmur_body h' zs \<longleftrightarrow> h = h'"
  by (induction h zs arbitrary: h' rule: murmur_body.induct)
    (auto simp: murmur_mix_inj word_xor_inj dest!: murmur_m_inj)

lemma murmur_final_inj: "murmur_final h = murmur_final h' \<longleftrightarrow> h = h'"
  by (auto simp: murmur_final_def Let_def dest!: murmur_m_inj xorshift_right_inj [rotated])

lemma le32_inj: "le32 a0 a1 a2 a3 = le32 b0 b1 b2 b3 \<longleftrightarrow> (a0, a1, a2, a3) = (b0, b1, b2, b3)"
proof
  assume eq: "le32 a0 a1 a2 a3 = le32 b0 b1 b2 b3"
  have byte: "ucast (le32 c0 c1 c2 c3) = c0" "ucast (drop_bit 8 (le32 c0 c1 c2 c3)) = c1"
    "ucast (drop_bit 16 (le32 c0 c1 c2 c3)) = c2" "ucast (drop_bit 24 (le32 c0 c1 c2 c3)) = c3"
    for c0 c1 c2 c3
    by (rule bit_word_eqI; auto simp: le32_def bit_simps dest: bit_imp_le_length)+
  show "(a0, a1, a2, a3) = (b0, b1, b2, b3)"
    using byte [of a0 a1 a2 a3] byte [of b0 b1 b2 b3] eq by simp
qed simp

lemma murmur_body_append4:
  "length xs = 4 * n \<Longrightarrow> \<exists>f. \<forall>ys. murmur_body h (xs @ ys) = murmur_body (f :: u32) ys"
proof (induction n arbitrary: h xs)
  case (Suc n)
  then obtain b0 b1 b2 b3 xs' where "xs = b0 # b1 # b2 # b3 # xs'" "length xs' = 4 * n"
    by (auto simp: length_Suc_conv numeral_eq_Suc)
  then show ?case
    using Suc.IH [of xs' "murmur_mix h (le32 b0 b1 b2 b3)"] by simp
qed auto

text \<open>
  C29: keys that differ only inside one aligned four byte word never collide under
  \<open>hash_murmur\<close>.
\<close>

theorem hash_murmur_separates_word:
  assumes "length xs = 4 * n"
  shows "hash_murmur (xs @ [a0, a1, a2, a3] @ zs) = hash_murmur (xs @ [b0, b1, b2, b3] @ zs) \<longleftrightarrow>
    [a0, a1, a2, a3] = [b0, b1, b2, b3]"
proof -
  define len :: u32 where "len = word_of_nat (length xs + 4 + length zs)"
  obtain f where f: "\<And>ys. murmur_body ((0xdeadbeef * len) XOR len) (xs @ ys) = murmur_body f ys"
    using murmur_body_append4 [OF assms] by blast
  have "hash_murmur (xs @ [c0, c1, c2, c3] @ zs) =
      murmur_final (murmur_body (murmur_mix f (le32 c0 c1 c2 c3)) zs)" for c0 c1 c2 c3
    using f [of "[c0, c1, c2, c3] @ zs"] by (simp add: hash_murmur_def len_def ac_simps)
  then show ?thesis
    by (simp add: murmur_final_inj murmur_body_inj murmur_mix_inj le32_inj)
qed

theorem hash_murmur_separates_word_witness:
  "hash_murmur (bytes_of ''user:421'') \<noteq> hash_murmur (bytes_of ''user:431'')"
  using hash_murmur_separates_word [of "bytes_of ''user''" 1 58 52 50 49 "[]" 58 52 51 49]
  by (simp add: bytes_of_def)

end
