(* ===== verification/NC_Jenkins.thy ===== *)
theory NC_Jenkins
  imports NC_Prelude
begin

unbundle bit_operations_syntax

text \<open>
  The Jenkins lookup3 hash of src/src/hashkit/nc_jenkins.c.  The code picks one of three readers by
  the alignment of the key's address and its widest reader loads whole 32 bit words, past the end of
  the key as well, so the key is modelled as an address into a memory of bytes.  The theorem of this
  theory is that neither the alignment nor the bytes behind the key are visible in the result.
\<close>

section \<open>Definitions\<close>

type_synonym mem = "nat \<Rightarrow> u8"
type_synonym abc = "u32 \<times> u32 \<times> u32"

definition load16 :: "mem \<Rightarrow> nat \<Rightarrow> u16" where
  "load16 m p = ucast (m p) OR push_bit 8 (ucast (m (p + 1)))"

definition load32 :: "mem \<Rightarrow> nat \<Rightarrow> u32" where
  "load32 m p = le32 (m p) (m (p + 1)) (m (p + 2)) (m (p + 3))"

definition rot :: "u32 \<Rightarrow> nat \<Rightarrow> u32" where
  "rot x k = push_bit k x OR drop_bit (32 - k) x"

definition mix :: "abc \<Rightarrow> abc" where
  "mix s =
     (let (a, b, c) = s;
          a = a - c; a = a XOR rot c 4; c = c + b;
          b = b - a; b = b XOR rot a 6; a = a + c;
          c = c - b; c = c XOR rot b 8; b = b + a;
          a = a - c; a = a XOR rot c 16; c = c + b;
          b = b - a; b = b XOR rot a 19; a = a + c;
          c = c - b; c = c XOR rot b 4; b = b + a
      in (a, b, c))"

definition final :: "abc \<Rightarrow> abc" where
  "final s =
     (let (a, b, c) = s;
          c = c XOR b; c = c - rot b 14;
          a = a XOR c; a = a - rot c 11;
          b = b XOR a; b = b - rot a 25;
          c = c XOR b; c = c - rot b 16;
          a = a XOR c; a = a - rot c 4;
          b = b XOR a; b = b - rot a 14;
          c = c XOR b; c = c - rot b 24
      in (a, b, c))"

definition JENKINS_INITVAL :: u32 where "JENKINS_INITVAL = 13"

text \<open>
  Each reader is its loop over twelve byte blocks and its \<open>switch\<close> on the rest.  A \<open>switch\<close> that
  returns without the final mixing yields \<open>None\<close>.  The 32 bit reader:
\<close>

fun jenkins_loop32 :: "mem \<Rightarrow> nat \<Rightarrow> nat \<Rightarrow> abc \<Rightarrow> nat \<times> nat \<times> abc" where
  "jenkins_loop32 m k len (a, b, c) =
     (if 12 < len
      then jenkins_loop32 m (k + 12) (len - 12)
             (mix (a + load32 m k, b + load32 m (k + 4), c + load32 m (k + 8)))
      else (k, len, (a, b, c)))"

definition jenkins_tail32 :: "mem \<Rightarrow> nat \<Rightarrow> nat \<Rightarrow> abc \<Rightarrow> abc option" where
  "jenkins_tail32 m k len s =
     (let (a, b, c) = s; k0 = load32 m k; k1 = load32 m (k + 4); k2 = load32 m (k + 8) in
      if len = 12 then Some (a + k0, b + k1, c + k2)
      else if len = 11 then Some (a + k0, b + k1, c + (k2 AND 0xffffff))
      else if len = 10 then Some (a + k0, b + k1, c + (k2 AND 0xffff))
      else if len = 9 then Some (a + k0, b + k1, c + (k2 AND 0xff))
      else if len = 8 then Some (a + k0, b + k1, c)
      else if len = 7 then Some (a + k0, b + (k1 AND 0xffffff), c)
      else if len = 6 then Some (a + k0, b + (k1 AND 0xffff), c)
      else if len = 5 then Some (a + k0, b + (k1 AND 0xff), c)
      else if len = 4 then Some (a + k0, b, c)
      else if len = 3 then Some (a + (k0 AND 0xffffff), b, c)
      else if len = 2 then Some (a + (k0 AND 0xffff), b, c)
      else if len = 1 then Some (a + (k0 AND 0xff), b, c)
      else None)"

text \<open>The 16 bit reader, whose last block also reads single bytes:\<close>

definition two16 :: "mem \<Rightarrow> nat \<Rightarrow> u32" where
  "two16 m k = ucast (load16 m k) + push_bit 16 (ucast (load16 m (k + 2)))"

fun jenkins_loop16 :: "mem \<Rightarrow> nat \<Rightarrow> nat \<Rightarrow> abc \<Rightarrow> nat \<times> nat \<times> abc" where
  "jenkins_loop16 m k len (a, b, c) =
     (if 12 < len
      then jenkins_loop16 m (k + 12) (len - 12)
             (mix (a + two16 m k, b + two16 m (k + 4), c + two16 m (k + 8)))
      else (k, len, (a, b, c)))"

definition jenkins_tail16 :: "mem \<Rightarrow> nat \<Rightarrow> nat \<Rightarrow> abc \<Rightarrow> abc option" where
  "jenkins_tail16 m k len s =
     (let (a, b, c) = s in
      if len = 12 then Some (a + two16 m k, b + two16 m (k + 4), c + two16 m (k + 8))
      else if len = 11 \<or> len = 10 then
        let c = (if len = 11 then c + push_bit 16 (ucast (m (k + 10))) else c)
        in Some (a + two16 m k, b + two16 m (k + 4), c + ucast (load16 m (k + 8)))
      else if len = 9 \<or> len = 8 then
        let c = (if len = 9 then c + ucast (m (k + 8)) else c)
        in Some (a + two16 m k, b + two16 m (k + 4), c)
      else if len = 7 \<or> len = 6 then
        let b = (if len = 7 then b + push_bit 16 (ucast (m (k + 6))) else b)
        in Some (a + two16 m k, b + ucast (load16 m (k + 4)), c)
      else if len = 5 \<or> len = 4 then
        let b = (if len = 5 then b + ucast (m (k + 4)) else b)
        in Some (a + two16 m k, b, c)
      else if len = 3 \<or> len = 2 then
        let a = (if len = 3 then a + push_bit 16 (ucast (m (k + 2))) else a)
        in Some (a + ucast (load16 m k), b, c)
      else if len = 1 then Some (a + ucast (m k), b, c)
      else None)"

text \<open>The byte reader; every case of its \<open>switch\<close> falls through to the next:\<close>

definition four8 :: "mem \<Rightarrow> nat \<Rightarrow> u32 \<Rightarrow> u32" where
  "four8 m k x =
     (let x = x + ucast (m k);
          x = x + push_bit 8 (ucast (m (k + 1)));
          x = x + push_bit 16 (ucast (m (k + 2)))
      in x + push_bit 24 (ucast (m (k + 3))))"

fun jenkins_loop8 :: "mem \<Rightarrow> nat \<Rightarrow> nat \<Rightarrow> abc \<Rightarrow> nat \<times> nat \<times> abc" where
  "jenkins_loop8 m k len (a, b, c) =
     (if 12 < len
      then jenkins_loop8 m (k + 12) (len - 12)
             (mix (four8 m k a, four8 m (k + 4) b, four8 m (k + 8) c))
      else (k, len, (a, b, c)))"

definition jenkins_tail8 :: "mem \<Rightarrow> nat \<Rightarrow> nat \<Rightarrow> abc \<Rightarrow> abc option" where
  "jenkins_tail8 m k len s =
     (if len = 0 \<or> 12 < len then None else
      let (a, b, c) = s;
          c = (if 12 \<le> len then c + push_bit 24 (ucast (m (k + 11))) else c);
          c = (if 11 \<le> len then c + push_bit 16 (ucast (m (k + 10))) else c);
          c = (if 10 \<le> len then c + push_bit 8 (ucast (m (k + 9))) else c);
          c = (if 9 \<le> len then c + ucast (m (k + 8)) else c);
          b = (if 8 \<le> len then b + push_bit 24 (ucast (m (k + 7))) else b);
          b = (if 7 \<le> len then b + push_bit 16 (ucast (m (k + 6))) else b);
          b = (if 6 \<le> len then b + push_bit 8 (ucast (m (k + 5))) else b);
          b = (if 5 \<le> len then b + ucast (m (k + 4)) else b);
          a = (if 4 \<le> len then a + push_bit 24 (ucast (m (k + 3))) else a);
          a = (if 3 \<le> len then a + push_bit 16 (ucast (m (k + 2))) else a);
          a = (if 2 \<le> len then a + push_bit 8 (ucast (m (k + 1))) else a);
          a = (if 1 \<le> len then a + ucast (m k) else a)
      in Some (a, b, c))"

definition jenkins_finish :: "(mem \<Rightarrow> nat \<Rightarrow> nat \<Rightarrow> abc \<Rightarrow> abc option) \<Rightarrow> mem \<Rightarrow> nat \<times> nat \<times> abc \<Rightarrow> u32" where
  "jenkins_finish tail m r =
     (let (k, len, s) = r in
      case tail m k len s of None \<Rightarrow> snd (snd s) | Some s' \<Rightarrow> snd (snd (final s')))"

definition hash_jenkins :: "mem \<Rightarrow> nat \<Rightarrow> nat \<Rightarrow> u32" where
  "hash_jenkins m key len =
     (let i = 0xdeadbeef + word_of_nat len + JENKINS_INITVAL; s = (i, i, i) in
      if key mod 4 = 0 then jenkins_finish jenkins_tail32 m (jenkins_loop32 m key len s)
      else if key mod 2 = 0 then jenkins_finish jenkins_tail16 m (jenkins_loop16 m key len s)
      else jenkins_finish jenkins_tail8 m (jenkins_loop8 m key len s))"

section \<open>The three readers agree\<close>

lemma low_masks: "(0xffffff :: u32) = mask 24" "(0xffff :: u32) = mask 16" "(0xff :: u32) = mask 8"
  by (simp_all add: mask_eq_exp_minus_1)

lemma bytes_disjoint:
  fixes b0 b1 b2 b3 :: u8
  shows "ucast b0 + push_bit 8 (ucast b1) = (ucast b0 OR push_bit 8 (ucast b1) :: u32)"
    "(ucast b0 OR push_bit 8 (ucast b1)) + push_bit 16 (ucast b2) =
       ((ucast b0 OR push_bit 8 (ucast b1)) OR push_bit 16 (ucast b2) :: u32)"
    "((ucast b0 OR push_bit 8 (ucast b1)) OR push_bit 16 (ucast b2)) + push_bit 24 (ucast b3) =
       (((ucast b0 OR push_bit 8 (ucast b1)) OR push_bit 16 (ucast b2)) OR push_bit 24 (ucast b3) :: u32)"
  by (rule disjunctive_add_eq_or; rule bit_word_eqI; auto simp: bit_simps dest!: bit_imp_le_length)+

lemma le32_bytes:
  "le32 b0 b1 b2 b3 =
     ucast b0 + push_bit 8 (ucast b1) + push_bit 16 (ucast b2) + push_bit 24 (ucast b3)"
  "le32 b0 b1 b2 b3 AND 0xffffff = ucast b0 + push_bit 8 (ucast b1) + push_bit 16 (ucast b2)"
  "le32 b0 b1 b2 b3 AND 0xffff = ucast b0 + push_bit 8 (ucast b1)"
  "le32 b0 b1 b2 b3 AND 0xff = ucast b0"
  unfolding bytes_disjoint low_masks
  by (rule bit_word_eqI; auto simp: le32_def bit_simps dest: bit_imp_le_length)+

lemma ucast_load16: "ucast (load16 m p) = (ucast (m p) + push_bit 8 (ucast (m (p + 1))) :: u32)"
  unfolding bytes_disjoint by (rule bit_word_eqI) (auto simp: load16_def bit_simps dest: bit_imp_le_length)

lemma four8_eq: "four8 m k x = x + load32 m k"
  by (simp add: four8_def load32_def le32_bytes Let_def ac_simps)

lemma two16_eq: "two16 m k = load32 m k"
  by (simp add: two16_def load32_def le32_bytes ucast_load16 push_bit_add ac_simps
      del: One_nat_def add_2_eq_Suc')

declare jenkins_loop32.simps [simp del] jenkins_loop16.simps [simp del] jenkins_loop8.simps [simp del]

lemmas jenkins_loop_simps = jenkins_loop32.simps jenkins_loop16.simps jenkins_loop8.simps

lemma jenkins_loops_eq:
  "jenkins_loop16 m k len s = jenkins_loop32 m k len s"
  "jenkins_loop8 m k len s = jenkins_loop32 m k len s"
proof (induction m k len s rule: jenkins_loop32.induct)
  case (1 m k len a b c)
  {
    case 1
    show ?case
      by (subst jenkins_loop16.simps, subst jenkins_loop32.simps)
        (use "1.IH"(1) in \<open>simp add: two16_eq\<close>)
  next
    case 2
    show ?case
      by (subst jenkins_loop8.simps, subst jenkins_loop32.simps)
        (use "1.IH"(2) in \<open>simp add: four8_eq\<close>)
  }
qed

lemma jenkins_loop32_le: "jenkins_loop32 m k len s = (k', len', s') \<Longrightarrow> len' \<le> 12"
proof (induction m k len s rule: jenkins_loop32.induct)
  case (1 m k len a b c)
  then show ?case
    by (cases "12 < len") (simp_all add: jenkins_loop32.simps [of m k len])
qed

lemma le_12_cases:
  assumes "tail \<le> (12 :: nat)"
  shows "tail = 12 \<or> tail = 11 \<or> tail = 10 \<or> tail = 9 \<or> tail = 8 \<or> tail = 7 \<or> tail = 6 \<or>
    tail = 5 \<or> tail = 4 \<or> tail = 3 \<or> tail = 2 \<or> tail = 1 \<or> tail = 0"
  using assms by arith

lemma load32_masks:
  "load32 m k AND 0xffffff = ucast (m k) + push_bit 8 (ucast (m (k + 1))) + push_bit 16 (ucast (m (k + 2)))"
  "load32 m k AND 0xffff = ucast (m k) + push_bit 8 (ucast (m (k + 1)))"
  "load32 m k AND 0xff = ucast (m k)"
  by (simp_all only: load32_def le32_bytes(2,3,4))

lemma load32_bytes:
  "x + load32 m k = x + push_bit 24 (ucast (m (k + 3))) + push_bit 16 (ucast (m (k + 2))) +
     push_bit 8 (ucast (m (k + 1))) + ucast (m k)"
  by (simp add: load32_def le32_bytes add_ac)

lemmas jenkins_tail_simps = jenkins_tail8_def load32_masks load32_bytes two16_eq ucast_load16 Let_def

lemma jenkins_tails_eq:
  assumes "len \<le> 12"
  shows "jenkins_tail16 m k len s = jenkins_tail8 m k len s"
    "jenkins_tail32 m k len s = jenkins_tail8 m k len s"
proof -
  obtain a b c where s: "s = (a, b, c)"
    by (cases s)
  show "jenkins_tail16 m k len s = jenkins_tail8 m k len s"
    using le_12_cases [OF assms] unfolding s
    by (elim disjE; hypsubst) (simp_all add: jenkins_tail16_def jenkins_tail_simps add_ac)
  show "jenkins_tail32 m k len s = jenkins_tail8 m k len s"
    using le_12_cases [OF assms] unfolding s
    by (elim disjE; hypsubst) (simp_all add: jenkins_tail32_def jenkins_tail_simps add_ac)
qed

text \<open>The byte reader on every address is the reference.\<close>

definition hash_jenkins_bytewise :: "mem \<Rightarrow> nat \<Rightarrow> nat \<Rightarrow> u32" where
  "hash_jenkins_bytewise m key len =
     (let i = 0xdeadbeef + word_of_nat len + JENKINS_INITVAL
      in jenkins_finish jenkins_tail8 m (jenkins_loop8 m key len (i, i, i)))"

lemma hash_jenkins_bytewise_eq: "hash_jenkins m key len = hash_jenkins_bytewise m key len"
proof -
  have "jenkins_finish jenkins_tail32 m (jenkins_loop32 m key len s) =
      jenkins_finish jenkins_tail8 m (jenkins_loop32 m key len s)"
    "jenkins_finish jenkins_tail16 m (jenkins_loop32 m key len s) =
      jenkins_finish jenkins_tail8 m (jenkins_loop32 m key len s)" for s
    by (cases "jenkins_loop32 m key len s";
        simp add: jenkins_finish_def jenkins_tails_eq [OF jenkins_loop32_le])+
  then show ?thesis
    by (simp add: hash_jenkins_def hash_jenkins_bytewise_def jenkins_loops_eq Let_def)
qed

lemma jenkins_loop8_cong:
  assumes "\<And>i. i < len \<Longrightarrow> m (p + i) = m' (q + i)"
  shows "\<exists>d len' s'. jenkins_loop8 m p len s = (p + d, len', s') \<and>
    jenkins_loop8 m' q len s = (q + d, len', s') \<and> d + len' = len \<and> len' \<le> 12"
  using assms
proof (induction m p len s arbitrary: q rule: jenkins_loop8.induct)
  case (1 m p len a b c)
  show ?case
  proof (cases "12 < len")
    case True
    have "four8 m' (q + j) x = four8 m (p + j) x" if "j \<le> 8" for j x
      using "1.prems" [of j] "1.prems" [of "j + 1"] "1.prems" [of "j + 2"] "1.prems" [of "j + 3"] True that
      by (simp add: four8_def Let_def add.assoc)
    from this [of 0] this [of 4] this [of 8] True
      "1.IH" [OF True, of "q + 12"] "1.prems" [of "12 + i" for i]
    show ?thesis
      by (simp add: jenkins_loop8.simps [of m p len] jenkins_loop8.simps [of m' q len] add.assoc) fastforce
  qed (simp add: jenkins_loop8.simps)
qed

lemma jenkins_tail8_cong:
  assumes "\<And>i. i < len \<Longrightarrow> m (p + i) = m' (q + i)" "len \<le> 12"
  shows "jenkins_tail8 m p len s = jenkins_tail8 m' q len s"
  using assms(1) [of 0] assms(1) [of 1] assms(1) [of 2] assms(1) [of 3] assms(1) [of 4]
    assms(1) [of 5] assms(1) [of 6] assms(1) [of 7] assms(1) [of 8] assms(1) [of 9]
    assms(1) [of 10] assms(1) [of 11]
  by (cases s) (simp add: jenkins_tail8_def Let_def)

text \<open>
  C16: \<open>hash_jenkins\<close> is a function of the key's bytes alone: two memories that hold the same \<open>len\<close>
  bytes at two addresses give the same hash, whatever the two alignments select and whatever
  follows the key in memory.
\<close>

theorem hash_jenkins_key_only:
  assumes "\<forall>i < len. m (p + i) = m' (q + i)"
  shows "hash_jenkins m p len = hash_jenkins m' q len"
proof -
  define i where "i = 0xdeadbeef + word_of_nat len + JENKINS_INITVAL"
  obtain d len' s' where "jenkins_loop8 m p len (i, i, i) = (p + d, len', s')"
    "jenkins_loop8 m' q len (i, i, i) = (q + d, len', s')" "d + len' = len" "len' \<le> 12"
    using jenkins_loop8_cong [of len m p m' q "(i, i, i)"] assms by blast
  moreover from this assms have "jenkins_tail8 m (p + d) len' s' = jenkins_tail8 m' (q + d) len' s'"
    by (intro jenkins_tail8_cong) (auto simp: add.assoc)
  ultimately show ?thesis
    by (simp add: hash_jenkins_bytewise_eq hash_jenkins_bytewise_def jenkins_finish_def flip: i_def)
qed

theorem hash_jenkins_key_only_witness:
  "hash_jenkins (\<lambda>i. word_of_nat i) 4 5 =
   hash_jenkins (\<lambda>i. if i < 10 then word_of_nat (i - 1) else 0xff) 5 5"
  using hash_jenkins_key_only [of 5 "\<lambda>i. word_of_nat i" 4
      "\<lambda>i. if i < 10 then word_of_nat (i - 1) else 0xff" 5]
  by simp

end
