(* ===== verification/NC_Md5.thy ===== *)
theory NC_Md5
  imports NC_Prelude
begin

unbundle bit_operations_syntax

text \<open>
  The MD5 digest of src/src/hashkit/nc_md5.c and the key hash built on it.  The implementation is
  incremental: \<open>MD5_Update\<close> buffers an incomplete block and keeps the length in two words, and
  \<open>MD5_Final\<close> pads in place.  The specification is RFC 1321 on a whole message: pad, cut into
  blocks, and run 64 operations on each.  The theorem of this theory is that any sequence of updates
  gives the digest of the concatenated chunks.
\<close>

section \<open>The implementation\<close>

type_synonym abcd = "u32 \<times> u32 \<times> u32 \<times> u32"

text \<open>
  The compiled build reads message words straight from the input, so the field \<open>block\<close> of
  \<open>MD5_CTX\<close> is never used.
\<close>

record MD5_CTX =
  lo :: u32
  hi :: u32
  ctx_abcd :: abcd
  buffer :: bytes

definition md5_F :: "u32 \<Rightarrow> u32 \<Rightarrow> u32 \<Rightarrow> u32" where "md5_F x y z = z XOR (x AND (y XOR z))"
definition md5_G :: "u32 \<Rightarrow> u32 \<Rightarrow> u32 \<Rightarrow> u32" where "md5_G x y z = y XOR (z AND (x XOR y))"
definition md5_H :: "u32 \<Rightarrow> u32 \<Rightarrow> u32 \<Rightarrow> u32" where "md5_H x y z = (x XOR y) XOR z"
definition md5_I :: "u32 \<Rightarrow> u32 \<Rightarrow> u32 \<Rightarrow> u32" where "md5_I x y z = y XOR (x OR NOT z)"

definition STEP ::
  "(u32 \<Rightarrow> u32 \<Rightarrow> u32 \<Rightarrow> u32) \<Rightarrow> u32 \<Rightarrow> u32 \<Rightarrow> u32 \<Rightarrow> u32 \<Rightarrow> u32 \<Rightarrow> u32 \<Rightarrow> nat \<Rightarrow> u32" where
  "STEP f a b c d x t s =
     (let a = a + (f b c d + x + t);
          a = push_bit s a OR drop_bit (32 - s) (a AND 0xffffffff)
      in a + b)"

definition GET :: "bytes \<Rightarrow> nat \<Rightarrow> u32" where
  "GET ptr n = le32 (ptr ! (n * 4)) (ptr ! (n * 4 + 1)) (ptr ! (n * 4 + 2)) (ptr ! (n * 4 + 3))"

definition md5_round1 :: "bytes \<Rightarrow> abcd \<Rightarrow> abcd" where
  "md5_round1 ptr s =
     (let (a, b, c, d) = s;
          a = STEP md5_F a b c d (GET ptr 0) 0xd76aa478 7;
          d = STEP md5_F d a b c (GET ptr 1) 0xe8c7b756 12;
          c = STEP md5_F c d a b (GET ptr 2) 0x242070db 17;
          b = STEP md5_F b c d a (GET ptr 3) 0xc1bdceee 22;
          a = STEP md5_F a b c d (GET ptr 4) 0xf57c0faf 7;
          d = STEP md5_F d a b c (GET ptr 5) 0x4787c62a 12;
          c = STEP md5_F c d a b (GET ptr 6) 0xa8304613 17;
          b = STEP md5_F b c d a (GET ptr 7) 0xfd469501 22;
          a = STEP md5_F a b c d (GET ptr 8) 0x698098d8 7;
          d = STEP md5_F d a b c (GET ptr 9) 0x8b44f7af 12;
          c = STEP md5_F c d a b (GET ptr 10) 0xffff5bb1 17;
          b = STEP md5_F b c d a (GET ptr 11) 0x895cd7be 22;
          a = STEP md5_F a b c d (GET ptr 12) 0x6b901122 7;
          d = STEP md5_F d a b c (GET ptr 13) 0xfd987193 12;
          c = STEP md5_F c d a b (GET ptr 14) 0xa679438e 17;
          b = STEP md5_F b c d a (GET ptr 15) 0x49b40821 22
      in (a, b, c, d))"

definition md5_round2 :: "bytes \<Rightarrow> abcd \<Rightarrow> abcd" where
  "md5_round2 ptr s =
     (let (a, b, c, d) = s;
          a = STEP md5_G a b c d (GET ptr 1) 0xf61e2562 5;
          d = STEP md5_G d a b c (GET ptr 6) 0xc040b340 9;
          c = STEP md5_G c d a b (GET ptr 11) 0x265e5a51 14;
          b = STEP md5_G b c d a (GET ptr 0) 0xe9b6c7aa 20;
          a = STEP md5_G a b c d (GET ptr 5) 0xd62f105d 5;
          d = STEP md5_G d a b c (GET ptr 10) 0x02441453 9;
          c = STEP md5_G c d a b (GET ptr 15) 0xd8a1e681 14;
          b = STEP md5_G b c d a (GET ptr 4) 0xe7d3fbc8 20;
          a = STEP md5_G a b c d (GET ptr 9) 0x21e1cde6 5;
          d = STEP md5_G d a b c (GET ptr 14) 0xc33707d6 9;
          c = STEP md5_G c d a b (GET ptr 3) 0xf4d50d87 14;
          b = STEP md5_G b c d a (GET ptr 8) 0x455a14ed 20;
          a = STEP md5_G a b c d (GET ptr 13) 0xa9e3e905 5;
          d = STEP md5_G d a b c (GET ptr 2) 0xfcefa3f8 9;
          c = STEP md5_G c d a b (GET ptr 7) 0x676f02d9 14;
          b = STEP md5_G b c d a (GET ptr 12) 0x8d2a4c8a 20
      in (a, b, c, d))"

definition md5_round3 :: "bytes \<Rightarrow> abcd \<Rightarrow> abcd" where
  "md5_round3 ptr s =
     (let (a, b, c, d) = s;
          a = STEP md5_H a b c d (GET ptr 5) 0xfffa3942 4;
          d = STEP md5_H d a b c (GET ptr 8) 0x8771f681 11;
          c = STEP md5_H c d a b (GET ptr 11) 0x6d9d6122 16;
          b = STEP md5_H b c d a (GET ptr 14) 0xfde5380c 23;
          a = STEP md5_H a b c d (GET ptr 1) 0xa4beea44 4;
          d = STEP md5_H d a b c (GET ptr 4) 0x4bdecfa9 11;
          c = STEP md5_H c d a b (GET ptr 7) 0xf6bb4b60 16;
          b = STEP md5_H b c d a (GET ptr 10) 0xbebfbc70 23;
          a = STEP md5_H a b c d (GET ptr 13) 0x289b7ec6 4;
          d = STEP md5_H d a b c (GET ptr 0) 0xeaa127fa 11;
          c = STEP md5_H c d a b (GET ptr 3) 0xd4ef3085 16;
          b = STEP md5_H b c d a (GET ptr 6) 0x04881d05 23;
          a = STEP md5_H a b c d (GET ptr 9) 0xd9d4d039 4;
          d = STEP md5_H d a b c (GET ptr 12) 0xe6db99e5 11;
          c = STEP md5_H c d a b (GET ptr 15) 0x1fa27cf8 16;
          b = STEP md5_H b c d a (GET ptr 2) 0xc4ac5665 23
      in (a, b, c, d))"

definition md5_round4 :: "bytes \<Rightarrow> abcd \<Rightarrow> abcd" where
  "md5_round4 ptr s =
     (let (a, b, c, d) = s;
          a = STEP md5_I a b c d (GET ptr 0) 0xf4292244 6;
          d = STEP md5_I d a b c (GET ptr 7) 0x432aff97 10;
          c = STEP md5_I c d a b (GET ptr 14) 0xab9423a7 15;
          b = STEP md5_I b c d a (GET ptr 5) 0xfc93a039 21;
          a = STEP md5_I a b c d (GET ptr 12) 0x655b59c3 6;
          d = STEP md5_I d a b c (GET ptr 3) 0x8f0ccc92 10;
          c = STEP md5_I c d a b (GET ptr 10) 0xffeff47d 15;
          b = STEP md5_I b c d a (GET ptr 1) 0x85845dd1 21;
          a = STEP md5_I a b c d (GET ptr 8) 0x6fa87e4f 6;
          d = STEP md5_I d a b c (GET ptr 15) 0xfe2ce6e0 10;
          c = STEP md5_I c d a b (GET ptr 6) 0xa3014314 15;
          b = STEP md5_I b c d a (GET ptr 13) 0x4e0811a1 21;
          a = STEP md5_I a b c d (GET ptr 4) 0xf7537e82 6;
          d = STEP md5_I d a b c (GET ptr 11) 0xbd3af235 10;
          c = STEP md5_I c d a b (GET ptr 2) 0x2ad7d2bb 15;
          b = STEP md5_I b c d a (GET ptr 9) 0xeb86d391 21
      in (a, b, c, d))"

definition md5_block :: "bytes \<Rightarrow> abcd \<Rightarrow> abcd" where
  "md5_block ptr saved =
     (let (saved_a, saved_b, saved_c, saved_d) = saved;
          (a, b, c, d) = md5_round4 ptr (md5_round3 ptr (md5_round2 ptr (md5_round1 ptr saved)))
      in (a + saved_a, b + saved_b, c + saved_c, d + saved_d))"

text \<open>
  The \<open>do ... while (size -= 64)\<close> loop of \<open>body\<close>; every caller passes a positive multiple of 64.
  The result is the registers and the advanced pointer.
\<close>

fun body_loop :: "abcd \<Rightarrow> bytes \<Rightarrow> nat \<Rightarrow> abcd \<times> bytes" where
  "body_loop s ptr len =
     (let s = md5_block ptr s; ptr = drop 64 ptr; len = len - 64 in
      if len = 0 then (s, ptr) else body_loop s ptr len)"

definition body :: "MD5_CTX \<Rightarrow> bytes \<Rightarrow> nat \<Rightarrow> MD5_CTX \<times> bytes" where
  "body ctx data len =
     (let (s, ptr) = body_loop (ctx_abcd ctx) data len in (ctx\<lparr>ctx_abcd := s\<rparr>, ptr))"

definition MD5_Init :: "MD5_CTX \<Rightarrow> MD5_CTX" where
  "MD5_Init ctx =
     ctx\<lparr>ctx_abcd := (0x67452301, 0xefcdab89, 0x98badcfe, 0x10325476), lo := 0, hi := 0\<rparr>"

definition memcpy_at :: "bytes \<Rightarrow> nat \<Rightarrow> bytes \<Rightarrow> bytes" where
  "memcpy_at buf off data = take off buf @ data @ drop (off + length data) buf"

text \<open>\<open>len\<close> is the argument \<open>size\<close>, the length of \<open>data\<close> throughout, an \<open>unsigned long\<close> of 64 bits.\<close>

definition md5_count :: "u32 \<Rightarrow> u32 \<Rightarrow> nat \<Rightarrow> u32 \<times> u32" where
  "md5_count saved_lo hi0 len =
     (let lo' = ucast ((ucast saved_lo + word_of_nat len :: u64) AND 0x1fffffff);
          hi' = (if lo' < saved_lo then hi0 + 1 else hi0)
      in (lo', hi' + ucast (drop_bit 29 (word_of_nat len :: u64))))"

definition md5_update_blocks :: "MD5_CTX \<Rightarrow> bytes \<Rightarrow> MD5_CTX" where
  "md5_update_blocks ctx data =
     (let len = length data;
          (ctx, data) = (if 64 \<le> len then body ctx data (len - len mod 64) else (ctx, data))
      in ctx\<lparr>buffer := memcpy_at (buffer ctx) 0 data\<rparr>)"

definition MD5_Update :: "MD5_CTX \<Rightarrow> bytes \<Rightarrow> MD5_CTX" where
  "MD5_Update ctx data =
     (let len = length data;
          saved_lo = lo ctx;
          (lo', hi') = md5_count saved_lo (hi ctx) len;
          ctx = ctx\<lparr>lo := lo', hi := hi'\<rparr>;
          used = unat (saved_lo AND 0x3f);
          free = 64 - used
      in
      if used \<noteq> 0
      then
        if len < free
        then ctx\<lparr>buffer := memcpy_at (buffer ctx) used data\<rparr>
        else
          let ctx = ctx\<lparr>buffer := memcpy_at (buffer ctx) used (take free data)\<rparr>
          in md5_update_blocks (fst (body ctx (buffer ctx) 64)) (drop free data)
      else md5_update_blocks ctx data)"

definition le_bytes :: "u32 \<Rightarrow> bytes" where
  "le_bytes w = [ucast w, ucast (drop_bit 8 w), ucast (drop_bit 16 w), ucast (drop_bit 24 w)]"

definition md5_finish :: "MD5_CTX \<Rightarrow> nat \<Rightarrow> nat \<Rightarrow> bytes \<times> MD5_CTX" where
  "md5_finish ctx used free =
     (let ctx = ctx\<lparr>buffer := memcpy_at (buffer ctx) used (replicate (free - 8) 0)\<rparr>;
          ctx = ctx\<lparr>lo := push_bit 3 (lo ctx)\<rparr>;
          ctx = ctx\<lparr>buffer := memcpy_at (buffer ctx) 56 (le_bytes (lo ctx) @ le_bytes (hi ctx))\<rparr>;
          ctx = fst (body ctx (buffer ctx) 64);
          (a, b, c, d) = ctx_abcd ctx
      in (le_bytes a @ le_bytes b @ le_bytes c @ le_bytes d,
          \<lparr>lo = 0, hi = 0, ctx_abcd = (0, 0, 0, 0), buffer = replicate 64 0\<rparr>))"

definition MD5_Final :: "MD5_CTX \<Rightarrow> bytes \<times> MD5_CTX" where
  "MD5_Final ctx =
     (let used = unat (lo ctx AND 0x3f);
          ctx = ctx\<lparr>buffer := (buffer ctx)[used := 0x80]\<rparr>;
          used = used + 1;
          free = 64 - used
      in
      if free < 8
      then
        let ctx = ctx\<lparr>buffer := memcpy_at (buffer ctx) used (replicate free 0)\<rparr>
        in md5_finish (fst (body ctx (buffer ctx) 64)) 0 64
      else md5_finish ctx used free)"

text \<open>The context of \<open>md5_signature\<close> is an uninitialised local, here the argument \<open>my_md5\<close>.\<close>

definition md5_signature :: "MD5_CTX \<Rightarrow> bytes \<Rightarrow> bytes" where
  "md5_signature my_md5 key = fst (MD5_Final (MD5_Update (MD5_Init my_md5) key))"

definition hash_md5 :: "MD5_CTX \<Rightarrow> bytes \<Rightarrow> u32" where
  "hash_md5 my_md5 key =
     (let results = md5_signature my_md5 key
      in ((push_bit 24 (ucast (results ! 3 AND 0xff)) OR push_bit 16 (ucast (results ! 2 AND 0xff))) OR
          push_bit 8 (ucast (results ! 1 AND 0xff))) OR ucast (results ! 0 AND 0xff))"

section \<open>The specification: RFC 1321\<close>

definition rfc_F :: "u32 \<Rightarrow> u32 \<Rightarrow> u32 \<Rightarrow> u32" where "rfc_F x y z = (x AND y) OR (NOT x AND z)"
definition rfc_G :: "u32 \<Rightarrow> u32 \<Rightarrow> u32 \<Rightarrow> u32" where "rfc_G x y z = (x AND z) OR (y AND NOT z)"
definition rfc_H :: "u32 \<Rightarrow> u32 \<Rightarrow> u32 \<Rightarrow> u32" where "rfc_H x y z = (x XOR y) XOR z"
definition rfc_I :: "u32 \<Rightarrow> u32 \<Rightarrow> u32 \<Rightarrow> u32" where "rfc_I x y z = y XOR (x OR NOT z)"

definition rfc_T :: "u32 list" where
  "rfc_T = [
     0xd76aa478, 0xe8c7b756, 0x242070db, 0xc1bdceee,
     0xf57c0faf, 0x4787c62a, 0xa8304613, 0xfd469501,
     0x698098d8, 0x8b44f7af, 0xffff5bb1, 0x895cd7be,
     0x6b901122, 0xfd987193, 0xa679438e, 0x49b40821,
     0xf61e2562, 0xc040b340, 0x265e5a51, 0xe9b6c7aa,
     0xd62f105d, 0x02441453, 0xd8a1e681, 0xe7d3fbc8,
     0x21e1cde6, 0xc33707d6, 0xf4d50d87, 0x455a14ed,
     0xa9e3e905, 0xfcefa3f8, 0x676f02d9, 0x8d2a4c8a,
     0xfffa3942, 0x8771f681, 0x6d9d6122, 0xfde5380c,
     0xa4beea44, 0x4bdecfa9, 0xf6bb4b60, 0xbebfbc70,
     0x289b7ec6, 0xeaa127fa, 0xd4ef3085, 0x04881d05,
     0xd9d4d039, 0xe6db99e5, 0x1fa27cf8, 0xc4ac5665,
     0xf4292244, 0x432aff97, 0xab9423a7, 0xfc93a039,
     0x655b59c3, 0x8f0ccc92, 0xffeff47d, 0x85845dd1,
     0x6fa87e4f, 0xfe2ce6e0, 0xa3014314, 0x4e0811a1,
     0xf7537e82, 0xbd3af235, 0x2ad7d2bb, 0xeb86d391]"

text \<open>Operation \<open>i\<close> of the 64: its auxiliary function, message word, rotation and constant.\<close>

definition rfc_op :: "nat \<Rightarrow> (u32 \<Rightarrow> u32 \<Rightarrow> u32 \<Rightarrow> u32) \<times> nat \<times> nat \<times> u32" where
  "rfc_op i =
     (if i < 16 then (rfc_F, i, [7, 12, 17, 22] ! (i mod 4), rfc_T ! i)
      else if i < 32 then (rfc_G, (5 * i + 1) mod 16, [5, 9, 14, 20] ! (i mod 4), rfc_T ! i)
      else if i < 48 then (rfc_H, (3 * i + 5) mod 16, [4, 11, 16, 23] ! (i mod 4), rfc_T ! i)
      else (rfc_I, (7 * i) mod 16, [6, 10, 15, 21] ! (i mod 4), rfc_T ! i))"

definition rfc_rotl :: "nat \<Rightarrow> u32 \<Rightarrow> u32" where
  "rfc_rotl s x = push_bit s x OR drop_bit (32 - s) x"

definition rfc_apply :: "(nat \<Rightarrow> u32) \<Rightarrow> abcd \<Rightarrow> (u32 \<Rightarrow> u32 \<Rightarrow> u32 \<Rightarrow> u32) \<times> nat \<times> nat \<times> u32 \<Rightarrow> abcd" where
  "rfc_apply X r o1 =
     (let (a, b, c, d) = r; (f, k, s, t) = o1
      in (d, b + rfc_rotl s (a + f b c d + X k + t), b, c))"

definition rfc_block :: "abcd \<Rightarrow> bytes \<Rightarrow> abcd" where
  "rfc_block r block =
     (let (a, b, c, d) = r; (a', b', c', d') = foldl (rfc_apply (GET block)) r (map rfc_op [0..<64])
      in (a + a', b + b', c + c', d + d'))"

fun blocks64 :: "bytes \<Rightarrow> bytes list" where
  "blocks64 xs = (if length xs < 64 then [] else take 64 xs # blocks64 (drop 64 xs))"

definition rfc_init :: abcd where
  "rfc_init = (0x67452301, 0xefcdab89, 0x98badcfe, 0x10325476)"

definition rfc_length_bytes :: "nat \<Rightarrow> bytes" where
  "rfc_length_bytes n = map (\<lambda>i. word_of_nat (8 * n div 256 ^ i)) [0..<8]"

definition rfc_pad :: "bytes \<Rightarrow> bytes" where
  "rfc_pad m = m @ [0x80] @ replicate ((119 - length m mod 64) mod 64) 0 @ rfc_length_bytes (length m)"

definition rfc_output :: "abcd \<Rightarrow> bytes" where
  "rfc_output r = (let (a, b, c, d) = r in le_bytes a @ le_bytes b @ le_bytes c @ le_bytes d)"

definition rfc_md5 :: "bytes \<Rightarrow> bytes" where
  "rfc_md5 m = rfc_output (foldl rfc_block rfc_init (blocks64 (rfc_pad m)))"

section \<open>One block\<close>

lemma md5_aux_eq: "md5_F = rfc_F" "md5_G = rfc_G" "md5_H = rfc_H" "md5_I = rfc_I"
  by (intro ext bit_word_eqI; auto simp: md5_F_def rfc_F_def md5_G_def rfc_G_def md5_H_def rfc_H_def
      md5_I_def rfc_I_def bit_simps)+

lemma STEP_eq: "STEP f a b c d x t s = b + rfc_rotl s (a + f b c d + x + t)"
proof -
  have "w AND 0xffffffff = w" for w :: u32
    by (rule bit_word_eqI) (simp add: bit_simps flip: mask32)
  then show ?thesis by (simp add: STEP_def rfc_rotl_def Let_def ac_simps)
qed

lemma let_STEP:
  assumes "i < n" and "rfc_op i = (f, k, s, t)"
    and "\<And>x. R x = foldl (rfc_apply (GET ptr)) (d, x, b, c) (map rfc_op [Suc i..<n])"
  shows "(let x = STEP f a b c d (GET ptr k) t s in R x) =
    foldl (rfc_apply (GET ptr)) (a, b, c, d) (map rfc_op [i..<n])"
  using assms by (simp add: rfc_apply_def STEP_eq upt_conv_Cons)

lemma md5_round1_eq: "md5_round1 ptr (a, b, c, d) = foldl (rfc_apply (GET ptr)) (a, b, c, d) (map rfc_op [0..<16])"
  unfolding md5_round1_def md5_aux_eq Let_def [of "(a, b, c, d)"] prod.case
  by (rule let_STEP, simp, simp add: rfc_op_def rfc_T_def)+ simp

lemma md5_round2_eq: "md5_round2 ptr (a, b, c, d) = foldl (rfc_apply (GET ptr)) (a, b, c, d) (map rfc_op [16..<32])"
  unfolding md5_round2_def md5_aux_eq Let_def [of "(a, b, c, d)"] prod.case
  by (rule let_STEP, simp, simp add: rfc_op_def rfc_T_def)+ simp

lemma md5_round3_eq: "md5_round3 ptr (a, b, c, d) = foldl (rfc_apply (GET ptr)) (a, b, c, d) (map rfc_op [32..<48])"
  unfolding md5_round3_def md5_aux_eq Let_def [of "(a, b, c, d)"] prod.case
  by (rule let_STEP, simp, simp add: rfc_op_def rfc_T_def)+ simp

lemma md5_round4_eq: "md5_round4 ptr (a, b, c, d) = foldl (rfc_apply (GET ptr)) (a, b, c, d) (map rfc_op [48..<64])"
  unfolding md5_round4_def md5_aux_eq Let_def [of "(a, b, c, d)"] prod.case
  by (rule let_STEP, simp, simp add: rfc_op_def rfc_T_def)+ simp

lemma md5_block_eq: "md5_block ptr s = rfc_block s ptr"
proof (cases s)
  case (fields a b c d)
  have split: "[0..<64] = [0..<16] @ [16..<32] @ [32..<48] @ [48..<64]"
    by (simp add: upt_rec)
  have rounds: "md5_round1 ptr r = foldl (rfc_apply (GET ptr)) r (map rfc_op [0..<16])"
    "md5_round2 ptr r = foldl (rfc_apply (GET ptr)) r (map rfc_op [16..<32])"
    "md5_round3 ptr r = foldl (rfc_apply (GET ptr)) r (map rfc_op [32..<48])"
    "md5_round4 ptr r = foldl (rfc_apply (GET ptr)) r (map rfc_op [48..<64])" for r
    by (cases r; simp only: md5_round1_eq md5_round2_eq md5_round3_eq md5_round4_eq)+
  show ?thesis
    unfolding md5_block_def rfc_block_def fields rounds split map_append foldl_append Let_def
    by (simp only: prod.case add.commute)
qed

lemma rfc_op_word: "rfc_op i = (f, k, s, t) \<Longrightarrow> i < 64 \<Longrightarrow> k < 16"
  by (auto simp: rfc_op_def split: if_splits)

lemma rfc_block_take:
  assumes "64 \<le> length ptr"
  shows "rfc_block r (take 64 ptr) = rfc_block r ptr"
proof -
  have "GET (take 64 ptr) k = GET ptr k" if "k < 16" for k
    using assms that by (simp add: GET_def)
  then have "rfc_apply (GET (take 64 ptr)) x (rfc_op i) = rfc_apply (GET ptr) x (rfc_op i)"
    if "i < 64" for x i
    using that by (cases "rfc_op i") (auto simp: rfc_apply_def dest: rfc_op_word)
  then have "foldl (rfc_apply (GET (take 64 ptr))) r (map rfc_op [0..<64]) =
      foldl (rfc_apply (GET ptr)) r (map rfc_op [0..<64])"
    by (intro foldl_cong) auto
  then show ?thesis by (simp only: rfc_block_def)
qed

section \<open>Sequences of blocks\<close>

declare blocks64.simps [simp del] body_loop.simps [simp del]

lemma blocks64_short: "length xs < 64 \<Longrightarrow> blocks64 xs = []"
  by (simp add: blocks64.simps)

lemma blocks64_block: "length xs = 64 \<Longrightarrow> blocks64 (xs @ ys) = xs # blocks64 ys"
  by (simp add: blocks64.simps [of "xs @ ys"])

lemma blocks64_append: "64 dvd length xs \<Longrightarrow> blocks64 (xs @ ys) = blocks64 xs @ blocks64 ys"
proof (induction xs rule: blocks64.induct)
  case (1 xs)
  show ?case
  proof (cases "length xs < 64")
    case True
    with "1.prems" have "xs = []" by (auto elim!: dvdE)
    then show ?thesis by (simp add: blocks64_short)
  next
    case False
    with "1.prems" have "64 dvd length (drop 64 xs)" by simp
    with 1 False show ?thesis
      using blocks64_block [of "take 64 xs" "drop 64 xs @ ys"] blocks64_block [of "take 64 xs" "drop 64 xs"]
      by (simp flip: append_assoc)
  qed
qed

lemma body_loop_eq:
  "64 * Suc k \<le> length ptr \<Longrightarrow>
    body_loop s ptr (64 * Suc k) = (foldl rfc_block s (blocks64 (take (64 * Suc k) ptr)), drop (64 * Suc k) ptr)"
proof (induction k arbitrary: s ptr)
  case 0
  then show ?case
    using blocks64_block [of "take 64 ptr" "[]"]
    by (simp add: body_loop.simps md5_block_eq rfc_block_take blocks64_short)
next
  case (Suc k)
  have "take (64 + n) ptr = take 64 ptr @ take n (drop 64 ptr)" for n
    by (rule take_add)
  with Suc.prems have "blocks64 (take (64 + n) ptr) = take 64 ptr # blocks64 (take n (drop 64 ptr))" for n
    by (simp add: blocks64_block)
  from this [of "64 * Suc k"] Suc.IH [of "drop 64 ptr" "rfc_block s ptr"] Suc.prems show ?case
    by (simp add: body_loop.simps [of s] md5_block_eq rfc_block_take add.commute)
qed

lemma body_eq:
  assumes "64 dvd n" "0 < n" "n \<le> length ptr"
  shows "body ctx ptr n =
    (ctx\<lparr>ctx_abcd := foldl rfc_block (ctx_abcd ctx) (blocks64 (take n ptr))\<rparr>, drop n ptr)"
proof -
  obtain k where "n = 64 * Suc k"
    using assms by (metis dvd_def gr0_implies_Suc mult_0_right neq0_conv)
  with body_loop_eq [of k ptr "ctx_abcd ctx"] assms show ?thesis
    by (simp add: body_def)
qed

section \<open>The incremental state\<close>

text \<open>
  \<open>md5_state f ctx r\<close>: the context has consumed the blocks of \<open>f\<close> and buffers the incomplete
  block \<open>r\<close>.  \<open>md5_repr ctx m\<close>: the context stands for the message \<open>m\<close>.
\<close>

definition md5_state :: "bytes \<Rightarrow> MD5_CTX \<Rightarrow> bytes \<Rightarrow> bool" where
  "md5_state f ctx r \<longleftrightarrow>
     64 dvd length f \<and> length r < 64 \<and> length (buffer ctx) = 64 \<and> take (length r) (buffer ctx) = r \<and>
     ctx_abcd ctx = foldl rfc_block rfc_init (blocks64 f)"

definition md5_length :: "MD5_CTX \<Rightarrow> nat \<Rightarrow> bool" where
  "md5_length ctx n \<longleftrightarrow> lo ctx = word_of_nat (n mod 2 ^ 29) \<and> hi ctx = word_of_nat (n div 2 ^ 29)"

definition md5_repr :: "MD5_CTX \<Rightarrow> bytes \<Rightarrow> bool" where
  "md5_repr ctx m \<longleftrightarrow> md5_length ctx (length m) \<and> (\<exists>f r. m = f @ r \<and> md5_state f ctx r)"

lemma low_word_of_nat: "w AND 0x1fffffff = take_bit 29 (w :: u64)" "v AND 0x3f = take_bit 6 (v :: u32)"
  by (simp_all add: take_bit_eq_mask mask_eq_exp_minus_1)

lemma take_bit_word_of_nat: "take_bit k (word_of_nat n :: 'a::len word) = word_of_nat (n mod 2 ^ k)"
  by (metis take_bit_of_nat take_bit_nat_def)

lemma ucast_of_nat_down: "(ucast (word_of_nat k :: u64) :: u32) = word_of_nat k"
  by (rule bit_word_eqI) (auto simp: bit_simps)

lemma ucast_drop_bit_of_nat:
  assumes "len < 2 ^ 64"
  shows "ucast (drop_bit 29 (word_of_nat len :: u64)) = (word_of_nat (len div 2 ^ 29) :: u32)"
proof -
  have "unat (drop_bit 29 (word_of_nat len :: u64)) = len div 2 ^ 29"
    using assms by (simp only: unsigned_drop_bit_eq unat_of_nat drop_bit_nat_def take_bit_nat_def) simp
  then show ?thesis by (metis of_nat_unat)
qed

lemma div_carry:
  fixes n k c :: nat
  assumes "0 < c"
  shows "(n + k) div c = (if (n + k) mod c < n mod c then n div c + 1 else n div c) + k div c"
proof -
  define x y where "x = n mod c" and "y = k mod c"
  have lt: "x < c" "y < c"
    using assms by (auto simp: x_def y_def)
  have eq: "(n + k) mod c = (x + y) mod c" "(n + k) div c = n div c + k div c + (x + y) div c"
    unfolding x_def y_def by (rule mod_add_eq [symmetric], rule div_add1_eq)
  have "(x + y) div c = (if (x + y) mod c < x then 1 else 0)"
  proof (cases "c \<le> x + y")
    case True
    with lt show ?thesis by (simp add: le_div_geq le_mod_geq)
  qed simp
  then show ?thesis
    unfolding eq x_def [symmetric] by (simp split: if_splits)
qed

lemma carry_of_nat:
  "x = (if P then a + 1 else a) + b \<Longrightarrow>
    (y, (if P then word_of_nat a + 1 else word_of_nat a) + word_of_nat b) = (y, word_of_nat x)"
  by simp

lemma md5_count_correct:
  assumes "len < 2 ^ 64"
  shows "md5_count (word_of_nat (n mod 2 ^ 29)) (word_of_nat (n div 2 ^ 29)) len =
    (word_of_nat ((n + len) mod 2 ^ 29), word_of_nat ((n + len) div 2 ^ 29))"
proof -
  define l :: u32 where "l = word_of_nat (n mod 2 ^ 29)"
  have small: "unat (word_of_nat (k mod 2 ^ 29) :: u32) = k mod 2 ^ 29" for k :: nat
    by (simp add: unat_of_nat)
  then have l: "unat l = n mod 2 ^ 29"
    by (simp only: l_def)
  have "(ucast l + word_of_nat len :: u64) = word_of_nat (n mod 2 ^ 29 + len)"
    unfolding of_nat_add l [symmetric] of_nat_unat ..
  then have lo': "ucast ((ucast l + word_of_nat len :: u64) AND 0x1fffffff) = (word_of_nat ((n + len) mod 2 ^ 29) :: u32)"
    by (simp only: low_word_of_nat take_bit_word_of_nat ucast_of_nat_down mod_add_left_eq)
  have carry: "(word_of_nat ((n + len) mod 2 ^ 29) :: u32) < l \<longleftrightarrow> (n + len) mod 2 ^ 29 < n mod 2 ^ 29"
    by (simp only: word_less_nat_alt l small)
  have "(n + len) div 2 ^ 29 =
      (if (n + len) mod 2 ^ 29 < n mod 2 ^ 29 then n div 2 ^ 29 + 1 else n div 2 ^ 29) + len div 2 ^ 29"
    by (rule div_carry) simp
  then show ?thesis
    unfolding md5_count_def l_def [symmetric] lo' ucast_drop_bit_of_nat [OF assms] carry Let_def
    by (rule carry_of_nat)
qed

lemma md5_used:
  assumes "md5_length ctx (length (f @ r))" "64 dvd length f" "length r < 64"
  shows "unat (lo ctx AND 0x3f) = length r"
proof -
  have "lo ctx = word_of_nat (length (f @ r) mod 2 ^ 29)"
    using assms by (simp add: md5_length_def)
  moreover have "length (f @ r) mod 2 ^ 29 mod 2 ^ 6 = length r"
    using assms(2,3) by (auto simp: mod_mod_cancel)
  ultimately show ?thesis
    using assms(3) by (simp only: low_word_of_nat take_bit_word_of_nat unat_of_nat take_bit_nat_def) simp
qed

lemma le_bytes_of_nat: "le_bytes (word_of_nat k) = map (\<lambda>i. word_of_nat (k div 256 ^ i)) [0..<4]"
proof -
  have "ucast (drop_bit j (word_of_nat k :: u32)) = (word_of_nat (k div 2 ^ j) :: u8)" if "j \<le> 24" for j
    using that by (intro bit_word_eqI) (auto simp: bit_simps simp flip: drop_bit_eq_div)
  from this [of 0] this [of 8] this [of 16] this [of 24] show ?thesis
    by (simp add: le_bytes_def upt_rec)
qed

lemma md5_length_bytes:
  assumes "md5_length ctx n"
  shows "le_bytes (push_bit 3 (lo ctx)) @ le_bytes (hi ctx) = rfc_length_bytes n"
proof -
  have "(word_of_nat (8 * n) :: u32) = word_of_nat (8 * (n mod 2 ^ 29))"
    by (simp only: word_of_nat_eq_iff take_bit_nat_def) (simp add: mult_mod_right)
  then have "push_bit 3 (lo ctx) = word_of_nat (8 * n)"
    using assms by (simp add: md5_length_def push_bit_eq_mult)
  then have "le_bytes (push_bit 3 (lo ctx)) = map (\<lambda>i. word_of_nat (8 * n div 256 ^ i)) [0..<4]"
    by (simp only: le_bytes_of_nat)
  moreover have "n div 2 ^ 29 div 256 ^ i = 8 * n div 256 ^ (i + 4)" for i
    by (simp add: power_add div_mult2_eq [symmetric] mult.commute)
  then have "le_bytes (hi ctx) = map (\<lambda>i. word_of_nat (8 * n div 256 ^ (i + 4))) [0..<4]"
    using assms by (simp only: md5_length_def le_bytes_of_nat)
  then have "le_bytes (hi ctx) = map (\<lambda>i. word_of_nat (8 * n div 256 ^ i)) (map (\<lambda>i. i + 4) [0..<4])"
    by (simp only: map_map o_def)
  moreover have "[0..<8] = [0..<4] @ map (\<lambda>i. i + 4) [0..<4]"
    by (simp add: upt_rec)
  ultimately show ?thesis
    by (simp only: rfc_length_bytes_def map_append)
qed

lemma md5_update_blocks_state:
  assumes "64 dvd length f" "length (buffer ctx) = 64"
    "ctx_abcd ctx = foldl rfc_block rfc_init (blocks64 f)"
  shows "\<exists>f' r. f @ data = f' @ r \<and> md5_state f' (md5_update_blocks ctx data) r \<and>
    lo (md5_update_blocks ctx data) = lo ctx \<and> hi (md5_update_blocks ctx data) = hi ctx"
proof (cases "64 \<le> length data")
  case True
  define n where "n = length data - length data mod 64"
  have n: "64 dvd n" "0 < n" "n \<le> length data" "length data - n < 64"
    using True by (auto simp: n_def minus_mod_eq_mult_div [symmetric])
  then show ?thesis
    using assms True
    by (intro exI [of _ "f @ take n data"] exI [of _ "drop n data"])
      (simp add: md5_update_blocks_def md5_state_def body_eq blocks64_append memcpy_at_def flip: n_def)
next
  case False
  with assms show ?thesis
    by (intro exI [of _ f] exI [of _ data]) (simp add: md5_update_blocks_def md5_state_def memcpy_at_def)
qed

lemma MD5_Update_repr:
  assumes "md5_repr ctx m" "length data < 2 ^ 64"
  shows "md5_repr (MD5_Update ctx data) (m @ data)"
proof -
  obtain f r where m: "m = f @ r" and st: "md5_state f ctx r" and len: "md5_length ctx (length (f @ r))"
    using assms(1) by (auto simp: md5_repr_def)
  have used: "unat (lo ctx AND 0x3f) = length r"
    using st len by (intro md5_used) (auto simp: md5_state_def)
  define ctx1 where "ctx1 = ctx\<lparr>lo := word_of_nat (length (m @ data) mod 2 ^ 29),
    hi := word_of_nat (length (m @ data) div 2 ^ 29)\<rparr>"
  have len1: "md5_length c (length (m @ data))" if "lo c = lo ctx1" "hi c = hi ctx1" for c :: MD5_CTX
    using that by (simp add: ctx1_def md5_length_def)
  have "md5_count (lo ctx) (hi ctx) (length data) = (lo ctx1, hi ctx1)"
    using md5_count_correct [OF assms(2), of "length m"] len
    by (simp add: md5_length_def m ctx1_def add.assoc)
  moreover have "ctx\<lparr>lo := lo ctx1, hi := hi ctx1\<rparr> = ctx1"
    by (simp add: ctx1_def)
  ultimately have upd: "MD5_Update ctx data =
    (if length r \<noteq> 0
     then if length data < 64 - length r
       then ctx1\<lparr>buffer := memcpy_at (buffer ctx1) (length r) data\<rparr>
       else let c = ctx1\<lparr>buffer := memcpy_at (buffer ctx1) (length r) (take (64 - length r) data)\<rparr>
         in md5_update_blocks (fst (body c (buffer c) 64)) (drop (64 - length r) data)
     else md5_update_blocks ctx1 data)"
    by (simp add: MD5_Update_def used Let_def)
  have st1: "md5_state f ctx1 r"
    using st by (simp add: md5_state_def ctx1_def)
  consider (none) "r = []" | (small) "r \<noteq> []" "length data < 64 - length r"
    | (big) "r \<noteq> []" "64 - length r \<le> length data"
    by linarith
  then show ?thesis
  proof cases
    case none
    with md5_update_blocks_state [of f ctx1 data] st1 len1 show ?thesis
      unfolding md5_repr_def upd m by (auto simp: md5_state_def)
  next
    case small
    then have "md5_state f (MD5_Update ctx data) (r @ data)"
      using st1 by (auto simp: upd md5_state_def memcpy_at_def)
    moreover have "md5_length (MD5_Update ctx data) (length (m @ data))"
      using small by (intro len1) (simp_all add: upd)
    ultimately show ?thesis
      unfolding md5_repr_def m append_assoc by blast
  next
    case big
    define b where "b = r @ take (64 - length r) data"
    define c where "c = ctx1\<lparr>buffer := b, ctx_abcd := foldl rfc_block rfc_init (blocks64 (f @ b))\<rparr>"
    have b: "length b = 64" "memcpy_at (buffer ctx1) (length r) (take (64 - length r) data) = b"
      using big st1 by (auto simp: b_def memcpy_at_def md5_state_def)
    have "MD5_Update ctx data = md5_update_blocks c (drop (64 - length r) data)"
      using big st1 b by (simp add: upd body_eq c_def md5_state_def blocks64_append Let_def)
    moreover have "m @ data = (f @ b) @ drop (64 - length r) data"
      by (simp add: m b_def)
    ultimately show ?thesis
      using md5_update_blocks_state [of "f @ b" c "drop (64 - length r) data"] st1 b len1
      unfolding md5_repr_def by (auto simp: md5_state_def c_def)
  qed
qed

lemma md5_length_update [simp]:
  "md5_length (ctx\<lparr>buffer := x\<rparr>) n \<longleftrightarrow> md5_length ctx n"
  "md5_length (ctx\<lparr>ctx_abcd := y\<rparr>) n \<longleftrightarrow> md5_length ctx n"
  by (simp_all add: md5_length_def)

lemma md5_finish_eq:
  assumes "64 dvd length f" "ctx_abcd ctx = foldl rfc_block rfc_init (blocks64 f)"
    "length (buffer ctx) = 64" "used \<le> 56" "md5_length ctx n"
  shows "fst (md5_finish ctx used (64 - used)) = rfc_output (foldl rfc_block rfc_init
    (blocks64 (f @ take used (buffer ctx) @ replicate (56 - used) 0 @ rfc_length_bytes n)))"
proof -
  define l where "l = rfc_length_bytes n"
  have lens: "le_bytes (push_bit 3 (lo ctx)) @ le_bytes (hi ctx) = l"
    unfolding l_def using assms(5) by (rule md5_length_bytes)
  have "length l = 8"
    by (simp add: l_def rfc_length_bytes_def)
  with assms(3,4) have buf:
    "memcpy_at (memcpy_at (buffer ctx) used (replicate (56 - used) 0)) 56 l =
      take used (buffer ctx) @ replicate (56 - used) 0 @ l"
    and "length (take used (buffer ctx) @ replicate (56 - used) 0 @ l) = 64"
    by (simp_all add: memcpy_at_def)
  with assms show ?thesis
    by (simp add: md5_finish_def lens buf body_eq blocks64_append rfc_output_def Let_def split_def
        flip: l_def)
qed

lemma MD5_Final_repr:
  assumes "md5_repr ctx m"
  shows "fst (MD5_Final ctx) = rfc_md5 m"
proof -
  obtain f r where m: "m = f @ r" and st: "md5_state f ctx r" and len: "md5_length ctx (length m)"
    using assms by (auto simp: md5_repr_def)
  define b where "b = (buffer ctx)[length r := 0x80]"
  have used: "unat (lo ctx AND 0x3f) = length r"
    using st len m by (intro md5_used) (auto simp: md5_state_def)
  have r: "length m mod 64 = length r" "length r < 64"
    using st by (auto simp: m md5_state_def)
  have b: "length b = 64" "take (Suc (length r)) b = r @ [0x80]"
    using st by (auto simp: b_def md5_state_def take_Suc_conv_app_nth take_update_cancel)
  define z where "z = r @ [0x80] @ replicate (63 - length r) 0"
  define c where "c = ctx\<lparr>buffer := z, ctx_abcd := foldl rfc_block (ctx_abcd ctx) (blocks64 z)\<rparr>"
  have z: "length z = 64" "memcpy_at b (Suc (length r)) (replicate (63 - length r) 0) = z"
    using b r by (simp_all add: z_def memcpy_at_def)
  then have fin: "MD5_Final ctx =
    (if length r < 56 then md5_finish (ctx\<lparr>buffer := b\<rparr>) (Suc (length r)) (64 - Suc (length r))
     else md5_finish c 0 (64 - 0))"
    using r by (auto simp: MD5_Final_def used body_eq c_def Let_def simp flip: b_def)
  have state: "64 dvd length f" "ctx_abcd ctx = foldl rfc_block rfc_init (blocks64 f)"
    using st by (auto simp: md5_state_def)
  show ?thesis
  proof (cases "length r < 56")
    case True
    then have "rfc_pad m = f @ take (Suc (length r)) b @ replicate (56 - Suc (length r)) 0 @ rfc_length_bytes (length m)"
      unfolding rfc_pad_def r by (simp add: m b mod_if)
    moreover from True have "MD5_Final ctx = md5_finish (ctx\<lparr>buffer := b\<rparr>) (Suc (length r)) (64 - Suc (length r))"
      by (simp only: fin if_True)
    ultimately show ?thesis
      using md5_finish_eq [of f "ctx\<lparr>buffer := b\<rparr>" "Suc (length r)" "length m"] True state b len
      by (simp add: rfc_md5_def)
  next
    case False
    then have "replicate (119 - length r) (0 :: u8) = replicate (63 - length r) 0 @ replicate 56 0"
      using r(2) by (simp flip: replicate_add)
    with False have "rfc_pad m = (f @ z) @ take 0 z @ replicate (56 - 0) 0 @ rfc_length_bytes (length m)"
      unfolding rfc_pad_def r by (simp add: m z_def)
    moreover from False have "MD5_Final ctx = md5_finish c 0 (64 - 0)"
      by (simp only: fin if_False)
    ultimately show ?thesis
      using md5_finish_eq [of "f @ z" c 0 "length m"] state z len
      by (simp add: rfc_md5_def c_def blocks64_append)
  qed
qed

lemma MD5_Init_repr: "length (buffer ctx) = 64 \<Longrightarrow> md5_repr (MD5_Init ctx) []"
  by (simp add: md5_repr_def md5_length_def md5_state_def MD5_Init_def rfc_init_def blocks64_short)

text \<open>
  C15: an MD5 context that is initialised, fed any number of chunks and finalised returns the
  RFC 1321 digest of the concatenated chunks, whatever the uninitialised context held before.
\<close>

theorem md5_chunks:
  assumes "length (buffer ctx) = 64" "\<forall>c \<in> set chunks. length c < 2 ^ 64"
  shows "fst (MD5_Final (foldl MD5_Update (MD5_Init ctx) chunks)) = rfc_md5 (concat chunks)"
proof -
  have "md5_repr c m \<Longrightarrow> md5_repr (foldl MD5_Update c chunks) (m @ concat chunks)" for c m
    using assms(2)
  proof (induction chunks arbitrary: c m)
    case (Cons d ds)
    then show ?case
      using Cons.IH [of "MD5_Update c d" "m @ d"] MD5_Update_repr [of c m d] by simp
  qed simp
  from this [OF MD5_Init_repr [OF assms(1)]] show ?thesis
    by (simp add: MD5_Final_repr)
qed

theorem md5_chunks_witness:
  "fst (MD5_Final (foldl MD5_Update
     (MD5_Init \<lparr>lo = 7, hi = 9, ctx_abcd = (1, 2, 3, 4), buffer = replicate 64 0xaa\<rparr>)
     [bytes_of ''abc'', [], replicate 100 0x41])) = rfc_md5 (bytes_of ''abc'' @ replicate 100 0x41)"
  using md5_chunks [of "\<lparr>lo = 7, hi = 9, ctx_abcd = (1, 2, 3, 4), buffer = replicate 64 0xaa\<rparr>"
      "[bytes_of ''abc'', [], replicate 100 0x41]"]
  by (simp add: bytes_of_def)

lemma le_bytes_word: "le32 (ucast w) (ucast (drop_bit 8 w)) (ucast (drop_bit 16 w)) (ucast (drop_bit 24 w)) = w"
proof (rule bit_word_eqI)
  fix n
  assume "n < LENGTH(32)"
  then show "bit (le32 (ucast w) (ucast (drop_bit 8 w)) (ucast (drop_bit 16 w)) (ucast (drop_bit 24 w))) n = bit w n"
    by (cases "n < 8"; cases "n < 16"; cases "n < 24") (auto simp: le32_def bit_simps)
qed

lemma and_ff: "x AND (0xff :: u8) = x"
  unfolding mask8 by (rule bit_word_eqI) (simp add: bit_simps)

text \<open>
  C31: \<open>hash_md5\<close> is the first register of the RFC 1321 computation on the key.
\<close>

theorem hash_md5_correct:
  assumes "length (buffer my_md5) = 64" "length key < 2 ^ 64"
  shows "hash_md5 my_md5 key = fst (foldl rfc_block rfc_init (blocks64 (rfc_pad key)))"
proof -
  obtain a b c d where r: "foldl rfc_block rfc_init (blocks64 (rfc_pad key)) = (a, b, c, d)"
    by (metis prod_cases4)
  have "md5_signature my_md5 key = rfc_md5 key"
    using MD5_Final_repr [OF MD5_Update_repr [OF MD5_Init_repr [OF assms(1)] assms(2)]]
    by (simp add: md5_signature_def)
  then have "hash_md5 my_md5 key =
      le32 (ucast a) (ucast (drop_bit 8 a)) (ucast (drop_bit 16 a)) (ucast (drop_bit 24 a))"
    by (simp add: hash_md5_def rfc_md5_def rfc_output_def r le_bytes_def le32_def and_ff ac_simps)
  then show ?thesis
    by (simp add: le_bytes_word r)
qed

theorem hash_md5_correct_witness:
  "hash_md5 \<lparr>lo = 7, hi = 9, ctx_abcd = (1, 2, 3, 4), buffer = replicate 64 0xaa\<rparr> (bytes_of ''abc'') =
   fst (foldl rfc_block rfc_init (blocks64 (rfc_pad (bytes_of ''abc''))))"
  using hash_md5_correct [of "\<lparr>lo = 7, hi = 9, ctx_abcd = (1, 2, 3, 4), buffer = replicate 64 0xaa\<rparr>"
      "bytes_of ''abc''"]
  by (simp add: bytes_of_def)

end
