(* ===== verification/NC_Dist.thy ===== *)
theory NC_Dist
  imports NC_Prelude NC_Md5
begin

unbundle bit_operations_syntax

text \<open>
  Key distribution: the structures of src/src/nc_server.h, the loop over the servers that the three
  distributions of src/src/hashkit share, and the two simple ones, nc_modula.c and nc_random.c.  An
  update rebuilds the continuum of a pool from its live servers; a dispatch maps a hash to the index
  of a server.
\<close>

section \<open>Structures of nc_server.h\<close>

text \<open>
  The field \<open>name\<close> of \<open>struct continuum\<close> is only ever printed to the log; the writes to it matter
  for the faults they can raise and are modelled as that.
\<close>

record continuum =
  c_index :: u32
  c_value :: u32

record server =
  srv_idx :: u32
  pname :: bytes
  name :: bytes
  weight :: u32
  ns_conn_q :: u32
  s_conn_q :: "nat list"
  next_retry :: int
  failure_count :: u32

datatype dist_type = DIST_KETAMA | DIST_MODULA | DIST_RANDOM

text \<open>The continuum is the allocated array: its length is the number of slots.\<close>

record server_pool =
  servers :: "server list"
  ncontinuum :: u32
  nserver_continuum :: u32
  pool_continuum :: "continuum list"
  nlive_server :: u32
  next_rebuild :: int
  pool_dist :: dist_type
  key_hash :: "bytes \<Rightarrow> u32"
  hash_tag :: bytes
  server_connections :: u32
  server_retry_timeout :: int
  server_failure_limit :: u32
  auto_eject_hosts :: bool

text \<open>
  What an update takes from its surroundings: the clock, whether the allocation succeeds, the
  contents of fresh memory, and the C library's \<open>qsort\<close>.
\<close>

record dist_env =
  now :: int
  alloc_ok :: bool
  fresh :: continuum
  stack_md5 :: MD5_CTX
  qsort :: "continuum list \<Rightarrow> continuum list"

section \<open>The loop over the servers\<close>

definition scan_server ::
  "bool \<Rightarrow> int \<Rightarrow> server \<Rightarrow> u32 \<times> u32 \<times> int \<Rightarrow> server \<times> u32 \<times> u32 \<times> int" where
  "scan_server auto t s acc =
     (let (nlive, total_weight, rebuild) = acc;
          (s, nlive, rebuild) =
            (if auto then
               if next_retry s \<le> t then (s\<lparr>next_retry := 0\<rparr>, nlive + 1, rebuild)
               else if rebuild = 0 \<or> next_retry s < rebuild then (s, nlive, next_retry s)
               else (s, nlive, rebuild)
             else (s, nlive + 1, rebuild));
          total_weight = (if \<not> auto \<or> next_retry s \<le> t then total_weight + weight s else total_weight)
      in (s, nlive, total_weight, rebuild))"

fun scan_servers ::
  "bool \<Rightarrow> int \<Rightarrow> server list \<Rightarrow> u32 \<times> u32 \<times> int \<Rightarrow> server list \<times> u32 \<times> u32 \<times> int" where
  "scan_servers auto t [] acc = ([], acc)"
| "scan_servers auto t (s # ss) acc =
     (let (s, acc) = scan_server auto t s acc; (ss, acc) = scan_servers auto t ss acc
      in (s # ss, acc))"

definition realloc_continuum :: "continuum \<Rightarrow> nat \<Rightarrow> continuum list \<Rightarrow> continuum list" where
  "realloc_continuum x n cont = take n cont @ replicate (n - length cont) x"

text \<open>The writes \<open>pool->continuum[continuum_index++] = ...\<close> of a rebuild, in order.\<close>

fun write_points :: "continuum list \<Rightarrow> u32 \<Rightarrow> continuum list \<Rightarrow> fault + continuum list" where
  "write_points cont ci [] = Inr cont"
| "write_points cont ci (p # ps) =
     (if unat ci < length cont then write_points (cont[unat ci := p]) (ci + 1) ps else Inl OutOfBounds)"

section \<open>nc_modula.c\<close>

definition MODULA_CONTINUUM_ADDITION :: u32 where "MODULA_CONTINUUM_ADDITION = 10"
definition MODULA_POINTS_PER_SERVER :: u32 where "MODULA_POINTS_PER_SERVER = 1"

fun modula_build :: "int \<Rightarrow> bool \<Rightarrow> u32 \<Rightarrow> server list \<Rightarrow> continuum list" where
  "modula_build t auto server_index [] = []"
| "modula_build t auto server_index (s # ss) =
     (if auto \<and> next_retry s > t then modula_build t auto (server_index + 1) ss
      else replicate (unat (weight s)) \<lparr>c_index = server_index, c_value = 0\<rparr> @
        modula_build t auto (server_index + 1) ss)"

definition modula_update :: "dist_env \<Rightarrow> server_pool \<Rightarrow> fault + rstatus \<times> server_pool" where
  "modula_update env pool =
     (if now env < 0 then Inr (NC_ERROR, pool)
      else
        let (ss, nlive, total_weight, rebuild) =
              scan_servers (auto_eject_hosts pool) (now env) (servers pool) (0, 0, 0);
            pool = pool\<lparr>servers := ss, next_rebuild := rebuild, nlive_server := nlive\<rparr>
        in
        if nlive = 0 then Inr (NC_OK, pool)
        else if nserver_continuum pool < total_weight \<and> \<not> alloc_ok env then Inr (NC_ENOMEM, pool)
        else
          let pool =
                (if nserver_continuum pool < total_weight
                 then let n = total_weight + MODULA_CONTINUUM_ADDITION in
                   pool\<lparr>pool_continuum := realloc_continuum (fresh env)
                           (unat (n * MODULA_POINTS_PER_SERVER)) (pool_continuum pool),
                        nserver_continuum := n\<rparr>
                 else pool);
              points = modula_build (now env) (auto_eject_hosts pool) 0 ss
          in
          bind_fault (write_points (pool_continuum pool) 0 points) (\<lambda>cont.
          Inr (NC_OK, pool\<lparr>ncontinuum := word_of_nat (length points), pool_continuum := cont\<rparr>)))"

definition modula_dispatch :: "continuum list \<Rightarrow> u32 \<Rightarrow> u32 \<Rightarrow> fault + u32" where
  "modula_dispatch cont n hash =
     (if n = 0 then Inl DivByZero
      else if unat (hash mod n) < length cont then Inr (c_index (cont ! unat (hash mod n)))
      else Inl OutOfBounds)"

section \<open>nc_random.c\<close>

definition RANDOM_CONTINUUM_ADDITION :: u32 where "RANDOM_CONTINUUM_ADDITION = 10"
definition RANDOM_POINTS_PER_SERVER :: u32 where "RANDOM_POINTS_PER_SERVER = 1"

fun random_build :: "int \<Rightarrow> bool \<Rightarrow> u32 \<Rightarrow> server list \<Rightarrow> continuum list" where
  "random_build t auto server_index [] = []"
| "random_build t auto server_index (s # ss) =
     (if auto \<and> next_retry s > t then random_build t auto (server_index + 1) ss
      else \<lparr>c_index = server_index, c_value = 0\<rparr> # random_build t auto (server_index + 1) ss)"

text \<open>The random number generator is seeded when the continuum grows; its state is not modelled.\<close>

definition random_update :: "dist_env \<Rightarrow> server_pool \<Rightarrow> fault + rstatus \<times> server_pool" where
  "random_update env pool =
     (if now env < 0 then Inr (NC_ERROR, pool)
      else
        let (ss, nlive, _, rebuild) =
              scan_servers (auto_eject_hosts pool) (now env) (servers pool) (0, 0, 0);
            pool = pool\<lparr>servers := ss, next_rebuild := rebuild, nlive_server := nlive\<rparr>
        in
        if nlive = 0 then Inr (NC_OK, pool)
        else if nserver_continuum pool < nlive \<and> \<not> alloc_ok env then Inr (NC_ENOMEM, pool)
        else
          let pool =
                (if nserver_continuum pool < nlive
                 then let n = nlive + RANDOM_CONTINUUM_ADDITION in
                   pool\<lparr>pool_continuum := realloc_continuum (fresh env)
                           (unat (n * RANDOM_POINTS_PER_SERVER)) (pool_continuum pool),
                        nserver_continuum := n\<rparr>
                 else pool);
              points = random_build (now env) (auto_eject_hosts pool) 0 ss
          in
          bind_fault (write_points (pool_continuum pool) 0 points) (\<lambda>cont.
          Inr (NC_OK, pool\<lparr>ncontinuum := word_of_nat (length points), pool_continuum := cont\<rparr>)))"

text \<open>\<open>r\<close> is the value that \<open>random()\<close> returns, a \<open>long\<close> between 0 and \<open>RAND_MAX\<close>.\<close>

definition random_dispatch :: "nat \<Rightarrow> continuum list \<Rightarrow> u32 \<Rightarrow> u32 \<Rightarrow> fault + u32" where
  "random_dispatch r cont n hash =
     (if n = 0 then Inl DivByZero
      else if r mod unat n < length cont then Inr (c_index (cont ! (r mod unat n)))
      else Inl OutOfBounds)"

section \<open>What the loop over the servers computes\<close>

definition live :: "bool \<Rightarrow> int \<Rightarrow> server \<Rightarrow> bool" where
  "live auto t s \<longleftrightarrow> \<not> auto \<or> next_retry s \<le> t"

definition refresh :: "bool \<Rightarrow> int \<Rightarrow> server \<Rightarrow> server" where
  "refresh auto t s = (if auto \<and> next_retry s \<le> t then s\<lparr>next_retry := 0\<rparr> else s)"

definition live_weight :: "bool \<Rightarrow> int \<Rightarrow> server list \<Rightarrow> nat" where
  "live_weight auto t ss = (\<Sum>s\<leftarrow>filter (live auto t) ss. unat (weight s))"

definition live_count :: "bool \<Rightarrow> int \<Rightarrow> server list \<Rightarrow> nat" where
  "live_count auto t ss = length (filter (live auto t) ss)"

text \<open>The next rebuild: the earliest retry time of an ejected server, or 0 when there is none.\<close>

definition earliest :: "int \<Rightarrow> int list \<Rightarrow> int" where
  "earliest r ts = foldl (\<lambda>r x. if r = 0 \<or> x < r then x else r) r ts"

lemma refresh_simps [simp]:
  "weight (refresh auto t s) = weight s" "name (refresh auto t s) = name s"
  "pname (refresh auto t s) = pname s"
  by (simp_all add: refresh_def)

lemma live_refresh [simp]: "0 \<le> t \<Longrightarrow> live auto t (refresh auto t s) = live auto t s"
  by (simp add: refresh_def live_def)

lemma scan_servers_eq:
  assumes "0 \<le> t"
  shows "scan_servers auto t ss (n, w, r) =
    (map (refresh auto t) ss, n + word_of_nat (live_count auto t ss),
     w + word_of_nat (live_weight auto t ss), earliest r (map next_retry (filter (\<lambda>s. \<not> live auto t s) ss)))"
proof (induction ss arbitrary: n w r)
  case Nil
  show ?case by (simp add: live_count_def live_weight_def earliest_def)
next
  case (Cons s ss)
  note defs = scan_server_def refresh_def live_def live_count_def live_weight_def earliest_def Let_def
  consider (on) "auto" "next_retry s \<le> t" | (off) "auto" "\<not> next_retry s \<le> t" | (all) "\<not> auto"
    by blast
  then show ?case
  proof cases
    case on
    then have "scan_server auto t s (n, w, r) = (refresh auto t s, n + 1, w + weight s, r)"
      using assms by (simp add: defs)
    moreover from on have "live auto t s" by (simp add: live_def)
    ultimately show ?thesis
      by (simp add: Cons.IH live_count_def live_weight_def add.assoc)
  next
    case off
    then have "scan_server auto t s (n, w, r) =
        (refresh auto t s, n, w, if r = 0 \<or> next_retry s < r then next_retry s else r)"
      by (simp add: defs)
    moreover from off have "\<not> live auto t s" by (simp add: live_def)
    ultimately show ?thesis
      by (simp add: Cons.IH live_count_def live_weight_def earliest_def)
  next
    case all
    then have "scan_server auto t s (n, w, r) = (refresh auto t s, n + 1, w + weight s, r)"
      by (simp add: defs)
    moreover from all have "live auto t s" by (simp add: live_def)
    ultimately show ?thesis
      by (simp add: Cons.IH live_count_def live_weight_def add.assoc)
  qed
qed

lemma earliest_0:
  assumes "\<forall>x \<in> set ts. 0 < x"
  shows "earliest 0 ts = (if ts = [] then 0 else Min (set ts))"
proof -
  have pos: "0 < r \<Longrightarrow> earliest r ts = Min (insert r (set ts))" if "\<forall>x \<in> set ts. 0 < x" for r ts
    using that
  proof (induction ts arbitrary: r)
    case (Cons t ts)
    then show ?case
      by (cases "ts = []") (auto simp: earliest_def min_def Min_insert2)
  qed (simp add: earliest_def)
  show ?thesis
  proof (cases ts)
    case (Cons t ts')
    then show ?thesis using assms pos [of ts' t] by (simp add: earliest_def)
  qed (simp add: earliest_def)
qed

lemma unat_add_1: "unat (ci :: u32) + 1 < 2 ^ 32 \<Longrightarrow> unat (ci + 1) = unat ci + 1"
  by (simp add: unat_word_ariths)

lemma write_points_ok:
  assumes "unat ci + length ps \<le> length cont" "length cont < 2 ^ 32"
  shows "write_points cont ci ps = Inr (take (unat ci) cont @ ps @ drop (unat ci + length ps) cont)"
  using assms
proof (induction ps arbitrary: cont ci)
  case (Cons p ps)
  have ci: "unat (ci + 1) = Suc (unat ci)"
    using Cons.prems by (subst unat_add_1) auto
  have "write_points cont ci (p # ps) = write_points (cont[unat ci := p]) (ci + 1) ps"
    using Cons.prems by simp
  also have "\<dots> = Inr (take (Suc (unat ci)) (cont[unat ci := p]) @ ps @ drop (Suc (unat ci) + length ps) (cont[unat ci := p]))"
    using Cons.prems by (subst Cons.IH) (simp_all add: ci)
  finally show ?case
    using Cons.prems by (simp add: take_Suc_conv_app_nth drop_update_cancel)
qed simp

section \<open>Modula\<close>

lemma length_modula_build: "length (modula_build t auto i ss) = live_weight auto t ss"
  by (induction ss arbitrary: i) (auto simp: live_weight_def live_def)

lemma in_modula_build:
  "p \<in> set (modula_build t auto i ss) \<longleftrightarrow>
    (\<exists>j < length ss. live auto t (ss ! j) \<and> 0 < weight (ss ! j) \<and> p = \<lparr>c_index = i + word_of_nat j, c_value = 0\<rparr>)"
proof (induction ss arbitrary: i)
  case (Cons s ss)
  have "p \<in> set (modula_build t auto i (s # ss)) \<longleftrightarrow>
      (live auto t s \<and> 0 < weight s \<and> p = \<lparr>c_index = i, c_value = 0\<rparr>) \<or> p \<in> set (modula_build t auto (i + 1) ss)"
    by (auto simp: live_def word_gt_0 unat_gt_0)
  then show ?case
    by (simp add: Cons.IH Ex_less_Suc2 add.assoc del: modula_build.simps random_build.simps)
qed simp

lemma in_random_build:
  "p \<in> set (random_build t auto i ss) \<longleftrightarrow>
    (\<exists>j < length ss. live auto t (ss ! j) \<and> p = \<lparr>c_index = i + word_of_nat j, c_value = 0\<rparr>)"
proof (induction ss arbitrary: i)
  case (Cons s ss)
  have "p \<in> set (random_build t auto i (s # ss)) \<longleftrightarrow>
      (live auto t s \<and> p = \<lparr>c_index = i, c_value = 0\<rparr>) \<or> p \<in> set (random_build t auto (i + 1) ss)"
    by (auto simp: live_def)
  then show ?case
    by (simp add: Cons.IH Ex_less_Suc2 add.assoc del: modula_build.simps random_build.simps)
qed simp

lemma length_random_build: "length (random_build t auto i ss) = live_count auto t ss"
  by (induction ss arbitrary: i) (auto simp: live_count_def live_def)

lemma count_modula_build:
  assumes "length ss \<le> 2 ^ 32" "j < 2 ^ 32"
  shows "length (filter (\<lambda>p. c_index p = i + word_of_nat j) (modula_build t auto i ss)) =
    (if j < length ss \<and> live auto t (ss ! j) then unat (weight (ss ! j)) else 0)"
  using assms
proof (induction ss arbitrary: i j)
  case (Cons s ss)
  have head: "length (filter P (modula_build t auto i (s # ss))) =
      (if live auto t s \<and> P \<lparr>c_index = i, c_value = 0\<rparr> then unat (weight s) else 0) +
      length (filter P (modula_build t auto (i + 1) ss))" for P
    by (auto simp: live_def filter_replicate)
  show ?case
  proof (cases j)
    case 0
    have "(i + 1) + word_of_nat (2 ^ 32 - 1) = i"
      by (simp add: add.assoc)
    with Cons.IH [of "2 ^ 32 - 1" "i + 1"] Cons.prems
    have "length (filter (\<lambda>p. c_index p = i) (modula_build t auto (i + 1) ss)) = 0"
      by (simp only:) simp
    then show ?thesis
      using 0 by (simp add: head del: modula_build.simps)
  next
    case (Suc k)
    then have "(word_of_nat j :: u32) \<noteq> 0"
      using Cons.prems by (simp add: word_of_nat_eq_0_iff del: of_nat_Suc) (auto dest: dvd_imp_le)
    then have "i \<noteq> i + word_of_nat j" by simp
    then show ?thesis
      using Cons.IH [of k "i + 1"] Cons.prems Suc by (simp add: head add.assoc del: modula_build.simps)
  qed
qed simp

text \<open>The slots of a continuum that holds \<open>per\<close> points for each of \<open>nserver_continuum\<close> servers.\<close>

definition continuum_slots :: "nat \<Rightarrow> server_pool \<Rightarrow> bool" where
  "continuum_slots per pool \<longleftrightarrow> length (pool_continuum pool) = per * unat (nserver_continuum pool)"

lemma length_realloc_continuum [simp]: "length (realloc_continuum x n cont) = n"
  by (simp add: realloc_continuum_def)

lemma live_weight_refresh [simp]:
  "0 \<le> t \<Longrightarrow> live_weight auto t (map (refresh auto t) ss) = live_weight auto t ss"
  "0 \<le> t \<Longrightarrow> live_count auto t (map (refresh auto t) ss) = live_count auto t ss"
  by (induction ss) (simp_all add: live_weight_def live_count_def)

text \<open>The pool after the loop over the servers, and after the allocation that follows it.\<close>

definition scanned :: "dist_env \<Rightarrow> server_pool \<Rightarrow> server_pool" where
  "scanned env pool =
     (let auto = auto_eject_hosts pool; t = now env; ss = servers pool in
      pool\<lparr>servers := map (refresh auto t) ss,
           next_rebuild := earliest 0 (map next_retry (filter (\<lambda>s. \<not> live auto t s) ss)),
           nlive_server := word_of_nat (live_count auto t ss)\<rparr>)"

definition grown :: "dist_env \<Rightarrow> u32 \<Rightarrow> u32 \<Rightarrow> server_pool \<Rightarrow> server_pool" where
  "grown env per need pool =
     (if nserver_continuum pool < need
      then pool\<lparr>pool_continuum := realloc_continuum (fresh env) (unat ((need + 10) * per)) (pool_continuum pool),
                nserver_continuum := need + 10\<rparr>
      else pool)"

lemma scanned_simps [simp]:
  "pool_continuum (scanned env pool) = pool_continuum pool"
  "nserver_continuum (scanned env pool) = nserver_continuum pool"
  "auto_eject_hosts (scanned env pool) = auto_eject_hosts pool"
  "servers (scanned env pool) = map (refresh (auto_eject_hosts pool) (now env)) (servers pool)"
  "continuum_slots per (scanned env pool) = continuum_slots per pool"
  by (simp_all add: scanned_def Let_def continuum_slots_def)

lemma grown_simps [simp]:
  "auto_eject_hosts (grown env per need pool) = auto_eject_hosts pool"
  "servers (grown env per need pool) = servers pool"
  "next_rebuild (grown env per need pool) = next_rebuild pool"
  "nlive_server (grown env per need pool) = nlive_server pool"
  by (simp_all add: grown_def)

lemma scan_servers_pool:
  assumes "0 \<le> now env"
  shows "scan_servers (auto_eject_hosts pool) (now env) (servers pool) (0, 0, 0) =
    (servers (scanned env pool), nlive_server (scanned env pool),
     word_of_nat (live_weight (auto_eject_hosts pool) (now env) (servers pool)), next_rebuild (scanned env pool))"
  using assms by (simp add: scan_servers_eq scanned_def Let_def)

lemma scanned_fold:
  "pool\<lparr>servers := servers (scanned env pool), next_rebuild := next_rebuild (scanned env pool),
    nlive_server := nlive_server (scanned env pool)\<rparr> = scanned env pool"
  by (simp add: scanned_def Let_def)

lemma nlive_nonzero:
  assumes "live_count (auto_eject_hosts pool) (now env) (servers pool) \<noteq> 0" "length (servers pool) < 2 ^ 32"
  shows "nlive_server (scanned env pool) \<noteq> 0"
proof -
  have "live_count (auto_eject_hosts pool) (now env) (servers pool) \<le> length (servers pool)"
    by (simp add: live_count_def)
  with assms have "unat (nlive_server (scanned env pool)) \<noteq> 0"
    by (simp add: scanned_def Let_def unat_of_nat_u32)
  then show ?thesis by auto
qed

lemma grown_slots:
  assumes "continuum_slots per pool" "need + 10 < 2 ^ 32" "(need + 10) * per < 2 ^ 32"
  shows "continuum_slots per (grown env (word_of_nat per) (word_of_nat need) pool)"
    "per * need \<le> length (pool_continuum (grown env (word_of_nat per) (word_of_nat need) pool))"
proof -
  have need: "unat (word_of_nat need :: u32) = need" "unat (word_of_nat need + 10 :: u32) = need + 10"
    using assms(2) unat_of_nat_u32 [of need] unat_of_nat_u32 [of "need + 10"] by simp_all
  have all: "unat ((word_of_nat need + 10) * word_of_nat per :: u32) = (need + 10) * per"
    using assms(3) unat_of_nat_u32 [of "(need + 10) * per"] by simp
  show "continuum_slots per (grown env (word_of_nat per) (word_of_nat need) pool)"
    "per * need \<le> length (pool_continuum (grown env (word_of_nat per) (word_of_nat need) pool))"
    using assms need all
    by (auto simp: grown_def continuum_slots_def word_less_nat_alt)
qed

lemma modula_update_ok:
  assumes "0 \<le> now env" "alloc_ok env" "continuum_slots 1 pool"
    "live_count (auto_eject_hosts pool) (now env) (servers pool) \<noteq> 0" "length (servers pool) < 2 ^ 32"
    "live_weight (auto_eject_hosts pool) (now env) (servers pool) < 2 ^ 32 - 10"
  obtains pool' rest where "modula_update env pool = Inr (NC_OK, pool')" "continuum_slots 1 pool'"
    "servers pool' = map (refresh (auto_eject_hosts pool) (now env)) (servers pool)"
    "pool_continuum pool' = modula_build (now env) (auto_eject_hosts pool) 0 (servers pool') @ rest"
    "unat (ncontinuum pool') = live_weight (auto_eject_hosts pool) (now env) (servers pool)"
proof -
  define W where "W = live_weight (auto_eject_hosts pool) (now env) (servers pool)"
  define pool2 where "pool2 = grown env 1 (word_of_nat W) (scanned env pool)"
  define points where "points = modula_build (now env) (auto_eject_hosts pool) 0 (servers pool2)"
  have len: "length points = W"
    using assms(1) by (simp add: points_def pool2_def length_modula_build W_def)
  have n0: "nlive_server (scanned env pool) \<noteq> 0"
    using assms(4,5) by (rule nlive_nonzero)
  have upd: "modula_update env pool =
    bind_fault (write_points (pool_continuum pool2) 0 points) (\<lambda>cont.
    Inr (NC_OK, pool2\<lparr>ncontinuum := word_of_nat (length points), pool_continuum := cont\<rparr>))"
    unfolding modula_update_def scan_servers_pool [OF assms(1)] Let_def prod.case scanned_fold
    using assms(1,2) n0
    by (simp add: pool2_def grown_def points_def MODULA_CONTINUUM_ADDITION_def MODULA_POINTS_PER_SERVER_def
        flip: W_def)
  have slots: "continuum_slots 1 pool2" "W \<le> length (pool_continuum pool2)"
    using grown_slots [of 1 "scanned env pool" W env] assms(3,6) by (simp_all add: pool2_def W_def)
  then have bound: "length (pool_continuum pool2) < 2 ^ 32"
    using unsigned_less [of "nserver_continuum pool2"] by (simp add: continuum_slots_def)
  have "modula_update env pool = Inr (NC_OK, pool2\<lparr>ncontinuum := word_of_nat W,
      pool_continuum := points @ drop W (pool_continuum pool2)\<rparr>)"
    using slots bound len by (simp add: upd write_points_ok)
  then show thesis
    by (rule that) (use slots assms(6) len in \<open>simp_all add: continuum_slots_def points_def pool2_def unat_of_nat_u32 flip: W_def\<close>)
qed

lemma modula_rebuild:
  assumes "0 \<le> now env" "alloc_ok env" "continuum_slots 1 pool"
    "live_count (auto_eject_hosts pool) (now env) (servers pool) \<noteq> 0" "length (servers pool) < 2 ^ 32"
    "live_weight (auto_eject_hosts pool) (now env) (servers pool) < 2 ^ 32 - 10"
    "\<forall>s \<in> set (servers pool). 0 < weight s"
  shows "\<exists>pool'. modula_update env pool = Inr (NC_OK, pool') \<and> continuum_slots 1 pool' \<and>
    (\<forall>j < length (servers pool).
       length (filter (\<lambda>c. c_index c = word_of_nat j) (take (unat (ncontinuum pool')) (pool_continuum pool'))) =
       (if live (auto_eject_hosts pool) (now env) (servers pool ! j) then unat (weight (servers pool ! j)) else 0)) \<and>
    (\<forall>hash. \<exists>j < length (servers pool). live (auto_eject_hosts pool) (now env) (servers pool ! j) \<and>
       modula_dispatch (pool_continuum pool') (ncontinuum pool') hash = Inr (word_of_nat j))"
proof -
  define a t ss where defs: "a = auto_eject_hosts pool" "t = now env" "ss = servers pool"
  obtain pool' rest where upd: "modula_update env pool = Inr (NC_OK, pool')" "continuum_slots 1 pool'"
    and cont: "pool_continuum pool' = modula_build t a 0 (map (refresh a t) ss) @ rest"
    and n: "unat (ncontinuum pool') = live_weight a t ss"
    using modula_update_ok [OF assms(1-6)] unfolding defs by metis
  define points where "points = modula_build t a 0 (map (refresh a t) ss)"
  have t: "0 \<le> t" using assms(1) by (simp add: defs)
  then have len: "length points = live_weight a t ss"
    by (simp add: points_def length_modula_build)
  have weights: "\<forall>s \<in> set ss. 0 < weight s" "length ss < 2 ^ 32"
    using assms(5,7) by (simp_all add: defs)
  have share: "length (filter (\<lambda>c. c_index c = word_of_nat j) points) =
      (if live a t (ss ! j) then unat (weight (ss ! j)) else 0)" if "j < length ss" for j
    using count_modula_build [of "map (refresh a t) ss" j 0 t a] that weights(2) t by (simp add: points_def)
  have "live_weight a t ss \<noteq> 0"
    using assms(4) weights(1) by (auto simp: live_weight_def live_count_def defs filter_empty_conv word_gt_0 unat_eq_zero)
  then have pos: "0 < length points" "ncontinuum pool' \<noteq> 0"
    using n len by auto
  have dispatch: "\<exists>j < length ss. live a t (ss ! j) \<and>
      modula_dispatch (pool_continuum pool') (ncontinuum pool') hash = Inr (word_of_nat j)" for hash
  proof -
    define k where "k = unat (hash mod ncontinuum pool')"
    have "k < length points"
      using pos n len by (simp add: k_def unat_mod)
    then have "points ! k \<in> set points" by simp
    then obtain j where "j < length ss" "live a t (ss ! j)" "c_index (points ! k) = word_of_nat j"
      using t unfolding points_def in_modula_build by auto
    moreover have "modula_dispatch (pool_continuum pool') (ncontinuum pool') hash = Inr (c_index (points ! k))"
      using \<open>k < length points\<close> pos by (simp add: modula_dispatch_def cont nth_append flip: k_def points_def)
    ultimately show ?thesis by auto
  qed
  have "take (unat (ncontinuum pool')) (pool_continuum pool') = points"
    by (simp add: cont n len flip: points_def)
  with upd share dispatch show ?thesis
    by (intro exI [of _ pool']) (simp flip: defs)
qed

text \<open>
  C23: after a successful \<open>modula_update\<close> every server owns as many slots as its weight when it is
  live and none when it is ejected, and \<open>modula_dispatch\<close> maps every hash to a live server.
\<close>

theorem modula_dispatch_live:
  assumes "0 \<le> now env" "alloc_ok env" "continuum_slots 1 pool"
    "live_count (auto_eject_hosts pool) (now env) (servers pool) \<noteq> 0" "length (servers pool) < 2 ^ 32"
    "live_weight (auto_eject_hosts pool) (now env) (servers pool) < 2 ^ 32 - 10"
    "\<forall>s \<in> set (servers pool). 0 < weight s"
  shows "\<exists>pool'. modula_update env pool = Inr (NC_OK, pool') \<and> continuum_slots 1 pool' \<and>
    (\<forall>j < length (servers pool).
       length (filter (\<lambda>c. c_index c = word_of_nat j) (take (unat (ncontinuum pool')) (pool_continuum pool'))) =
       (if live (auto_eject_hosts pool) (now env) (servers pool ! j) then unat (weight (servers pool ! j)) else 0)) \<and>
    (\<forall>hash. \<exists>j < length (servers pool). live (auto_eject_hosts pool) (now env) (servers pool ! j) \<and>
       modula_dispatch (pool_continuum pool') (ncontinuum pool') hash = Inr (word_of_nat j))"
  using assms by (rule modula_rebuild)

text \<open>A pool of three servers, the second ejected until time 500, seen at time 100.\<close>

definition demo_server :: "u32 \<Rightarrow> int \<Rightarrow> server" where
  "demo_server w retry =
     \<lparr>srv_idx = 0, pname = bytes_of ''127.0.0.1:11211:1'', name = bytes_of ''127.0.0.1:11211'', weight = w,
      ns_conn_q = 0, s_conn_q = [], next_retry = retry, failure_count = 0\<rparr>"

definition demo_pool :: "dist_type \<Rightarrow> server_pool" where
  "demo_pool d =
     \<lparr>servers = [demo_server 1 0, demo_server 1 500, demo_server 3 50], ncontinuum = 0,
      nserver_continuum = 0, pool_continuum = [], nlive_server = 0, next_rebuild = 0, pool_dist = d,
      key_hash = (\<lambda>k. word_of_nat (length k)), hash_tag = [], server_connections = 1,
      server_retry_timeout = 30000000, server_failure_limit = 2, auto_eject_hosts = True\<rparr>"

definition demo_env :: dist_env where
  "demo_env =
     \<lparr>now = 100, alloc_ok = True, fresh = \<lparr>c_index = 0, c_value = 0\<rparr>,
      stack_md5 = \<lparr>lo = 0, hi = 0, ctx_abcd = (0, 0, 0, 0), buffer = replicate 64 0\<rparr>,
      qsort = sort_key c_value\<rparr>"

lemmas demo_defs = demo_pool_def demo_env_def demo_server_def live_def live_count_def live_weight_def

lemma demo_facts:
  "0 \<le> now demo_env" "alloc_ok demo_env" "continuum_slots 1 (demo_pool d)"
  "live_count (auto_eject_hosts (demo_pool d)) (now demo_env) (servers (demo_pool d)) \<noteq> 0"
  "length (servers (demo_pool d)) = 3"
  "live_count (auto_eject_hosts (demo_pool d)) (now demo_env) (servers (demo_pool d)) = 2"
  "live_weight (auto_eject_hosts (demo_pool d)) (now demo_env) (servers (demo_pool d)) = 4"
  "\<forall>s \<in> set (servers (demo_pool d)). 0 < weight s"
  by (simp_all add: demo_defs continuum_slots_def)

theorem modula_dispatch_live_witness:
  "\<exists>pool'. modula_update demo_env (demo_pool DIST_MODULA) = Inr (NC_OK, pool') \<and>
    (\<forall>hash. \<exists>j < 3. live (auto_eject_hosts (demo_pool DIST_MODULA)) (now demo_env)
         (servers (demo_pool DIST_MODULA) ! j) \<and>
       modula_dispatch (pool_continuum pool') (ncontinuum pool') hash = Inr (word_of_nat j))"
  using modula_dispatch_live [OF demo_facts(1,2,3,4) _ _ demo_facts(8), of DIST_MODULA]
  unfolding demo_facts(5,7) by (simp, blast)

section \<open>Random\<close>

lemma random_update_ok:
  assumes "0 \<le> now env" "alloc_ok env" "continuum_slots 1 pool"
    "live_count (auto_eject_hosts pool) (now env) (servers pool) \<noteq> 0" "length (servers pool) < 2 ^ 32 - 10"
  obtains pool' rest where "random_update env pool = Inr (NC_OK, pool')" "continuum_slots 1 pool'"
    "pool_continuum pool' = random_build (now env) (auto_eject_hosts pool) 0
       (map (refresh (auto_eject_hosts pool) (now env)) (servers pool)) @ rest"
    "unat (ncontinuum pool') = live_count (auto_eject_hosts pool) (now env) (servers pool)"
proof -
  define n where "n = live_count (auto_eject_hosts pool) (now env) (servers pool)"
  define pool2 where "pool2 = grown env 1 (word_of_nat n) (scanned env pool)"
  define points where "points = random_build (now env) (auto_eject_hosts pool) 0 (servers pool2)"
  have len: "length points = n"
    using assms(1) by (simp add: points_def pool2_def length_random_build n_def)
  have n: "n < 2 ^ 32 - 10"
    using assms(5) by (simp add: n_def live_count_def) (meson length_filter_le le_less_trans)
  have n0: "nlive_server (scanned env pool) \<noteq> 0"
    using assms(4,5) by (intro nlive_nonzero) auto
  have upd: "random_update env pool =
    bind_fault (write_points (pool_continuum pool2) 0 points) (\<lambda>cont.
    Inr (NC_OK, pool2\<lparr>ncontinuum := word_of_nat (length points), pool_continuum := cont\<rparr>))"
    unfolding random_update_def scan_servers_pool [OF assms(1)] Let_def prod.case scanned_fold
    using assms(1,2) n0
    by (simp add: pool2_def grown_def points_def RANDOM_CONTINUUM_ADDITION_def RANDOM_POINTS_PER_SERVER_def)
      (simp add: scanned_def Let_def flip: n_def)
  have slots: "continuum_slots 1 pool2" "n \<le> length (pool_continuum pool2)"
    using grown_slots [of 1 "scanned env pool" n env] assms(3) n by (simp_all add: pool2_def)
  then have bound: "length (pool_continuum pool2) < 2 ^ 32"
    using unsigned_less [of "nserver_continuum pool2"] by (simp add: continuum_slots_def)
  have "random_update env pool = Inr (NC_OK, pool2\<lparr>ncontinuum := word_of_nat n,
      pool_continuum := points @ drop n (pool_continuum pool2)\<rparr>)"
    using slots bound len by (simp add: upd write_points_ok)
  then show thesis
    by (rule that) (use slots n len in \<open>simp_all add: continuum_slots_def points_def pool2_def unat_of_nat_u32 flip: n_def\<close>)
qed

lemma random_rebuild:
  assumes "0 \<le> now env" "alloc_ok env" "continuum_slots 1 pool"
    "live_count (auto_eject_hosts pool) (now env) (servers pool) \<noteq> 0" "length (servers pool) < 2 ^ 32 - 10"
  shows "\<exists>pool'. random_update env pool = Inr (NC_OK, pool') \<and> continuum_slots 1 pool' \<and>
    unat (ncontinuum pool') = live_count (auto_eject_hosts pool) (now env) (servers pool) \<and>
    (\<forall>r hash. \<exists>j < length (servers pool). live (auto_eject_hosts pool) (now env) (servers pool ! j) \<and>
       random_dispatch r (pool_continuum pool') (ncontinuum pool') hash = Inr (word_of_nat j))"
proof -
  define a t ss where defs: "a = auto_eject_hosts pool" "t = now env" "ss = servers pool"
  define points where "points = random_build t a 0 (map (refresh a t) ss)"
  obtain pool' rest where upd: "random_update env pool = Inr (NC_OK, pool')" "continuum_slots 1 pool'"
    and cont: "pool_continuum pool' = points @ rest"
    and n: "unat (ncontinuum pool') = live_count a t ss"
    using random_update_ok [OF assms] unfolding defs points_def by metis
  have t: "0 \<le> t" using assms(1) by (simp add: defs)
  then have len: "length points = live_count a t ss"
    by (simp add: points_def length_random_build)
  have pos: "0 < length points" "ncontinuum pool' \<noteq> 0"
    using n len assms(4) by (auto simp: defs)
  have dispatch: "\<exists>j < length ss. live a t (ss ! j) \<and>
      random_dispatch r (pool_continuum pool') (ncontinuum pool') hash = Inr (word_of_nat j)" for r hash
  proof -
    define k where "k = r mod unat (ncontinuum pool')"
    have k: "k < length points"
      using pos n len by (simp add: k_def)
    then have "points ! k \<in> set points" by simp
    then obtain j where "j < length ss" "live a t (ss ! j)" "c_index (points ! k) = word_of_nat j"
      using t unfolding points_def in_random_build by auto
    moreover have "random_dispatch r (pool_continuum pool') (ncontinuum pool') hash = Inr (c_index (points ! k))"
      using k pos by (simp add: random_dispatch_def cont nth_append flip: k_def)
    ultimately show ?thesis by auto
  qed
  with upd n show ?thesis
    by (intro exI [of _ pool']) (simp flip: defs)
qed



end
