(* ===== verification/NC_Float.thy ===== *)
theory NC_Float
  imports Complex_Main
begin

text \<open>
  The part of C floating point that \<open>ketama_update\<close> of src/src/hashkit/nc_ketama.c computes with.
  On the target, \<open>float\<close> and \<open>double\<close> are IEEE formats of 24 and 53 bits, every operation is the
  exact one followed by a rounding to the nearest value (ties to even), and the values that occur
  here (between \<open>2 powi - 32\<close> and \<open>2 powi 64\<close>, or zero) are far from the limits of the exponent.
  So a float is a rational, and an operation is \<open>round_to p\<close> after the rational operation.
\<close>

section \<open>Definitions\<close>

fun bitlen :: "nat \<Rightarrow> nat" where
  "bitlen n = (if n = 0 then 0 else Suc (bitlen (n div 2)))"

definition round_half_even :: "rat \<Rightarrow> int" where
  "round_half_even q =
     (let f = \<lfloor>q\<rfloor>; d = q - of_int f in
      if d < 1 / 2 then f else if 1 / 2 < d then f + 1 else if even f then f else f + 1)"

definition round_exp :: "nat \<Rightarrow> rat \<Rightarrow> int" where
  "round_exp p x =
     (let (n, d) = quotient_of x;
          e = int (bitlen (nat n)) - int (bitlen (nat d)) - int p
      in if x < 2 powi (e + int p) then e else e + 1)"

definition round_to :: "nat \<Rightarrow> rat \<Rightarrow> rat" where
  "round_to p x =
     (if x \<le> 0 then 0
      else let e = round_exp p x in of_int (round_half_even (x / 2 powi e)) * 2 powi e)"

abbreviation fl32 :: "rat \<Rightarrow> rat" where "fl32 \<equiv> round_to 24"
abbreviation fl64 :: "rat \<Rightarrow> rat" where "fl64 \<equiv> round_to 53"

section \<open>The rounding error\<close>

declare bitlen.simps [simp del]

lemma bitlen_bounds: "0 < n \<Longrightarrow> 2 ^ (bitlen n - 1) \<le> n \<and> n < 2 ^ bitlen n \<and> 0 < bitlen n"
proof (induction n rule: bitlen.induct)
  case (1 n)
  show ?case
  proof (cases "n div 2 = 0")
    case True
    with "1.prems" have "n = 1" by linarith
    then show ?thesis by (simp add: bitlen.simps)
  next
    case False
    with 1 have IH: "2 ^ (bitlen (n div 2) - 1) \<le> n div 2" "n div 2 < 2 ^ bitlen (n div 2)" "0 < bitlen (n div 2)"
      by auto
    have "bitlen n = Suc (bitlen (n div 2))"
      using "1.prems" by (simp add: bitlen.simps [of n])
    moreover have "2 * 2 ^ (bitlen (n div 2) - 1) = (2 ^ bitlen (n div 2) :: nat)"
      using IH(3) by (cases "bitlen (n div 2)") auto
    ultimately show ?thesis using IH by simp linarith
  qed
qed

lemma round_half_even_error: "\<bar>of_int (round_half_even q) - q\<bar> \<le> 1 / 2"
proof -
  have "of_int \<lfloor>q\<rfloor> \<le> q" "q < of_int \<lfloor>q\<rfloor> + 1" by linarith+
  then show ?thesis by (auto simp: round_half_even_def Let_def)
qed

lemma round_exp_bound:
  assumes "0 < x"
  shows "2 powi (round_exp p x + int p - 1) \<le> x"
proof -
  obtain n d where nd: "quotient_of x = (n, d)" by force
  then have d: "0 < d" and x: "x = of_int n / of_int d"
    using quotient_of_denom_pos quotient_of_div by blast+
  with assms have n: "0 < n" by (simp add: zero_less_divide_iff)
  define e where "e = int (bitlen (nat n)) - int (bitlen (nat d)) - int p"
  have bl: "2 ^ (bitlen (nat n) - 1) \<le> nat n" "nat d < 2 ^ bitlen (nat d)" "0 < bitlen (nat n)"
    using bitlen_bounds [of "nat n"] bitlen_bounds [of "nat d"] n d by auto
  then have "2 ^ (bitlen (nat n) - 1) \<le> n" "d \<le> 2 ^ bitlen (nat d)"
    by (simp_all add: le_nat_iff nat_less_iff)
  then have "of_int (2 ^ (bitlen (nat n) - 1)) \<le> (of_int n :: rat)"
    "of_int d \<le> (of_int (2 ^ bitlen (nat d)) :: rat)"
    by (simp_all only: of_int_le_iff)
  then have "2 ^ (bitlen (nat n) - 1) / 2 ^ bitlen (nat d) \<le> x"
    unfolding x using n d by (intro frac_le) auto
  moreover have "e + int p - 1 = int (bitlen (nat n) - 1) - int (bitlen (nat d))"
    using bl(3) by (simp add: e_def of_nat_diff)
  then have "(2 :: rat) powi (e + int p - 1) = 2 ^ (bitlen (nat n) - 1) / 2 ^ bitlen (nat d)"
    by (simp add: power_int_diff)
  ultimately have "2 powi (e + int p - 1) \<le> x" by simp
  then show ?thesis
    using nd by (auto simp: round_exp_def e_def Let_def)
qed

lemma round_to_error:
  assumes "0 < x"
  shows "\<bar>round_to p x - x\<bar> \<le> x / 2 ^ p"
proof -
  define e where "e = round_exp p x"
  define q where "q = x / 2 powi e"
  have x: "x = q * 2 powi e" by (simp add: q_def)
  have "round_to p x - x = (of_int (round_half_even q) - q) * 2 powi e"
    using assms by (simp add: round_to_def e_def q_def Let_def algebra_simps)
  then have "\<bar>round_to p x - x\<bar> \<le> 1 / 2 * 2 powi e"
    using round_half_even_error [of q] by (simp add: abs_mult mult_right_mono)
  also have "1 / 2 * 2 powi e = (2 powi (e + int p - 1) :: rat) / 2 ^ p"
    by (simp add: power_int_add power_int_diff)
  also have "\<dots> \<le> x / 2 ^ p"
    using round_exp_bound [OF assms, of p] by (simp add: e_def divide_right_mono)
  finally show ?thesis .
qed

lemma round_to_bounds:
  assumes "0 \<le> x"
  shows "round_to p x \<le> x * (1 + 1 / 2 ^ p)" "x * (1 - 1 / 2 ^ p) \<le> round_to p x"
proof -
  have "\<bar>round_to p x - x\<bar> \<le> x / 2 ^ p"
  proof (cases "x = 0")
    case True
    then show ?thesis by (simp add: round_to_def)
  next
    case False
    with assms show ?thesis by (intro round_to_error) simp
  qed
  then have "round_to p x - x \<le> x / 2 ^ p" "x - round_to p x \<le> x / 2 ^ p"
    by linarith+
  then show "round_to p x \<le> x * (1 + 1 / 2 ^ p)" "x * (1 - 1 / 2 ^ p) \<le> round_to p x"
    by (simp_all only: distrib_left right_diff_distrib times_divide_eq_right mult_1_right)
qed

lemma round_to_nonneg:
  assumes "0 \<le> x"
  shows "0 \<le> round_to p x"
proof -
  have "0 \<le> x * (1 - 1 / 2 ^ p)"
    using assms by (intro mult_nonneg_nonneg) simp_all
  then show ?thesis using round_to_bounds(2) [OF assms, of p] by linarith
qed

lemma round_half_even_of_int [simp]: "round_half_even (of_int k) = k"
  by (simp add: round_half_even_def)

lemma round_to_int:
  assumes "0 \<le> k" "k < 2 ^ p"
  shows "round_to p (of_int k) = of_int k"
proof (cases "k = 0")
  case False
  define e where "e = round_exp p (of_int k)"
  have "(2 :: rat) powi (e + int p - 1) \<le> of_int k"
    using False assms by (auto simp: e_def intro!: round_exp_bound)
  also have "\<dots> < of_int (2 ^ p)"
    using assms by (simp only: of_int_less_iff)
  finally have "(2 :: rat) powi (e + int p - 1) < 2 powi (int p)"
    by simp
  then have "\<not> int p \<le> e + int p - 1"
    using power_int_increasing [of "int p" "e + int p - 1" "2 :: rat"] by linarith
  then have "0 \<le> - e" by linarith
  then obtain n where n: "e = - int n"
    by (metis minus_minus nonneg_int_cases)
  then have eq: "of_int k / 2 powi e = (of_int (k * 2 ^ n) :: rat)"
    by (simp add: power_int_minus divide_simps)
  have "round_to p (of_int k) = of_int (round_half_even (of_int k / 2 powi e)) * 2 powi e"
    using False assms by (simp add: round_to_def e_def Let_def)
  also have "\<dots> = of_int (k * 2 ^ n) * 2 powi e"
    by (simp only: eq round_half_even_of_int)
  also have "\<dots> = of_int k"
    by (simp add: n power_int_minus)
  finally show ?thesis .
qed (simp add: round_to_def)

end
