(* ===== verification/NC_Ketama.thy ===== *)
theory NC_Ketama
  imports NC_Dist NC_Float "HOL-Library.Multiset"
begin

unbundle bit_operations_syntax

text \<open>
  The ketama distribution of src/src/hashkit/nc_ketama.c: consistent hashing.  Every live server owns
  a number of points on a ring of 32 bit values that is proportional to its weight; a key belongs to
  the first point at or after its hash.
\<close>

section \<open>nc_ketama.c\<close>

definition KETAMA_CONTINUUM_ADDITION :: u32 where "KETAMA_CONTINUUM_ADDITION = 10"
definition KETAMA_POINTS_PER_SERVER :: u32 where "KETAMA_POINTS_PER_SERVER = 160"
definition KETAMA_MAX_HOSTLEN :: nat where "KETAMA_MAX_HOSTLEN = 86"

definition ketama_hash :: "MD5_CTX \<Rightarrow> bytes \<Rightarrow> nat \<Rightarrow> u32" where
  "ketama_hash my_md5 key alignment =
     (let results = md5_signature my_md5 key
      in ((push_bit 24 (ucast (results ! (3 + alignment * 4) AND 0xff)) OR
           push_bit 16 (ucast (results ! (2 + alignment * 4) AND 0xff))) OR
          push_bit 8 (ucast (results ! (1 + alignment * 4) AND 0xff))) OR
         ucast (results ! (0 + alignment * 4) AND 0xff))"

definition ketama_item_cmp :: "continuum \<Rightarrow> continuum \<Rightarrow> int" where
  "ketama_item_cmp ct1 ct2 =
     (if c_value ct1 = c_value ct2 then 0 else if c_value ct1 > c_value ct2 then 1 else -1)"

text \<open>
  \<open>pointer_per_server\<close>: \<open>pct\<close> and the product are computed in \<open>float\<close>, the constant is added in
  \<open>double\<close>, and the result is converted to \<open>uint32_t\<close>.
\<close>

definition ketama_pct :: "u32 \<Rightarrow> u32 \<Rightarrow> rat" where
  "ketama_pct w total_weight = fl32 (fl32 (rat_of_nat (unat w)) / fl32 (rat_of_nat (unat total_weight)))"

definition ketama_scaled :: "rat \<Rightarrow> u32 \<Rightarrow> rat" where
  "ketama_scaled pct nlive =
     fl32 (fl64 (fl32 (fl32 (fl32 (pct * 160) / 4) * fl32 (rat_of_nat (unat nlive))) + fl64 (1 / 10 ^ 10)))"

definition ketama_pointer_per_server :: "u32 \<Rightarrow> u32 \<Rightarrow> u32 \<Rightarrow> fault + u32" where
  "ketama_pointer_per_server w total_weight nlive =
     (if total_weight = 0 then Inl BadConversion
      else let r = fl32 (of_int \<lfloor>ketama_scaled (ketama_pct w total_weight) nlive\<rfloor> * 4)
        in if r < 2 ^ 32 then Inr (word_of_int \<lfloor>r\<rfloor>) else Inl BadConversion)"

text \<open>
  The key of a point: \<open>snprintf\<close> returns the length the text would have had, and
  \<open>ketama_hash\<close> reads that many bytes of the 86 byte array \<open>host\<close>.
\<close>

definition ketama_host :: "bytes \<Rightarrow> nat \<Rightarrow> fault + bytes" where
  "ketama_host nm i =
     (let text = takeWhile (\<lambda>c. c \<noteq> 0) nm @ [45] @ decimal i; hostlen = length text in
      if hostlen < KETAMA_MAX_HOSTLEN then Inr text
      else if hostlen = KETAMA_MAX_HOSTLEN then Inr (take (KETAMA_MAX_HOSTLEN - 1) text @ [0])
      else Inl OutOfBounds)"

text \<open>\<open>sprintf (continuum[..].name, server->pname.data)\<close> into an array of 100 bytes.\<close>

fun sprintf_no_args :: "bytes \<Rightarrow> fault + bytes" where
  "sprintf_no_args [] = Inr []"
| "sprintf_no_args (c # cs) =
     (if c = 0 then Inr []
      else if c = 37 then
        case cs of
          d # ds \<Rightarrow> if d = 37 then bind_fault (sprintf_no_args ds) (\<lambda>r. Inr (c # r)) else Inl BadFormat
        | [] \<Rightarrow> Inl BadFormat
      else bind_fault (sprintf_no_args cs) (\<lambda>r. Inr (c # r)))"

definition ketama_name :: "bytes \<Rightarrow> fault + unit" where
  "ketama_name p = bind_fault (sprintf_no_args p) (\<lambda>r. if length r < 100 then Inr () else Inl OutOfBounds)"

fun ketama_pointers :: "MD5_CTX \<Rightarrow> u32 \<Rightarrow> server \<Rightarrow> nat list \<Rightarrow> fault + continuum list" where
  "ketama_pointers my_md5 server_index s [] = Inr []"
| "ketama_pointers my_md5 server_index s (i # is) =
     bind_fault (ketama_host (name s) i) (\<lambda>host.
     bind_fault (ketama_name (pname s)) (\<lambda>_.
     bind_fault (ketama_pointers my_md5 server_index s is) (\<lambda>ps.
     Inr (map (\<lambda>x. \<lparr>c_index = server_index, c_value = ketama_hash my_md5 host x\<rparr>) [0..<4] @ ps))))"

fun ketama_build ::
  "dist_env \<Rightarrow> bool \<Rightarrow> u32 \<Rightarrow> u32 \<Rightarrow> u32 \<Rightarrow> server list \<Rightarrow> fault + continuum list \<times> u32" where
  "ketama_build env auto nlive total_weight server_index [] = Inr ([], 0)"
| "ketama_build env auto nlive total_weight server_index (s # ss) =
     (if auto \<and> next_retry s > now env
      then ketama_build env auto nlive total_weight (server_index + 1) ss
      else
        bind_fault (ketama_pointer_per_server (weight s) total_weight nlive) (\<lambda>pps.
        bind_fault (ketama_pointers (stack_md5 env) server_index s [0..<unat (pps div 4)]) (\<lambda>ps.
        bind_fault (ketama_build env auto nlive total_weight (server_index + 1) ss) (\<lambda>(rest, counter).
        Inr (ps @ rest, pps + counter)))))"

definition ketama_update :: "dist_env \<Rightarrow> server_pool \<Rightarrow> fault + rstatus \<times> server_pool" where
  "ketama_update env pool =
     (if now env < 0 then Inr (NC_ERROR, pool)
      else
        let (ss, nlive, total_weight, rebuild) =
              scan_servers (auto_eject_hosts pool) (now env) (servers pool) (0, 0, 0);
            pool = pool\<lparr>servers := ss, next_rebuild := rebuild, nlive_server := nlive\<rparr>
        in
        if nlive = 0 then Inr (NC_OK, pool)
        else if nserver_continuum pool < nlive \<and> \<not> alloc_ok env then Inr (NC_ENOMEM, pool)
        else
          let pool =
                (if nserver_continuum pool < nlive
                 then let n = nlive + KETAMA_CONTINUUM_ADDITION in
                   pool\<lparr>pool_continuum := realloc_continuum (fresh env)
                           (unat (n * KETAMA_POINTS_PER_SERVER)) (pool_continuum pool),
                        nserver_continuum := n\<rparr>
                 else pool)
          in
          bind_fault (ketama_build env (auto_eject_hosts pool) nlive total_weight 0 ss) (\<lambda>(points, counter).
          bind_fault (write_points (pool_continuum pool) 0 points) (\<lambda>cont.
          Inr (NC_OK, pool\<lparr>ncontinuum := counter,
            pool_continuum := qsort env (take (unat counter) cont) @ drop (unat counter) cont\<rparr>))))"

text \<open>The binary search of \<open>ketama_dispatch\<close>; the pointers are offsets from \<open>continuum\<close>.\<close>

function ketama_search :: "continuum list \<Rightarrow> u32 \<Rightarrow> nat \<Rightarrow> nat \<Rightarrow> nat" where
  "ketama_search cont hash left right =
     (if left < right
      then let middle = left + (right - left) div 2
        in if c_value (cont ! middle) < hash then ketama_search cont hash (middle + 1) right
           else ketama_search cont hash left middle
      else right)"
  by auto
termination
  by (relation "measure (\<lambda>(cont, hash, left, right). right - left)") auto

definition ketama_dispatch :: "continuum list \<Rightarrow> u32 \<Rightarrow> u32 \<Rightarrow> fault + u32" where
  "ketama_dispatch cont n hash =
     (if length cont < unat n \<or> cont = [] then Inl OutOfBounds
      else let right = ketama_search cont hash 0 (unat n);
               right = (if right = unat n then 0 else right)
        in Inr (c_index (cont ! right)))"


section \<open>The binary search\<close>

declare ketama_search.simps [simp del]

text \<open>The owner of a hash: the first point at or after it, or the first point of the ring.\<close>

definition ring_owner :: "continuum list \<Rightarrow> u32 \<Rightarrow> continuum" where
  "ring_owner ring hash =
     (case filter (\<lambda>c. hash \<le> c_value c) ring of c # _ \<Rightarrow> c | [] \<Rightarrow> hd ring)"

definition ring_sorted :: "continuum list \<Rightarrow> bool" where
  "ring_sorted ring \<longleftrightarrow> sorted (map c_value ring)"

lemma ketama_search_spec:
  assumes "ring_sorted (take n cont)" "right \<le> n" "n \<le> length cont" "left \<le> right"
    "\<forall>i < left. c_value (cont ! i) < hash" "\<forall>i. right \<le> i \<and> i < n \<longrightarrow> hash \<le> c_value (cont ! i)"
  shows "ketama_search cont hash left right \<le> n \<and>
    (\<forall>i < ketama_search cont hash left right. c_value (cont ! i) < hash) \<and>
    (\<forall>i. ketama_search cont hash left right \<le> i \<and> i < n \<longrightarrow> hash \<le> c_value (cont ! i))"
  using assms
proof (induction cont hash left right rule: ketama_search.induct)
  case (1 cont hash left right)
  have mono: "c_value (cont ! i) \<le> c_value (cont ! j)" if "i \<le> j" "j < n" for i j
    using "1.prems"(1,3) that by (auto simp: ring_sorted_def sorted_iff_nth_mono)
  show ?case
  proof (cases "left < right")
    case True
    define middle where "middle = left + (right - left) div 2"
    have m: "left \<le> middle" "middle < right" using True by (auto simp: middle_def)
    show ?thesis
    proof (cases "c_value (cont ! middle) < hash")
      case less: True
      then have step: "ketama_search cont hash left right = ketama_search cont hash (middle + 1) right"
        using True by (simp add: ketama_search.simps [of cont hash left right] middle_def Let_def)
      have below: "\<forall>i < middle + 1. c_value (cont ! i) < hash"
        using le_less_trans [OF mono less] m "1.prems"(2) by simp
      have "middle + 1 \<le> right" using m by simp
      from "1.IH"(1) [OF True middle_def less "1.prems"(1,2,3) this below "1.prems"(6)]
      show ?thesis unfolding step .
    next
      case geq: False
      then have step: "ketama_search cont hash left right = ketama_search cont hash left middle"
        using True by (simp add: ketama_search.simps [of cont hash left right] middle_def Let_def)
      have above: "\<forall>i. middle \<le> i \<and> i < n \<longrightarrow> hash \<le> c_value (cont ! i)"
        using order_trans [OF geq [unfolded not_less] mono] by blast
      have "middle \<le> n" using m "1.prems"(2) by simp
      from "1.IH"(2) [OF True middle_def geq "1.prems"(1) this "1.prems"(3) m(1) "1.prems"(5) above]
      show ?thesis unfolding step .
    qed
  next
    case False
    then have step: "ketama_search cont hash left right = right"
      by (simp add: ketama_search.simps)
    have "left = right" using False "1.prems"(4) by simp
    with "1.prems" show ?thesis unfolding step by blast
  qed
qed

lemma filter_first:
  assumes "k \<le> length xs" "\<forall>i < k. \<not> P (xs ! i)" "\<forall>i. k \<le> i \<and> i < length xs \<longrightarrow> P (xs ! i)"
  shows "filter P xs = drop k xs"
proof -
  have "filter P (take k xs) = []" "filter P (drop k xs) = drop k xs"
    using assms by (auto simp: filter_empty_conv filter_id_conv in_set_conv_nth)
  then show ?thesis by (metis append_Nil append_take_drop_id filter_append)
qed

lemma ketama_dispatch_owner:
  assumes "0 < n" "unat n \<le> length cont" "ring_sorted (take (unat n) cont)"
  shows "ketama_dispatch cont n hash = Inr (c_index (ring_owner (take (unat n) cont) hash))"
proof -
  define k where "k = ketama_search cont hash 0 (unat n)"
  have k: "k \<le> unat n" "\<forall>i < k. c_value (cont ! i) < hash" "\<forall>i. k \<le> i \<and> i < unat n \<longrightarrow> hash \<le> c_value (cont ! i)"
    using ketama_search_spec [OF assms(3) order_refl assms(2), of 0 hash] by (simp_all add: k_def leD)
  have n: "0 < unat n" using assms(1) by (simp add: word_gt_0 unat_gt_0)
  define ring where "ring = take (unat n) cont"
  have ring: "length ring = unat n" "\<And>i. i < unat n \<Longrightarrow> ring ! i = cont ! i"
    using assms(2) by (simp_all add: ring_def)
  have "filter (\<lambda>c. hash \<le> c_value c) ring = drop k ring"
    using k ring by (intro filter_first) (auto simp: not_le)
  moreover have "ring \<noteq> []" using ring(1) n by auto
  ultimately have "ring_owner ring hash = ring ! (if k = unat n then 0 else k)"
    using k(1) ring(1) Cons_nth_drop_Suc [of k ring, symmetric]
    by (cases "k = unat n") (simp_all add: ring_owner_def hd_conv_nth)
  then have "ring_owner (take (unat n) cont) hash = cont ! (if k = unat n then 0 else k)"
    using ring k(1) n by (simp flip: ring_def)
  moreover have "cont \<noteq> []" "\<not> length cont < unat n"
    using n assms(2) by auto
  ultimately show ?thesis
    by (simp add: ketama_dispatch_def Let_def flip: k_def)
qed

text \<open>
  C22: on a sorted continuum \<open>ketama_dispatch\<close> returns the server of the first point at or after
  the hash, and wraps to the first point when there is none.
\<close>

theorem ketama_dispatch_correct:
  assumes "0 < n" "unat n \<le> length cont" "ring_sorted (take (unat n) cont)"
  shows "ketama_dispatch cont n hash = Inr (c_index (ring_owner (take (unat n) cont) hash))"
  using assms by (rule ketama_dispatch_owner)

theorem ketama_dispatch_correct_witness:
  "ketama_dispatch [\<lparr>c_index = 7, c_value = 10\<rparr>, \<lparr>c_index = 8, c_value = 20\<rparr>] 2 15 = Inr 8 \<and>
   ketama_dispatch [\<lparr>c_index = 7, c_value = 10\<rparr>, \<lparr>c_index = 8, c_value = 20\<rparr>] 2 21 = Inr 7"
  using ketama_dispatch_correct [of 2 "[\<lparr>c_index = 7, c_value = 10\<rparr>, \<lparr>c_index = 8, c_value = 20\<rparr>]" 15]
    ketama_dispatch_correct [of 2 "[\<lparr>c_index = 7, c_value = 10\<rparr>, \<lparr>c_index = 8, c_value = 20\<rparr>]" 21]
  by (simp add: ring_sorted_def ring_owner_def)

section \<open>Consistency\<close>

lemma ring_owner_filter:
  assumes "ring \<noteq> []" "P (ring_owner ring hash)"
  shows "ring_owner (filter P ring) hash = ring_owner ring hash"
proof -
  have comm: "filter Q (filter P ring) = filter P (filter Q ring)" for Q
    by (simp add: conj_commute)
  show ?thesis
  proof (cases "filter (\<lambda>c. hash \<le> c_value c) ring")
    case Nil
    with assms have "filter (\<lambda>c. hash \<le> c_value c) (filter P ring) = []" "P (hd ring)"
      by (auto simp: ring_owner_def filter_empty_conv)
    moreover from this assms(1) have "hd (filter P ring) = hd ring"
      by (cases ring) auto
    ultimately show ?thesis using Nil by (simp add: ring_owner_def)
  next
    case (Cons c cs)
    with assms have "P c" by (simp add: ring_owner_def)
    then have "filter (\<lambda>c. hash \<le> c_value c) (filter P ring) = c # filter P cs"
      unfolding comm Cons by simp
    with Cons show ?thesis by (simp add: ring_owner_def)
  qed
qed

lemma ring_owner_in: "ring \<noteq> [] \<Longrightarrow> ring_owner ring hash \<in> set ring"
  by (auto simp: ring_owner_def split: list.splits) (metis filter_is_subset list.set_intros(1) subset_code(1))

lemma ring_sorted_filter: "ring_sorted ring \<Longrightarrow> ring_sorted (filter P ring)"
  by (simp add: ring_sorted_def sorted_filter)

text \<open>
  C21: consistent hashing.  When the points of one server leave the continuum, a key that belonged
  to another server still belongs to that server.
\<close>

theorem ketama_remove_server:
  assumes "ring_sorted ring" "length ring < 2 ^ 32"
    "ketama_dispatch ring (word_of_nat (length ring)) hash = Inr owner" "owner \<noteq> gone"
  shows "ketama_dispatch (filter (\<lambda>c. c_index c \<noteq> gone) ring)
    (word_of_nat (length (filter (\<lambda>c. c_index c \<noteq> gone) ring))) hash = Inr owner"
proof -
  define rest where "rest = filter (\<lambda>c. c_index c \<noteq> gone) ring"
  have dispatch: "ketama_dispatch r (word_of_nat (length r)) hash = Inr (c_index (ring_owner r hash))"
    if "r \<noteq> []" "ring_sorted r" "length r < 2 ^ 32" for r
    using that ketama_dispatch_owner [of "word_of_nat (length r)" r hash]
    by (simp add: unat_of_nat_u32 word_less_nat_alt)
  have ne: "ring \<noteq> []"
    using assms(3) by (auto simp: ketama_dispatch_def)
  then have owner: "owner = c_index (ring_owner ring hash)"
    using dispatch [of ring] assms by simp
  with assms(4) ne have keep: "ring_owner rest hash = ring_owner ring hash"
    unfolding rest_def by (intro ring_owner_filter) auto
  have "ring_owner ring hash \<in> set rest"
    using ring_owner_in [OF ne] owner assms(4) by (simp add: rest_def)
  then have "rest \<noteq> []" by auto
  moreover have "length rest < 2 ^ 32"
    using assms(2) length_filter_le [of "\<lambda>c. c_index c \<noteq> gone" ring] unfolding rest_def by linarith
  ultimately show ?thesis
    using dispatch [of rest] assms(1) keep owner by (simp add: ring_sorted_filter flip: rest_def) (simp add: rest_def ring_sorted_filter)
qed

section \<open>Points per server\<close>

definition u24 :: rat where "u24 = 1 / 2 ^ 24"

lemma u24_bounds: "0 < u24" "u24 < 1"
  by (simp_all add: u24_def)

lemma fl32_bound: "0 \<le> x \<Longrightarrow> fl32 x \<le> x * (1 + u24)" "0 \<le> x \<Longrightarrow> x * (1 - u24) \<le> fl32 x"
  unfolding u24_def by (fact round_to_bounds)+

lemma fl32_up:
  assumes "0 \<le> x" "x \<le> X * k"
  shows "fl32 x \<le> X * (k * (1 + u24))"
proof -
  have "x * (1 + u24) \<le> X * k * (1 + u24)"
    using assms(2) u24_bounds by (intro mult_right_mono) auto
  with fl32_bound(1) [OF assms(1)] show ?thesis by (simp add: mult.assoc)
qed

lemma round_to_down:
  assumes "X \<le> x" "0 \<le> X" "4 \<le> p"
  shows "X * (9 / 10) \<le> round_to p x"
proof -
  have "(2 :: rat) ^ 4 \<le> 2 ^ p" using assms(3) by (intro power_increasing) auto
  then have "(9 :: rat) / 10 \<le> 1 - 1 / 2 ^ p" by (simp add: field_simps)
  then have "X * (9 / 10) \<le> x * (1 - 1 / 2 ^ p)"
    using assms by (intro mult_mono) auto
  also have "\<dots> \<le> round_to p x" using assms by (intro round_to_bounds(2)) auto
  finally show ?thesis .
qed

lemma ketama_pct_upper:
  assumes "0 < unat W"
  shows "0 \<le> ketama_pct w W"
    "ketama_pct w W \<le> rat_of_nat (unat w) / rat_of_nat (unat W) * ((1 + u24) / (1 - u24) * (1 + u24))"
proof -
  define w' W' where "w' = rat_of_nat (unat w)" and "W' = rat_of_nat (unat W)"
  have pos: "0 \<le> w'" "0 < W'"
    using assms unfolding w'_def W'_def by (simp_all only: of_nat_0_le_iff of_nat_0_less_iff)
  then have "W' * (1 - u24) \<le> fl32 W'" "fl32 w' \<le> w' * (1 + u24)" "0 \<le> fl32 w'"
    by (simp_all add: fl32_bound round_to_nonneg)
  moreover have "0 < W' * (1 - u24)" using pos u24_bounds by simp
  ultimately have "fl32 w' / fl32 W' \<le> w' * (1 + u24) / (W' * (1 - u24))" "0 \<le> fl32 w' / fl32 W'"
    using pos u24_bounds round_to_nonneg [of W' 24] by (auto intro!: frac_le divide_nonneg_nonneg)
  then have "0 \<le> fl32 w' / fl32 W'" "fl32 w' / fl32 W' \<le> w' / W' * ((1 + u24) / (1 - u24))"
    by (simp_all add: times_divide_times_eq)
  from round_to_nonneg [OF this(1)] fl32_up [OF this]
  show "0 \<le> ketama_pct w W"
    "ketama_pct w W \<le> rat_of_nat (unat w) / rat_of_nat (unat W) * ((1 + u24) / (1 - u24) * (1 + u24))"
    unfolding ketama_pct_def w'_def [symmetric] W'_def [symmetric] .
qed

lemma ketama_scaled_upper:
  assumes "0 \<le> pct" "pct \<le> q * ((1 + u24) / (1 - u24) * (1 + u24))" "0 \<le> q"
  shows "ketama_scaled pct n \<le> q * (40 * rat_of_nat (unat n)) * (1 + 1 / 2 ^ 20) + 1 / 2 ^ 32"
proof -
  define k where "k = (1 + u24) / (1 - u24) * (1 + u24)"
  define m where "m = rat_of_nat (unat n)"
  define eps where "eps = fl64 (1 / 10 ^ 10)"
  define c1 where "c1 = fl32 (pct * 160)"
  define c2 where "c2 = fl32 (c1 / 4)"
  define c3 where "c3 = fl32 (c2 * fl32 m)"
  define v :: rat where "v = 1 / 2 ^ 53"
  define d where "d = fl64 (c3 + eps)"
  have "0 \<le> m" unfolding m_def by (rule of_nat_0_le_iff)
  then have m: "0 \<le> m" "0 \<le> fl32 m" "fl32 m \<le> m * (1 + u24)"
    by (simp_all add: fl32_bound round_to_nonneg)
  have pct: "pct \<le> q * k" unfolding k_def by (fact assms(2))
  have c1: "0 \<le> c1" "c1 \<le> (q * 160) * (k * (1 + u24))"
    unfolding c1_def using assms(1) pct by (auto intro!: fl32_up round_to_nonneg)
  have c2: "0 \<le> c2" "c2 \<le> (q * 40) * (k * (1 + u24) * (1 + u24))"
    unfolding c2_def using c1 by (auto intro!: fl32_up round_to_nonneg)
  have "c2 * fl32 m \<le> (q * 40) * (k * (1 + u24) * (1 + u24)) * (m * (1 + u24))"
    using c2 m by (intro mult_mono order_trans [OF c2]) auto
  then have "c2 * fl32 m \<le> (q * (40 * m)) * (k * (1 + u24) * (1 + u24) * (1 + u24))"
    by (simp only: mult_ac)
  from fl32_up [OF _ this] have c3: "0 \<le> c3" "c3 \<le> (q * (40 * m)) * (k * (1 + u24) * (1 + u24) * (1 + u24) * (1 + u24))"
    unfolding c3_def using c2 m by (auto intro!: round_to_nonneg)
  have "eps \<le> 1 / 10 ^ 10 * (1 + 1 / 2 ^ 53)" "0 \<le> eps"
    unfolding eps_def by (rule round_to_bounds(1) round_to_nonneg, simp)+
  then have eps: "0 \<le> eps" "eps \<le> 2 / 10 ^ 10"
    by (auto elim: order_trans)
  have d: "0 \<le> d" "d \<le> (c3 + eps) * (1 + v)"
    unfolding d_def v_def using add_nonneg_nonneg [OF c3(1) eps(1)]
    by (rule round_to_nonneg round_to_bounds(1))+
  have "fl32 d \<le> d * (1 + u24)"
    using d by (intro fl32_bound)
  also have "\<dots> \<le> (c3 + eps) * ((1 + v) * (1 + u24))"
    using mult_right_mono [OF d(2), of "1 + u24"] u24_bounds by (simp add: mult.assoc)
  also have "\<dots> \<le> ((q * (40 * m)) * (k * (1 + u24) * (1 + u24) * (1 + u24) * (1 + u24)) + 2 / 10 ^ 10) * ((1 + v) * (1 + u24))"
    using c3 eps u24_bounds by (intro mult_right_mono add_mono) (auto simp: v_def)
  also have "\<dots> = (q * (40 * m)) * (k * (1 + u24) * (1 + u24) * (1 + u24) * (1 + u24) * ((1 + v) * (1 + u24))) +
      2 / 10 ^ 10 * ((1 + v) * (1 + u24))"
    by (subst distrib_right) (simp only: mult.assoc)
  also have "\<dots> \<le> (q * (40 * m)) * (1 + 1 / 2 ^ 20) + 1 / 2 ^ 32"
  proof (intro add_mono mult_left_mono)
    show "k * (1 + u24) * (1 + u24) * (1 + u24) * (1 + u24) * ((1 + v) * (1 + u24)) \<le> 1 + 1 / 2 ^ 20"
      by (simp add: k_def u24_def v_def)
    show "2 / 10 ^ 10 * ((1 + v) * (1 + u24)) \<le> 1 / 2 ^ 32"
      by (simp add: u24_def v_def)
  qed (use assms m in auto)
  finally show ?thesis
    by (simp add: ketama_scaled_def d_def c3_def c2_def c1_def m_def eps_def)
qed

lemma ketama_scaled_nonneg: "0 \<le> pct \<Longrightarrow> 0 \<le> ketama_scaled pct n"
  unfolding ketama_scaled_def by (intro round_to_nonneg add_nonneg_nonneg mult_nonneg_nonneg divide_nonneg_nonneg of_nat_0_le_iff) auto

lemma ketama_scaled_lower:
  assumes "0 < unat W" "rat_of_nat (unat W) \<le> rat_of_nat (unat w) * rat_of_nat (unat n)"
  shows "1 \<le> ketama_scaled (ketama_pct w W) n"
proof -
  define w' W' m where "w' = rat_of_nat (unat w)" and "W' = rat_of_nat (unat W)" and "m = rat_of_nat (unat n)"
  have pos: "0 \<le> w'" "0 < W'" "0 \<le> m"
    using assms(1) unfolding w'_def W'_def m_def by (simp_all only: of_nat_0_le_iff of_nat_0_less_iff)
  define q where "q = w' / W'"
  have q: "0 \<le> q" "1 \<le> q * m"
    using pos assms(2) unfolding w'_def [symmetric] W'_def [symmetric] m_def [symmetric]
    by (auto simp: q_def field_simps)
  have "fl32 W' \<le> W' * (1 + u24)" "W' * (9 / 10) \<le> fl32 W'"
    using pos fl32_bound(1) [of W'] round_to_down [of W' W' 24] by auto
  moreover have "W' * (1 + u24) \<le> W' * (10 / 9)"
    using pos by (intro mult_left_mono) (auto simp: u24_def)
  ultimately have W: "0 < fl32 W'" "fl32 W' \<le> W' * (10 / 9)"
    using pos by linarith+
  have "w' * (9 / 10) / (W' * (10 / 9)) \<le> fl32 w' / fl32 W'"
    using pos W by (intro frac_le round_to_nonneg round_to_down) auto
  then have "q * (81 / 100) \<le> fl32 w' / fl32 W'" by (simp add: q_def)
  then have "q * (81 / 100) * (9 / 10) \<le> ketama_pct w W"
    unfolding ketama_pct_def w'_def [symmetric] W'_def [symmetric] using q by (intro round_to_down) auto
  then have c1: "q * (81 / 100) * (9 / 10) * 160 * (9 / 10) \<le> fl32 (ketama_pct w W * 160)" (is "_ \<le> ?c1")
    using q by (intro round_to_down) auto
  have "q * (81 / 100) * (9 / 10) * 160 * (9 / 10) / 4 \<le> ?c1 / 4"
    using c1 by (rule divide_right_mono) simp
  from round_to_down [OF this] q
  have c2: "q * (81 / 100) * (9 / 10) * 160 * (9 / 10) / 4 * (9 / 10) \<le> fl32 (?c1 / 4)" (is "_ \<le> ?c2")
    by simp
  have "m * (9 / 10) \<le> fl32 m" using pos by (intro round_to_down) auto
  with c2 have "q * (81 / 100) * (9 / 10) * 160 * (9 / 10) / 4 * (9 / 10) * (m * (9 / 10)) \<le> ?c2 * fl32 m"
    using q pos by (intro mult_mono) auto
  from round_to_down [OF this] q pos
  have "q * (81 / 100) * (9 / 10) * 160 * (9 / 10) / 4 * (9 / 10) * (m * (9 / 10)) * (9 / 10) \<le>
      fl32 (?c2 * fl32 m)" (is "_ \<le> ?c3")
    by simp
  moreover have "q * (81 / 100) * (9 / 10) * 160 * (9 / 10) / 4 * (9 / 10) * (m * (9 / 10)) * (9 / 10) =
      q * m * (40 * (81 / 100) * (9 / 10) * (9 / 10) * (9 / 10) * (9 / 10) * (9 / 10))"
    by simp
  ultimately have "2 \<le> ?c3"
    using q(2) by (simp add: field_simps)
  then have "2 \<le> ?c3 + fl64 (1 / 10 ^ 10)"
    using round_to_nonneg [of "1 / 10 ^ 10" 53] by simp
  from round_to_down [OF round_to_down [OF this, of 53], of 24]
  have "2 * (9 / 10) * (9 / 10) \<le> fl32 (fl64 (?c3 + fl64 (1 / 10 ^ 10)))"
    by simp
  then show ?thesis by (simp add: ketama_scaled_def m_def)
qed

text \<open>The number of keys that a live server gets on the continuum; each key gives four points.\<close>

definition ketama_keys :: "u32 \<Rightarrow> u32 \<Rightarrow> u32 \<Rightarrow> nat" where
  "ketama_keys w W n = nat \<lfloor>ketama_scaled (ketama_pct w W) n\<rfloor>"

lemma ketama_keys_le:
  assumes "0 < unat W"
  shows "rat_of_nat (ketama_keys w W n) \<le>
    rat_of_nat (unat w) / rat_of_nat (unat W) * (40 * rat_of_nat (unat n)) * (1 + 1 / 2 ^ 20) + 1 / 2 ^ 32"
proof -
  have "0 \<le> ketama_scaled (ketama_pct w W) n"
    using ketama_pct_upper(1) [OF assms] by (rule ketama_scaled_nonneg)
  then have "rat_of_nat (ketama_keys w W n) = of_int \<lfloor>ketama_scaled (ketama_pct w W) n\<rfloor>"
    by (simp add: ketama_keys_def)
  also have "\<dots> \<le> ketama_scaled (ketama_pct w W) n" by (rule of_int_floor_le)
  also have "\<dots> \<le> rat_of_nat (unat w) / rat_of_nat (unat W) * (40 * rat_of_nat (unat n)) * (1 + 1 / 2 ^ 20) + 1 / 2 ^ 32"
    using ketama_pct_upper [OF assms] by (intro ketama_scaled_upper divide_nonneg_nonneg of_nat_0_le_iff)
  finally show ?thesis .
qed

lemma ketama_pointer_per_server_ok:
  assumes "0 < unat W" "ketama_keys w W n < 2 ^ 22"
  shows "ketama_pointer_per_server w W n = Inr (word_of_nat (4 * ketama_keys w W n))"
proof -
  define f where "f = \<lfloor>ketama_scaled (ketama_pct w W) n\<rfloor>"
  have f: "0 \<le> f" "f = int (ketama_keys w W n)"
    using ketama_scaled_nonneg [OF ketama_pct_upper(1) [OF assms(1)], of w n]
    by (simp_all add: f_def ketama_keys_def)
  then have "f * 4 < 2 ^ 24" using assms(2) by simp
  with f(1) have "fl32 (of_int (f * 4)) = of_int (f * 4)"
    by (intro round_to_int) auto
  then have r: "fl32 (of_int f * 4) = of_int (f * 4)" by simp
  have "of_int (f * 4) < (of_int (2 ^ 32) :: rat)"
    unfolding of_int_less_iff using \<open>f * 4 < 2 ^ 24\<close> by simp
  moreover have "W \<noteq> 0" using assms(1) by auto
  ultimately show ?thesis
    unfolding ketama_pointer_per_server_def f_def [symmetric] Let_def r floor_of_int
    by (simp add: f(2) mult.commute)
qed

lemma ketama_keys_sum:
  assumes "0 < unat W"
  shows "rat_of_nat (\<Sum>s\<leftarrow>ss. ketama_keys (weight s) W n) \<le>
    rat_of_nat (\<Sum>s\<leftarrow>ss. unat (weight s)) / rat_of_nat (unat W) * (40 * rat_of_nat (unat n)) * (1 + 1 / 2 ^ 20) +
    rat_of_nat (length ss) * (1 / 2 ^ 32)"
proof (induction ss)
  case (Cons s ss)
  define c where "c = 40 * rat_of_nat (unat n)"
  define e :: rat where "e = 1 + 1 / 2 ^ 20"
  define d :: rat where "d = 1 / 2 ^ 32"
  define W' where "W' = rat_of_nat (unat W)"
  have eq: "rat_of_nat (a + b) / W' * c * e + rat_of_nat (Suc l) * d =
      (rat_of_nat a / W' * c * e + d) + (rat_of_nat b / W' * c * e + rat_of_nat l * d)" for a b l
    by (simp add: add_divide_distrib distrib_left distrib_right)
  have "rat_of_nat (\<Sum>s\<leftarrow>s # ss. ketama_keys (weight s) W n) =
      rat_of_nat (ketama_keys (weight s) W n) + rat_of_nat (\<Sum>s\<leftarrow>ss. ketama_keys (weight s) W n)"
    by simp
  also have "\<dots> \<le> (rat_of_nat (unat (weight s)) / W' * c * e + d) +
      (rat_of_nat (\<Sum>s\<leftarrow>ss. unat (weight s)) / W' * c * e + rat_of_nat (length ss) * d)"
    unfolding W'_def c_def e_def d_def by (intro add_mono ketama_keys_le assms Cons.IH)
  finally show ?case
    unfolding list.map sum_list.Cons length_Cons W'_def [symmetric] c_def [symmetric] e_def [symmetric]
      d_def [symmetric] eq .
qed simp

lemma ketama_total_keys:
  assumes "0 < unat W" "(\<Sum>s\<leftarrow>ss. unat (weight s)) = unat W" "length ss = unat n" "unat n \<le> 2 ^ 14"
  shows "(\<Sum>s\<leftarrow>ss. ketama_keys (weight s) W n) \<le> 40 * unat n"
proof -
  define m where "m = rat_of_nat (unat n)"
  have m: "0 \<le> m" "m \<le> 2 ^ 14"
    using assms(4) unfolding m_def by (metis of_nat_0_le_iff, metis of_nat_le_iff of_nat_numeral of_nat_power)
  have "rat_of_nat (unat W) / rat_of_nat (unat W) = 1"
    using assms(1) by (metis divide_self less_irrefl of_nat_eq_0_iff)
  with ketama_keys_sum [OF assms(1), of n ss] assms(2,3)
  have "rat_of_nat (\<Sum>s\<leftarrow>ss. ketama_keys (weight s) W n) \<le> 40 * m * (1 + 1 / 2 ^ 20) + m * (1 / 2 ^ 32)"
    by (simp only: mult_1_left m_def)
  also have "\<dots> < 40 * m + 1"
    using m by simp
  finally have "rat_of_nat (\<Sum>s\<leftarrow>ss. ketama_keys (weight s) W n) < rat_of_nat (40 * unat n + 1)"
    unfolding m_def by (simp only: of_nat_add of_nat_mult of_nat_numeral of_nat_1)
  then show ?thesis unfolding of_nat_less_iff by simp
qed

lemma heavy_server:
  fixes w :: "'a \<Rightarrow> nat"
  assumes "ss \<noteq> []"
  shows "\<exists>s \<in> set ss. (\<Sum>s\<leftarrow>ss. w s) \<le> w s * length ss"
proof (rule ccontr)
  assume "\<not> ?thesis"
  then have less: "\<forall>s \<in> set ss. w s * length ss < (\<Sum>s\<leftarrow>ss. w s)" by auto
  have "(\<Sum>s\<leftarrow>xs. w s) * length ss < length xs * (\<Sum>s\<leftarrow>ss. w s)" if "set xs \<subseteq> set ss" "xs \<noteq> []" for xs
    using that
  proof (induction xs)
    case (Cons x xs)
    then show ?case
      using less by (cases "xs = []") (auto simp: distrib_right intro: add_strict_mono)
  qed simp
  from this [of ss] assms show False by (simp add: mult.commute)
qed

section \<open>Building the continuum\<close>

definition ketama_server_ok :: "server \<Rightarrow> bool" where
  "ketama_server_ok s \<longleftrightarrow>
     length (takeWhile (\<lambda>c. c \<noteq> 0) (name s)) \<le> 78 \<and> ketama_name (pname s) = Inr ()"

definition ketama_key :: "server \<Rightarrow> nat \<Rightarrow> bytes" where
  "ketama_key s i = takeWhile (\<lambda>c. c \<noteq> 0) (name s) @ [45] @ decimal i"

definition ketama_points :: "MD5_CTX \<Rightarrow> u32 \<Rightarrow> server \<Rightarrow> nat list \<Rightarrow> continuum list" where
  "ketama_points my_md5 idx s is =
     concat (map (\<lambda>i. map (\<lambda>x. \<lparr>c_index = idx, c_value = ketama_hash my_md5 (ketama_key s i) x\<rparr>) [0..<4]) is)"

fun ketama_ring :: "MD5_CTX \<Rightarrow> bool \<Rightarrow> int \<Rightarrow> (server \<Rightarrow> nat) \<Rightarrow> u32 \<Rightarrow> server list \<Rightarrow> continuum list" where
  "ketama_ring my_md5 auto t keys i [] = []"
| "ketama_ring my_md5 auto t keys i (s # ss) =
     (if live auto t s then ketama_points my_md5 i s [0..<keys s] else []) @
     ketama_ring my_md5 auto t keys (i + 1) ss"

lemma ketama_host_ok:
  assumes "ketama_server_ok s" "i < 10 ^ 6"
  shows "ketama_host (name s) i = Inr (ketama_key s i)"
  using assms length_decimal [of i 6]
  by (simp add: ketama_host_def ketama_key_def ketama_server_ok_def KETAMA_MAX_HOSTLEN_def Let_def)

lemma ketama_pointers_ok:
  "ketama_server_ok s \<Longrightarrow> \<forall>i \<in> set is. i < 10 ^ 6 \<Longrightarrow>
    ketama_pointers my_md5 idx s is = Inr (ketama_points my_md5 idx s is)"
  by (induction "is") (simp_all add: ketama_host_ok ketama_points_def ketama_server_ok_def)

lemma length_ketama_points [simp]: "length (ketama_points my_md5 idx s is) = 4 * length is"
  by (induction "is") (simp_all add: ketama_points_def)

lemma length_ketama_ring:
  "length (ketama_ring my_md5 auto t keys i ss) = 4 * (\<Sum>s\<leftarrow>filter (live auto t) ss. keys s)"
  by (induction ss arbitrary: i) simp_all

lemma in_ketama_ring:
  "p \<in> set (ketama_ring my_md5 auto t keys i ss) \<longleftrightarrow>
    (\<exists>j < length ss. live auto t (ss ! j) \<and>
      p \<in> set (ketama_points my_md5 (i + word_of_nat j) (ss ! j) [0..<keys (ss ! j)]))"
proof (induction ss arbitrary: i)
  case (Cons s ss)
  have "p \<in> set (ketama_ring my_md5 auto t keys i (s # ss)) \<longleftrightarrow>
      (live auto t s \<and> p \<in> set (ketama_points my_md5 i s [0..<keys s])) \<or>
      p \<in> set (ketama_ring my_md5 auto t keys (i + 1) ss)"
    by auto
  then show ?case
    by (simp add: Cons.IH Ex_less_Suc2 add.assoc del: ketama_ring.simps)
qed simp

lemma ketama_points_index: "p \<in> set (ketama_points my_md5 idx s is) \<Longrightarrow> c_index p = idx"
  by (auto simp: ketama_points_def)

lemma ketama_build_ok:
  assumes "0 < unat W"
    "\<forall>s \<in> set ss. live auto (now env) s \<longrightarrow> ketama_server_ok s \<and> ketama_keys (weight s) W n < 10 ^ 6"
  shows "ketama_build env auto n W i ss =
    Inr (ketama_ring (stack_md5 env) auto (now env) (\<lambda>s. ketama_keys (weight s) W n) i ss,
      word_of_nat (length (ketama_ring (stack_md5 env) auto (now env) (\<lambda>s. ketama_keys (weight s) W n) i ss)))"
  using assms(2)
proof (induction ss arbitrary: i)
  case (Cons s ss)
  define k where "k = ketama_keys (weight s) W n"
  show ?case
  proof (cases "live auto (now env) s")
    case True
    with Cons.prems have ok: "ketama_server_ok s" "k < 10 ^ 6" by (simp_all add: k_def)
    then have pps: "ketama_pointer_per_server (weight s) W n = Inr (word_of_nat (4 * k))"
      unfolding k_def using assms(1) by (intro ketama_pointer_per_server_ok) auto
    have "unat (word_of_nat (4 * k) div 4 :: u32) = k"
      using ok unat_of_nat_u32 [of "4 * k"] by (simp add: unat_div del: of_nat_mult)
    moreover have "\<not> (auto \<and> now env < next_retry s)"
      using True by (auto simp: live_def)
    ultimately show ?thesis
      unfolding ketama_build.simps ketama_ring.simps
      using True pps ok Cons by (simp only: if_False if_True) (simp add: ketama_pointers_ok flip: k_def)
  next
    case False
    then have "auto \<and> now env < next_retry s" by (auto simp: live_def)
    then have "ketama_build env auto n W i (s # ss) = ketama_build env auto n W (i + 1) ss" by simp
    with False Cons show ?thesis by (simp del: ketama_build.simps)
  qed
qed simp

section \<open>The rebuild\<close>

text \<open>
  The contract of the C library's \<open>qsort\<close> with the comparison \<open>ketama_item_cmp\<close>: the result is a
  permutation of the input and no element compares greater than a later one.  The order of points
  with equal values is left open, as in the C standard.
\<close>

locale sorts_points =
  fixes qs :: "continuum list \<Rightarrow> continuum list"
  assumes perm: "mset (qs xs) = mset xs"
    and ordered: "sorted_wrt (\<lambda>a b. ketama_item_cmp a b \<le> 0) (qs xs)"
begin

lemma qs_ring_sorted: "ring_sorted (qs xs)"
proof -
  have "ketama_item_cmp a b \<le> 0 \<Longrightarrow> c_value a \<le> c_value b" for a b
    by (auto simp: ketama_item_cmp_def split: if_splits)
  with ordered [of xs] show ?thesis
    unfolding ring_sorted_def sorted_map by (rule sorted_wrt_mono_rel [rotated])
qed

lemma qs_set: "set (qs xs) = set xs"
  by (metis perm set_mset_mset)

lemma qs_length: "length (qs xs) = length xs"
  by (metis perm size_mset)

end

interpretation stable: sorts_points "sort_key c_value"
proof unfold_locales
  show "sorted_wrt (\<lambda>a b. ketama_item_cmp a b \<le> 0) (sort_key c_value xs)" for xs
    using sorted_sort_key [of c_value xs] unfolding sorted_map
    by (rule sorted_wrt_mono_rel [rotated]) (auto simp: ketama_item_cmp_def)
qed simp

text \<open>What the configuration must give for a rebuild to be well defined.\<close>

definition ketama_conf :: "dist_env \<Rightarrow> server_pool \<Rightarrow> bool" where
  "ketama_conf env pool \<longleftrightarrow>
     0 \<le> now env \<and> alloc_ok env \<and> continuum_slots 160 pool \<and> unat (nserver_continuum pool) < 2 ^ 24 \<and>
     length (servers pool) \<le> 2 ^ 14 \<and>
     (\<Sum>s\<leftarrow>servers pool. unat (weight s)) < 2 ^ 32 \<and>
     (\<forall>s \<in> set (servers pool). 0 < weight s \<and> ketama_server_ok s)"

definition ketama_ring_of :: "dist_env \<Rightarrow> server_pool \<Rightarrow> continuum list" where
  "ketama_ring_of env pool =
     (let auto = auto_eject_hosts pool; t = now env; ss = servers pool in
      ketama_ring (stack_md5 env) auto t
        (\<lambda>s. ketama_keys (weight s) (word_of_nat (live_weight auto t ss)) (word_of_nat (live_count auto t ss))) 0 ss)"

lemma sum_list_filter_le: "(\<Sum>x\<leftarrow>filter P xs. f x) \<le> (\<Sum>x\<leftarrow>xs. (f x :: nat))"
  by (induction xs) auto

lemma ketama_ring_refresh:
  assumes "0 \<le> t" "\<And>s. keys (refresh auto t s) = keys s"
  shows "ketama_ring my_md5 auto t keys i (map (refresh auto t) ss) = ketama_ring my_md5 auto t keys i ss"
  using assms by (induction ss arbitrary: i) (simp_all add: ketama_points_def ketama_key_def)

lemma ketama_ring_bounds:
  assumes "ketama_conf env pool" "live_count (auto_eject_hosts pool) (now env) (servers pool) \<noteq> 0"
  shows "0 < length (ketama_ring_of env pool)"
    "length (ketama_ring_of env pool) \<le> 160 * live_count (auto_eject_hosts pool) (now env) (servers pool)"
    "\<forall>s \<in> set (servers pool). live (auto_eject_hosts pool) (now env) s \<longrightarrow>
      ketama_keys (weight s) (word_of_nat (live_weight (auto_eject_hosts pool) (now env) (servers pool)))
        (word_of_nat (live_count (auto_eject_hosts pool) (now env) (servers pool))) < 10 ^ 6"
    "0 < unat (word_of_nat (live_weight (auto_eject_hosts pool) (now env) (servers pool)) :: u32)"
proof -
  define ls where "ls = filter (live (auto_eject_hosts pool) (now env)) (servers pool)"
  define W where "W = live_weight (auto_eject_hosts pool) (now env) (servers pool)"
  define n where "n = live_count (auto_eject_hosts pool) (now env) (servers pool)"
  define keys where "keys = (\<lambda>s :: server. ketama_keys (weight s) (word_of_nat W) (word_of_nat n))"
  have "n \<le> length (servers pool)"
    unfolding n_def live_count_def by (rule length_filter_le)
  moreover have "length (servers pool) \<le> 2 ^ 14" using assms(1) by (simp add: ketama_conf_def)
  ultimately have n: "n \<le> 2 ^ 14" "length ls = n" "n \<noteq> 0"
    using assms(2) by (linarith, simp_all add: n_def ls_def live_count_def)
  have "W \<le> (\<Sum>s\<leftarrow>servers pool. unat (weight s))"
    unfolding W_def live_weight_def by (rule sum_list_filter_le)
  moreover have "(\<Sum>s\<leftarrow>servers pool. unat (weight s)) < 2 ^ 32" using assms(1) by (simp add: ketama_conf_def)
  ultimately have W: "W < 2 ^ 32" "(\<Sum>s\<leftarrow>ls. unat (weight s)) = W"
    by (linarith, simp add: W_def ls_def live_weight_def)
  have ls: "ls \<noteq> []" "\<forall>s \<in> set ls. 0 < unat (weight s)"
    using n(2,3) assms(1) by (auto simp: ls_def ketama_conf_def word_gt_0 unat_gt_0)
  then have W0: "0 < W" using W(2) by (cases ls) auto
  have unat: "unat (word_of_nat W :: u32) = W" "unat (word_of_nat n :: u32) = n"
    using W n by (simp_all add: unat_of_nat_u32)
  have total: "(\<Sum>s\<leftarrow>ls. keys s) \<le> 40 * n"
    using ketama_total_keys [of "word_of_nat W" ls "word_of_nat n"] W W0 n unat by (simp add: keys_def)
  obtain s where s: "s \<in> set ls" "W \<le> unat (weight s) * n"
    using heavy_server [OF ls(1), of "\<lambda>s. unat (weight s)"] W n by auto
  then have "rat_of_nat W \<le> rat_of_nat (unat (weight s)) * rat_of_nat n"
    by (metis of_nat_le_iff of_nat_mult)
  then have "1 \<le> ketama_scaled (ketama_pct (weight s) (word_of_nat W)) (word_of_nat n)"
    using W0 by (intro ketama_scaled_lower) (simp_all only: unat)
  then have "1 \<le> keys s"
    unfolding keys_def ketama_keys_def One_nat_def Suc_le_eq zero_less_nat_eq zero_less_floor .
  moreover have member: "keys x \<le> (\<Sum>s\<leftarrow>ls. keys s)" if "x \<in> set ls" for x
    using that by (simp add: member_le_sum_list)
  ultimately have "1 \<le> (\<Sum>s\<leftarrow>ls. keys s)" using s(1) by force
  then show "0 < length (ketama_ring_of env pool)"
    "length (ketama_ring_of env pool) \<le> 160 * live_count (auto_eject_hosts pool) (now env) (servers pool)"
    using total by (simp_all add: ketama_ring_of_def Let_def length_ketama_ring keys_def
        flip: ls_def W_def n_def)
  show "\<forall>s \<in> set (servers pool). live (auto_eject_hosts pool) (now env) s \<longrightarrow>
      ketama_keys (weight s) (word_of_nat (live_weight (auto_eject_hosts pool) (now env) (servers pool)))
        (word_of_nat (live_count (auto_eject_hosts pool) (now env) (servers pool))) < 10 ^ 6"
    unfolding W_def [symmetric] n_def [symmetric]
  proof (intro ballI impI)
    fix x assume "x \<in> set (servers pool)" "live (auto_eject_hosts pool) (now env) x"
    then have "keys x \<le> 40 * n" using member [of x] total by (simp add: ls_def)
    with n(1) show "ketama_keys (weight x) (word_of_nat W) (word_of_nat n) < 10 ^ 6" by (simp add: keys_def)
  qed
  show "0 < unat (word_of_nat (live_weight (auto_eject_hosts pool) (now env) (servers pool)) :: u32)"
    using W0 unat(1) by (simp add: W_def)
qed

lemma ketama_update_ok:
  assumes "ketama_conf env pool" "sorts_points (qsort env)"
    "live_count (auto_eject_hosts pool) (now env) (servers pool) \<noteq> 0"
  obtains pool' where "ketama_update env pool = Inr (NC_OK, pool')" "continuum_slots 160 pool'"
    "servers pool' = map (refresh (auto_eject_hosts pool) (now env)) (servers pool)"
    "unat (ncontinuum pool') = length (ketama_ring_of env pool)"
    "take (unat (ncontinuum pool')) (pool_continuum pool') = qsort env (ketama_ring_of env pool)"
    "unat (ncontinuum pool') \<le> length (pool_continuum pool')"
proof -
  define a t ss where defs: "a = auto_eject_hosts pool" "t = now env" "ss = servers pool"
  define n W where nW: "n = live_count a t ss" "W = live_weight a t ss"
  define pool2 where "pool2 = grown env 160 (word_of_nat n) (scanned env pool)"
  define ring where "ring = ketama_ring_of env pool"
  have t: "0 \<le> now env" "alloc_ok env" and slots: "continuum_slots 160 pool"
    and small: "unat (nserver_continuum pool) < 2 ^ 24" "length (servers pool) \<le> 2 ^ 14"
    and servers_ok: "\<forall>s \<in> set ss. ketama_server_ok s"
    using assms(1) by (auto simp: ketama_conf_def defs)
  have "n \<le> length ss" unfolding nW live_count_def by (rule length_filter_le)
  with small(2) have n: "n \<le> 2 ^ 14" by (simp add: defs)
  note ring = ketama_ring_bounds [OF assms(1,3)]
  have n0: "nlive_server (scanned env pool) \<noteq> 0"
    using assms(3) small(2) by (intro nlive_nonzero) auto
  have build: "ketama_build env a (word_of_nat n) (word_of_nat W) 0 (map (refresh a t) ss) =
      Inr (ring, word_of_nat (length ring))"
  proof -
    have eq: "ketama_ring (stack_md5 env) a t (\<lambda>s. ketama_keys (weight s) (word_of_nat W) (word_of_nat n)) 0
        (map (refresh a t) ss) = ring"
      using t(1) by (subst ketama_ring_refresh) (simp_all add: ring_def ketama_ring_of_def defs nW Let_def)
    show ?thesis
      using ketama_build_ok [of "word_of_nat W" "map (refresh a t) ss" a env "word_of_nat n" 0] ring(3,4)
        servers_ok t(1) eq by (simp add: defs nW ketama_server_ok_def)
  qed
  have upd: "ketama_update env pool =
    bind_fault (write_points (pool_continuum pool2) 0 ring) (\<lambda>cont. Inr (NC_OK, pool2\<lparr>ncontinuum := word_of_nat (length ring),
      pool_continuum := qsort env (take (unat (word_of_nat (length ring) :: u32)) cont) @
        drop (unat (word_of_nat (length ring) :: u32)) cont\<rparr>))"
  proof -
    have live: "nlive_server (scanned env pool) = word_of_nat n" "servers (scanned env pool) = map (refresh a t) ss"
      "live_weight a (now env) (servers pool) = W" "auto_eject_hosts pool = a"
      by (simp_all add: scanned_def defs nW Let_def)
    show ?thesis
      unfolding ketama_update_def scan_servers_pool [OF t(1)] Let_def prod.case scanned_fold
      using t n0 build unfolding live
      by (simp add: pool2_def grown_def KETAMA_CONTINUUM_ADDITION_def KETAMA_POINTS_PER_SERVER_def live)
  qed
  have slots2: "continuum_slots 160 pool2" "160 * n \<le> length (pool_continuum pool2)"
    using grown_slots [of 160 "scanned env pool" n env] slots n by (simp_all add: pool2_def)
  have len: "length ring \<le> length (pool_continuum pool2)" "length ring < 2 ^ 32"
    using ring(2) slots2(2) n by (auto simp: ring_def nW defs)
  have "unat (word_of_nat n + 10 :: u32) = n + 10"
    using unat_of_nat_u32 [of "n + 10"] n by simp
  then have "unat (nserver_continuum pool2) < 2 ^ 24"
    using small(1) n by (simp add: pool2_def grown_def)
  then have "length (pool_continuum pool2) < 2 ^ 32"
    using slots2(1) by (simp add: continuum_slots_def)
  with len have final: "ketama_update env pool = Inr (NC_OK, pool2\<lparr>ncontinuum := word_of_nat (length ring),
      pool_continuum := qsort env ring @ drop (length ring) (pool_continuum pool2)\<rparr>)"
    by (simp add: upd write_points_ok unat_of_nat_u32)
  have "length (qsort env ring) = length ring"
    using assms(2) by (rule sorts_points.qs_length)
  then show thesis
    using slots2(1) len
    by (intro that [OF final]) (simp_all add: continuum_slots_def unat_of_nat_u32 pool2_def flip: ring_def)
qed

lemma ketama_rebuild:
  assumes "ketama_conf env pool" "sorts_points (qsort env)"
    "live_count (auto_eject_hosts pool) (now env) (servers pool) \<noteq> 0"
  shows "\<exists>pool'. ketama_update env pool = Inr (NC_OK, pool') \<and> continuum_slots 160 pool' \<and>
    0 < ncontinuum pool' \<and> unat (ncontinuum pool') \<le> length (pool_continuum pool') \<and>
    ring_sorted (take (unat (ncontinuum pool')) (pool_continuum pool')) \<and>
    mset (take (unat (ncontinuum pool')) (pool_continuum pool')) = mset (ketama_ring_of env pool) \<and>
    (\<forall>hash. \<exists>j < length (servers pool). live (auto_eject_hosts pool) (now env) (servers pool ! j) \<and>
       ketama_dispatch (pool_continuum pool') (ncontinuum pool') hash = Inr (word_of_nat j))"
proof -
  obtain pool' where upd: "ketama_update env pool = Inr (NC_OK, pool')" "continuum_slots 160 pool'"
    and n: "unat (ncontinuum pool') = length (ketama_ring_of env pool)"
    and cont: "take (unat (ncontinuum pool')) (pool_continuum pool') = qsort env (ketama_ring_of env pool)"
    and le: "unat (ncontinuum pool') \<le> length (pool_continuum pool')"
    using ketama_update_ok [OF assms] by metis
  define ring where "ring = take (unat (ncontinuum pool')) (pool_continuum pool')"
  have sorted: "ring_sorted ring" and perm: "mset ring = mset (ketama_ring_of env pool)"
    using sorts_points.qs_ring_sorted [OF assms(2)] sorts_points.perm [OF assms(2)]
    by (simp_all add: ring_def cont)
  have pos: "0 < ncontinuum pool'"
    using ketama_ring_bounds(1) [OF assms(1,3)] n by (auto simp: word_gt_0)
  have dispatch: "\<exists>j < length (servers pool). live (auto_eject_hosts pool) (now env) (servers pool ! j) \<and>
      ketama_dispatch (pool_continuum pool') (ncontinuum pool') hash = Inr (word_of_nat j)" for hash
  proof -
    have "length ring = length (ketama_ring_of env pool)" using perm by (rule mset_eq_length)
    then have "ring \<noteq> []" using ketama_ring_bounds(1) [OF assms(1,3)] by auto
    then have "ring_owner ring hash \<in> set (ketama_ring_of env pool)"
      using ring_owner_in perm by (metis set_mset_mset)
    then obtain j where j: "j < length (servers pool)" "live (auto_eject_hosts pool) (now env) (servers pool ! j)"
      "c_index (ring_owner ring hash) = word_of_nat j"
      unfolding ketama_ring_of_def Let_def in_ketama_ring by (auto dest: ketama_points_index)
    then show ?thesis
      using ketama_dispatch_owner [OF pos le sorted [unfolded ring_def], of hash] unfolding ring_def by auto
  qed
  from upd pos le sorted perm dispatch show ?thesis
    unfolding ring_def by blast
qed

text \<open>
  C1: a rebuild of the ketama continuum.  It never leaves the allocated slots, whatever rounding
  does to the shares of the servers; the continuum it leaves is sorted and holds exactly the points
  of the live servers; and every hash is dispatched to a live server.
\<close>

theorem ketama_update_correct:
  assumes "ketama_conf env pool" "sorts_points (qsort env)"
    "live_count (auto_eject_hosts pool) (now env) (servers pool) \<noteq> 0"
  shows "\<exists>pool'. ketama_update env pool = Inr (NC_OK, pool') \<and> continuum_slots 160 pool' \<and>
    0 < ncontinuum pool' \<and> unat (ncontinuum pool') \<le> length (pool_continuum pool') \<and>
    ring_sorted (take (unat (ncontinuum pool')) (pool_continuum pool')) \<and>
    mset (take (unat (ncontinuum pool')) (pool_continuum pool')) = mset (ketama_ring_of env pool) \<and>
    (\<forall>hash. \<exists>j < length (servers pool). live (auto_eject_hosts pool) (now env) (servers pool ! j) \<and>
       ketama_dispatch (pool_continuum pool') (ncontinuum pool') hash = Inr (word_of_nat j))"
  using assms by (rule ketama_rebuild)

lemma demo_ketama_conf: "ketama_conf demo_env (demo_pool DIST_KETAMA)"
  by (simp add: ketama_conf_def demo_defs continuum_slots_def ketama_server_ok_def ketama_name_def bytes_of_def)

theorem ketama_update_correct_witness:
  "\<exists>pool'. ketama_update demo_env (demo_pool DIST_KETAMA) = Inr (NC_OK, pool') \<and>
    0 < ncontinuum pool' \<and>
    (\<forall>hash. \<exists>j < 3. live (auto_eject_hosts (demo_pool DIST_KETAMA)) (now demo_env)
         (servers (demo_pool DIST_KETAMA) ! j) \<and>
       ketama_dispatch (pool_continuum pool') (ncontinuum pool') hash = Inr (word_of_nat j))"
  using ketama_update_correct [OF demo_ketama_conf _ demo_facts(4)] stable.sorts_points_axioms
  unfolding demo_facts(5) by (simp add: demo_env_def) blast

theorem ketama_remove_server_witness:
  "ketama_dispatch [\<lparr>c_index = 7, c_value = 10\<rparr>] 1 15 = Inr 7"
  using ketama_remove_server [of "[\<lparr>c_index = 7, c_value = 10\<rparr>, \<lparr>c_index = 8, c_value = 12\<rparr>]" 15 7 8]
  by (simp add: ring_sorted_def ketama_dispatch_def ketama_search.simps)

end
