(* ===== verification/NC_Parse.thy ===== *)
theory NC_Parse
  imports NC_Prelude
begin

text \<open>
  What the four parsers of src/src/proto share.  A parser is a finite state machine that runs over the
  last mbuf of a message: \<open>for (p = r->pos; p < b->last; p++) switch (state) ...\<close>.  A pointer into
  that mbuf is an offset from its start, the bytes up to \<open>b->last\<close> are a list, and \<open>full\<close> says
  whether \<open>b->last == b->end\<close>.
\<close>

section \<open>Types of nc_message.h\<close>

datatype parse_result = MSG_PARSE_OK | MSG_PARSE_ERROR | MSG_PARSE_REPAIR | MSG_PARSE_AGAIN

text \<open>A key position names the mbuf it points into; a message can hold keys in several.\<close>

record keypos =
  kp_mbuf :: nat
  kp_start :: nat
  kp_end :: nat

text \<open>
  The fields of \<open>struct msg\<close> that the parsers use.  The states and the message types of the two
  protocols are different enumerations, so the record is generic in them.
\<close>

record ('st, 'ty) parse =
  state :: 'st
  pos :: nat
  token :: "nat option"
  result :: parse_result
  mtype :: 'ty
  keys :: "keypos list"
  vlen :: u32
  end_mark :: "nat option"
  narg_start :: "nat option"
  narg_end :: "nat option"
  narg :: u32
  rnarg :: u32
  rlen :: u32
  integer :: u32
  quit :: bool
  noreply :: bool
  noforward :: bool

text \<open>A message as \<open>_msg_get\<close> initialises it; the state 0 and the type 0 are parameters.\<close>

definition msg_fresh :: "'st \<Rightarrow> 'ty \<Rightarrow> ('st, 'ty) parse" where
  "msg_fresh st ty =
     \<lparr>state = st, pos = 0, token = None, result = MSG_PARSE_OK, mtype = ty, keys = [], vlen = 0,
      end_mark = None, narg_start = None, narg_end = None, narg = 0, rnarg = 0, rlen = 0, integer = 0,
      quit = False, noreply = False, noforward = False\<rparr>"

section \<open>The loop\<close>

text \<open>
  How one turn of the loop ends: \<open>Next q\<close> continues with \<open>p = q\<close>, the increment included (so the
  code's \<open>p = p - 1; break\<close> is \<open>Next p\<close>); \<open>Done\<close>, \<open>Fail\<close> and \<open>Enomem\<close> are the jumps to the labels
  \<open>done\<close>, \<open>error\<close> and \<open>enomem\<close>.
\<close>

datatype ctl = Next nat | Done nat | Fail | Enomem

partial_function (option) parse_loop ::
  "(bytes \<Rightarrow> nat \<Rightarrow> 'r \<Rightarrow> 'r \<times> ctl) \<Rightarrow> bytes \<Rightarrow> nat \<Rightarrow> 'r \<Rightarrow> ('r \<times> ctl) option" where
  [code]: "parse_loop step buf p r =
     (if p < length buf
      then case step buf p r of
          (r', Next q) \<Rightarrow> parse_loop step buf q r'
        | (r', c) \<Rightarrow> Some (r', c)
      else Some (r, Next p))"

definition slice :: "bytes \<Rightarrow> nat \<Rightarrow> nat \<Rightarrow> bytes" where
  "slice buf a b = take (b - a) (drop a buf)"

lemma length_slice [simp]: "b \<le> length buf \<Longrightarrow> length (slice buf a b) = b - a"
  by (simp add: slice_def)

lemma slice_append [simp]: "b \<le> length xs \<Longrightarrow> slice (xs @ ys) a b = slice xs a b"
  by (simp add: slice_def drop_append)

lemma nth_slice: "i < b - a \<Longrightarrow> b \<le> length buf \<Longrightarrow> slice buf a b ! i = buf ! (a + i)"
  by (simp add: slice_def)

text \<open>The value of a digit, as the parsers write it: \<open>(uint32_t)(ch - '0')\<close>.\<close>

definition digit :: "u8 \<Rightarrow> u32" where
  "digit ch = ucast (ch - 48)"

text \<open>The bytes of \<open>w\<close> stand at offset \<open>p\<close> of the buffer.\<close>

definition text_at :: "bytes \<Rightarrow> nat \<Rightarrow> bytes \<Rightarrow> bool" where
  "text_at buf p w \<longleftrightarrow> take (length w) (drop p buf) = w"

lemma text_at_Nil [simp]: "text_at buf p []"
  by (simp add: text_at_def)

lemma text_at_Cons [simp]: "text_at buf p (c # w) \<longleftrightarrow> p < length buf \<and> buf ! p = c \<and> text_at buf (Suc p) w"
proof (cases "p < length buf")
  case True
  then have "drop p buf = buf ! p # drop (Suc p) buf" by (simp add: Cons_nth_drop_Suc)
  with True show ?thesis by (simp add: text_at_def)
qed (simp add: text_at_def)

lemma text_at_append [simp]: "text_at buf p (u @ w) \<longleftrightarrow> text_at buf p u \<and> text_at buf (p + length u) w"
  by (induction u arbitrary: p) simp_all

lemma text_at_le: "text_at buf p w \<Longrightarrow> p \<le> length buf \<Longrightarrow> p + length w \<le> length buf"
  by (induction w arbitrary: p) fastforce+

lemma text_at_slice: "text_at buf p w \<Longrightarrow> slice buf p (p + length w) = w"
  by (simp add: text_at_def slice_def)

lemma text_at_prefix: "text_at (w @ rest) 0 w"
  by (simp add: text_at_def)

text \<open>The digits of a number read back as the number.\<close>

lemma digit_of_nat:
  assumes "k < 10"
  shows "isdigit (48 + word_of_nat k)" "digit (48 + word_of_nat k) = word_of_nat k"
proof -
  have "k = 0 \<or> k = 1 \<or> k = 2 \<or> k = 3 \<or> k = 4 \<or> k = 5 \<or> k = 6 \<or> k = 7 \<or> k = 8 \<or> k = 9"
    using assms by arith
  then show "isdigit (48 + word_of_nat k)" "digit (48 + word_of_nat k) = word_of_nat k"
    by (elim disjE; simp add: isdigit_def digit_def)+
qed

lemma decimal_digits: "c \<in> set (decimal n) \<Longrightarrow> isdigit c"
proof (induction n rule: decimal.induct)
  case (1 n)
  then show ?case
    by (cases "n < 10") (auto simp: decimal.simps [of n] digit_of_nat)
qed

lemma decimal_value: "foldl (\<lambda>v c. v * 10 + digit c) 0 (decimal n) = word_of_nat n"
proof (induction n rule: decimal.induct)
  case (1 n)
  show ?case
  proof (cases "n < 10")
    case True
    then show ?thesis by (simp add: decimal.simps digit_of_nat)
  next
    case False
    have "word_of_nat (n div 10) * 10 + word_of_nat (n mod 10) = (word_of_nat n :: u32)"
      by (metis div_mult_mod_eq of_nat_add of_nat_mult of_nat_numeral)
    then show ?thesis using False 1 by (simp add: decimal.simps [of n] digit_of_nat)
  qed
qed

lemma decimal_ne [simp]: "decimal n \<noteq> []"
  by (simp add: decimal.simps [of n])

text \<open>The value of a run of digits, as the machines accumulate it.\<close>

definition number :: "bytes \<Rightarrow> u32" where
  "number = foldl (\<lambda>v c. v * 10 + digit c) 0"

lemma slice_snoc: "a \<le> p \<Longrightarrow> p < length buf \<Longrightarrow> slice buf a (Suc p) = slice buf a p @ [buf ! p]"
  by (simp add: slice_def Suc_diff_le take_Suc_conv_app_nth)

lemma slice_empty [simp]: "b \<le> a \<Longrightarrow> slice buf a b = []"
  by (simp add: slice_def)

lemma number_snoc [simp]: "number (w @ [c]) = number w * 10 + digit c" "number [] = 0"
  by (simp_all add: number_def)

lemma foldl_rlen: "foldl (\<lambda>r c. r\<lparr>rlen := rlen r * 10 + digit c\<rparr>) r w = r\<lparr>rlen := foldl (\<lambda>v c. v * 10 + digit c) (rlen r) w\<rparr>"
  by (induction w arbitrary: r) simp_all

lemma foldl_rnarg:
  "foldl (\<lambda>r c. r\<lparr>rnarg := rnarg r * 10 + digit c\<rparr>) r w = r\<lparr>rnarg := foldl (\<lambda>v c. v * 10 + digit c) (rnarg r) w\<rparr>"
  by (induction w arbitrary: r) simp_all

lemma text_at_slice_prefix: "p \<le> length b1 \<Longrightarrow> text_at (b1 @ b2) a (slice b1 a p)"
  by (auto simp: text_at_def slice_def drop_append)

lemma slice_drop: "slice (drop t buf) a b = slice buf (a + t) (b + t)"
  by (simp add: slice_def add.commute)

lemma isdigit_CR [simp]: "\<not> isdigit CR"
  by (simp add: isdigit_def CR_def)

lemma number_decimal: "number (decimal n) = word_of_nat n"
  by (simp add: number_def decimal_value)

definition shift_ctl :: "nat \<Rightarrow> ctl \<Rightarrow> ctl" where
  "shift_ctl t c = (case c of Next q \<Rightarrow> Next (q + t) | Done q \<Rightarrow> Done (q + t) | Fail \<Rightarrow> Fail | Enomem \<Rightarrow> Enomem)"

text \<open>How a run from \<open>p\<close> that keeps \<open>I\<close> ends.\<close>

definition ends_with ::
  "(bytes \<Rightarrow> nat \<Rightarrow> 'r \<Rightarrow> 'r \<times> ctl) \<Rightarrow> bytes \<Rightarrow> (nat \<Rightarrow> 'r \<Rightarrow> bool) \<Rightarrow> nat \<Rightarrow> 'r \<Rightarrow> ctl \<Rightarrow> bool" where
  "ends_with step buf I p r' c =
     (case c of
        Next q \<Rightarrow> p \<le> q \<and> q = length buf \<and> I q r'
      | Done q \<Rightarrow> p \<le> q \<and> q < length buf \<and> (\<exists>r. I q r \<and> step buf q r = (r', Done q))
      | _ \<Rightarrow> True)"

definition is_Next :: "ctl \<Rightarrow> bool" where
  "is_Next c = (case c of Next _ \<Rightarrow> True | _ \<Rightarrow> False)"

text \<open>
  The surroundings of a run: the identity of the mbuf that is parsed, and whether pushing a key on
  the array of keys finds memory.
\<close>

record parse_env =
  mbuf_id :: nat
  push_ok :: bool

text \<open>A null token gives a word length that matches no command; it is the empty word here.\<close>

definition token_word :: "bytes \<Rightarrow> nat \<Rightarrow> ('st, 'ty) parse \<Rightarrow> bytes" where
  "token_word buf p r = (case token r of Some m \<Rightarrow> slice buf m p | None \<Rightarrow> [])"

lemma token_word_append [simp]: "p \<le> length b1 \<Longrightarrow> token_word (b1 @ b2) p r = token_word b1 p r"
  by (simp add: token_word_def split: option.split)

text \<open>\<open>if (r->token == NULL) r->token = p\<close>\<close>

definition mark_token :: "nat \<Rightarrow> ('st, 'ty) parse \<Rightarrow> ('st, 'ty) parse" where
  "mark_token p r = (if token r = None then r\<lparr>token := Some p\<rparr> else r)"

lemma mark_token_simps [simp]:
  "state (mark_token p r) = state r" "mtype (mark_token p r) = mtype r" "keys (mark_token p r) = keys r"
  "pos (mark_token p r) = pos r" "vlen (mark_token p r) = vlen r" "end_mark (mark_token p r) = end_mark r"
  "narg (mark_token p r) = narg r" "rnarg (mark_token p r) = rnarg r" "rlen (mark_token p r) = rlen r"
  "token (mark_token p r) = (case token r of None \<Rightarrow> Some p | Some t \<Rightarrow> Some t)"
  by (simp_all add: mark_token_def split: option.split)

text \<open>
  The contract of one turn: it never moves back, never leaves the buffer by more than its end, and
  where it stays on a byte a rank of the state decreases.  It is what makes the loop end.
\<close>

locale parser_step =
  fixes step :: "bytes \<Rightarrow> nat \<Rightarrow> 'r \<Rightarrow> 'r \<times> ctl" and rank :: "u8 \<Rightarrow> 'r \<Rightarrow> nat"
  assumes progress: "p < length buf \<Longrightarrow> step buf p r = (r', Next q) \<Longrightarrow>
      p < q \<and> q \<le> length buf \<or> q = p \<and> rank (buf ! p) r' < rank (buf ! p) r"
    and done_pos: "p < length buf \<Longrightarrow> step buf p r = (r', Done q) \<Longrightarrow> q = p"
begin

lemma loop_induct [case_names step]:
  assumes "\<And>p r. (\<And>r' q. p < length buf \<Longrightarrow> step buf p r = (r', Next q) \<Longrightarrow> P q r') \<Longrightarrow> P p r"
  shows "P p r"
proof (induction "(p, r)" arbitrary: p r
    rule: wf_induct_rule [OF wf_measures [of "[\<lambda>(p, r). length buf - p, \<lambda>(p, r). rank (buf ! p) r]"]])
  case (1 p r)
  show ?case
  proof (rule assms)
    fix r' q
    assume "p < length buf" "step buf p r = (r', Next q)"
    then show "P q r'" using progress [of p buf r r' q] by (intro 1) auto
  qed
qed

lemma loop_Next: "p < length buf \<Longrightarrow> step buf p r = (r', Next q) \<Longrightarrow> parse_loop step buf p r = parse_loop step buf q r'"
  by (simp add: parse_loop.simps [of step buf p])

lemma loop_stop: "p < length buf \<Longrightarrow> step buf p r = (r', c) \<Longrightarrow> \<forall>q. c \<noteq> Next q \<Longrightarrow> parse_loop step buf p r = Some (r', c)"
  by (cases c) (simp_all add: parse_loop.simps [of step buf p])

lemma loop_end: "\<not> p < length buf \<Longrightarrow> parse_loop step buf p r = Some (r, Next p)"
  by (simp add: parse_loop.simps [of step buf p])

lemma loop_terminates: "\<exists>r' c. parse_loop step buf p r = Some (r', c)"
proof (induction p r rule: loop_induct [of buf])
  case (step p r)
  show ?case
  proof (cases "p < length buf")
    case True
    obtain r' c where rc: "step buf p r = (r', c)" by force
    show ?thesis
    proof (cases c)
      case (Next q)
      with True rc step [of r' q] show ?thesis by (simp add: loop_Next)
    qed (use True rc in \<open>simp_all add: loop_stop\<close>)
  qed (simp add: loop_end)
qed

text \<open>A change of the message that the turns neither see nor undo passes through the loop.\<close>

lemma loop_commute:
  assumes "\<And>p r. p < length buf \<Longrightarrow> step buf p (f r) = map_prod f id (step buf p r)"
  shows "parse_loop step buf p (f r) = map_option (map_prod f id) (parse_loop step buf p r)"
proof (induction p r rule: loop_induct [of buf])
  case (step p r)
  show ?case
  proof (cases "p < length buf")
    case True
    obtain r' c where rc: "step buf p r = (r', c)" by force
    with assms [OF True, of r] have frc: "step buf p (f r) = (f r', c)" by simp
    show ?thesis
    proof (cases c)
      case (Next q)
      with True rc frc step [of r' q] show ?thesis by (simp add: loop_Next)
    qed (use True rc frc in \<open>simp_all add: loop_stop\<close>)
  qed (simp add: loop_end)
qed

text \<open>Bytes that were copied to the start of another buffer are parsed as where they came from.\<close>

lemma loop_shift:
  assumes "t \<le> length buf"
    and "\<And>p r. p + t < length buf \<Longrightarrow> step buf (p + t) (f r) = map_prod f (shift_ctl t) (step (drop t buf) p r)"
  shows "parse_loop step buf (p + t) (f r) = map_option (map_prod f (shift_ctl t)) (parse_loop step (drop t buf) p r)"
proof (induction p r rule: loop_induct [of "drop t buf"])
  case (step p r)
  show ?case
  proof (cases "p < length (drop t buf)")
    case True
    then have lt: "p + t < length buf" by simp
    obtain r' c where rc: "step (drop t buf) p r = (r', c)" by force
    have frc: "step buf (p + t) (f r) = (f r', shift_ctl t c)"
      using assms(2) [OF lt, of r] rc by simp
    show ?thesis
    proof (cases c)
      case (Next q)
      with lt True rc frc step [of r' q] show ?thesis by (simp add: loop_Next shift_ctl_def)
    qed (use lt True rc frc in \<open>simp_all add: loop_stop shift_ctl_def\<close>)
  next
    case False
    with assms(1) show ?thesis by (simp add: loop_end shift_ctl_def)
  qed
qed

text \<open>
  The same for a relation between the messages, and with a machine for the other buffer that
  differs in its surroundings.
\<close>

lemma loop_related:
  assumes "t \<le> length buf" "R r s"
    and turn: "\<And>p r s. p + t < length buf \<Longrightarrow> R r s \<Longrightarrow>
      rel_prod R (\<lambda>c d. d = shift_ctl t c) (step (drop t buf) p r) (step' buf (p + t) s)"
  shows "rel_option (rel_prod R (\<lambda>c d. d = shift_ctl t c))
    (parse_loop step (drop t buf) p r) (parse_loop step' buf (p + t) s)"
  using assms(2)
proof (induction p r arbitrary: s rule: loop_induct [of "drop t buf"])
  case (step p r)
  show ?case
  proof (cases "p < length (drop t buf)")
    case True
    then have lt: "p + t < length buf" by simp
    obtain r' c where rc: "step (drop t buf) p r = (r', c)" by force
    obtain s' where sc: "step' buf (p + t) s = (s', shift_ctl t c)" and R: "R r' s'"
      using turn [OF lt step.prems] rc by (cases "step' buf (p + t) s") simp
    show ?thesis
    proof (cases c)
      case (Next q)
      with lt True rc sc R step.IH [of r' q s'] show ?thesis
        by (simp add: loop_Next shift_ctl_def parse_loop.simps [of step' buf "p + t"])
    qed (use lt True rc sc R in \<open>simp_all add: loop_stop shift_ctl_def parse_loop.simps [of step' buf "p + t"]\<close>)
  next
    case False
    with assms(1) have "\<not> p + t < length buf" by simp
    with False step.prems show ?thesis
      by (simp add: loop_end shift_ctl_def parse_loop.simps [of step' buf "p + t"])
  qed
qed

text \<open>A run of bytes that the machine takes one by one.\<close>

lemma loop_fold:
  assumes "text_at buf p w" "P r"
    and "\<And>p r c. p < length buf \<Longrightarrow> buf ! p = c \<Longrightarrow> c \<in> set w \<Longrightarrow> P r \<Longrightarrow>
      step buf p r = (f r c, Next (Suc p)) \<and> P (f r c)"
  shows "parse_loop step buf p r = parse_loop step buf (p + length w) (foldl f r w)"
  using assms
proof (induction w arbitrary: p r)
  case (Cons c w)
  have "step buf p r = (f r c, Next (Suc p))" "P (f r c)"
    using Cons.prems(3) [of p c r] Cons.prems(1,2) by simp_all
  moreover have "parse_loop step buf (Suc p) (f r c) = parse_loop step buf (Suc p + length w) (foldl f (f r c) w)"
    using Cons.prems calculation(2) by (intro Cons.IH) auto
  ultimately show ?case using Cons.prems(1) by (simp add: loop_Next)
qed simp

lemma loop_skip:
  assumes "text_at buf p w" "\<And>p c. p < length buf \<Longrightarrow> buf ! p = c \<Longrightarrow> c \<in> set w \<Longrightarrow> step buf p r = (r, Next (Suc p))"
  shows "parse_loop step buf p r = parse_loop step buf (p + length w) r"
proof -
  have "foldl (\<lambda>r c. r) r w = r" by (induction w) simp_all
  then show ?thesis
    using loop_fold [where P = "\<lambda>r'. r' = r" and f = "\<lambda>r c. r", OF assms(1)] assms(2) by simp
qed

text \<open>An invariant of the turns is an invariant of the loop.\<close>

lemma loop_invariant:
  assumes "parse_loop step buf p r = Some (r', c)" "I p r"
    and nxt: "\<And>p r r' q. p < length buf \<Longrightarrow> I p r \<Longrightarrow> step buf p r = (r', Next q) \<Longrightarrow> I q r'"
    and stop: "\<And>p r r' c. p < length buf \<Longrightarrow> I p r \<Longrightarrow> step buf p r = (r', c) \<Longrightarrow> \<forall>q. c \<noteq> Next q \<Longrightarrow> Q r' c"
    and fin: "\<And>p r. I p r \<Longrightarrow> \<not> p < length buf \<Longrightarrow> Q r (Next p)"
  shows "Q r' c"
  using assms(1,2)
proof (induction p r rule: loop_induct [of buf])
  case (step p r)
  show ?case
  proof (cases "p < length buf")
    case True
    obtain r1 c1 where rc: "step buf p r = (r1, c1)" by force
    show ?thesis
    proof (cases "\<exists>q. c1 = Next q")
      case Next: True
      then obtain q where "c1 = Next q" by blast
      with True rc step.prems step.IH [of r1 q] nxt [of p r r1 q] show ?thesis
        by (simp add: loop_Next)
    next
      case False
      with True rc step.prems stop [of p r r1 c1] show ?thesis by (simp add: loop_stop)
    qed
  next
    case False
    with step.prems fin show ?thesis by (auto simp: loop_end)
  qed
qed

text \<open>What an invariant of the turns says about the way the loop ends.\<close>

lemma loop_post:
  assumes "parse_loop step buf p r = Some (r', c)" "I p r" "p \<le> length buf"
    and nxt: "\<And>p r r' q. p < length buf \<Longrightarrow> I p r \<Longrightarrow> step buf p r = (r', Next q) \<Longrightarrow> I q r'"
  shows "ends_with step buf I p r' c"
  using assms(1)
proof (rule loop_invariant [where I = "\<lambda>q r. p \<le> q \<and> q \<le> length buf \<and> I q r"])
  show "p \<le> p \<and> p \<le> length buf \<and> I p r" using assms by simp
next
  fix p1 r1 r2 q
  assume *: "p1 < length buf" "p \<le> p1 \<and> p1 \<le> length buf \<and> I p1 r1" "step buf p1 r1 = (r2, Next q)"
  then show "p \<le> q \<and> q \<le> length buf \<and> I q r2"
    using progress [OF *(1,3)] nxt [of p1 r1 r2 q] by auto
next
  fix p1 r1 r2 c
  assume "p1 < length buf" "p \<le> p1 \<and> p1 \<le> length buf \<and> I p1 r1" "step buf p1 r1 = (r2, c)" "\<forall>q. c \<noteq> Next q"
  then show "ends_with step buf I p r2 c"
    using done_pos [of p1 buf r1 r2] by (cases c) (auto simp: ends_with_def)
qed (simp add: ends_with_def)

text \<open>
  Where the loop runs off the end of the buffer, it stops exactly at the end.
\<close>

lemma loop_end_pos:
  assumes "parse_loop step buf p r = Some (r', Next q)" "p \<le> length buf"
  shows "q = length buf"
  using assms(1)
proof (rule loop_invariant [where I = "\<lambda>p r. p \<le> length buf" and Q = "\<lambda>r c. \<forall>q. c = Next q \<longrightarrow> q = length buf", THEN spec, THEN mp])
  show "p \<le> length buf" by (fact assms(2))
qed (use progress in fastforce)+

lemma loop_done_pos:
  assumes "parse_loop step buf p r = Some (r', Done q)"
  shows "q < length buf"
  using assms
  by (rule loop_invariant [where I = "\<lambda>p r. True" and Q = "\<lambda>r c. \<forall>q. c = Done q \<longrightarrow> q < length buf", THEN spec, THEN mp])
    (auto dest: done_pos)

end

text \<open>
  The contract that makes the way the bytes arrive irrelevant: a turn on the first part of the
  bytes is the same turn on all of them; or it has used up the first part, and going on from its
  end on all the bytes gives what the turn gives on all the bytes, up to an observation.
\<close>

locale chunked_step = parser_step +
  fixes obs :: "'a \<times> ctl \<Rightarrow> 'o"
  assumes chunk: "p < length b1 \<Longrightarrow> step b1 p r = (r1, c) \<Longrightarrow>
      step (b1 @ b2) p r = (r1, c) \<or>
      c = Next (length b1) \<and>
      map_option obs (parse_loop step (b1 @ b2) p r) = map_option obs (parse_loop step (b1 @ b2) (length b1) r1)"
begin

lemma loop_chunk:
  assumes "parse_loop step b1 p r = Some (r1, Next q)" "p \<le> length b1"
  shows "map_option obs (parse_loop step (b1 @ b2) p r) = map_option obs (parse_loop step (b1 @ b2) q r1)"
  using assms
proof (induction p r rule: loop_induct [of b1])
  case (step p r)
  show ?case
  proof (cases "p < length b1")
    case True
    obtain r2 c where rc: "step b1 p r = (r2, c)" by force
    with True step.prems loop_stop [OF True rc] obtain q2 where c: "c = Next q2" by fastforce
    have le: "q2 \<le> length b1" using progress [OF True, of r r2 q2] rc c True by auto
    have loop: "parse_loop step b1 q2 r2 = Some (r1, Next q)"
      using step.prems(1) True rc c by (simp add: loop_Next)
    note IH = step.IH [OF True rc [unfolded c] loop le]
    show ?thesis
    proof (cases "step (b1 @ b2) p r = (r2, c)")
      case True
      with IH c \<open>p < length b1\<close> show ?thesis by (simp add: loop_Next)
    next
      case False
      with chunk [OF True rc, of b2] c IH show ?thesis by auto
    qed
  next
    case False
    with step.prems show ?thesis by (simp add: loop_end)
  qed
qed

lemma loop_chunk_stop:
  assumes "parse_loop step b1 p r = Some (r1, c)" "\<forall>q. c \<noteq> Next q" "p \<le> length b1"
  shows "parse_loop step (b1 @ b2) p r = Some (r1, c)"
  using assms
proof (induction p r rule: loop_induct [of b1])
  case (step p r)
  show ?case
  proof (cases "p < length b1")
    case True
    obtain r2 c2 where rc: "step b1 p r = (r2, c2)" by force
    have same: "step (b1 @ b2) p r = (r2, c2)"
    proof (rule ccontr)
      assume "step (b1 @ b2) p r \<noteq> (r2, c2)"
      with chunk [OF True rc, of b2] have "c2 = Next (length b1)" by blast
      with step.prems True rc show False by (auto simp: loop_Next loop_end)
    qed
    show ?thesis
    proof (cases "\<exists>q. c2 = Next q")
      case ex: True
      then obtain q where c2: "c2 = Next q" by blast
      have "q \<le> length b1" using progress [OF True, of r r2 q] rc c2 True by auto
      with step.IH [OF True rc [unfolded c2]] step.prems True rc same c2 show ?thesis
        by (simp add: loop_Next)
    next
      case False
      with step.prems True rc same show ?thesis by (simp add: loop_stop)
    qed
  next
    case False
    with step.prems show ?thesis by (auto simp: loop_end)
  qed
qed

end

end
