(* ===== verification/NC_McReq.thy ===== *)
theory NC_McReq
  imports NC_Parse
begin

text \<open>
  The memcache request parser: \<open>memcache_parse_req\<close> of src/src/proto/nc_memcache.c, one definition
  per state of its machine.
\<close>

section \<open>Message types and predicates\<close>

text \<open>The memcache part of \<open>msg_type_t\<close>, in the order of nc_message.h.\<close>

datatype mc_type =
    MSG_UNKNOWN
  | MSG_REQ_MC_GET | MSG_REQ_MC_GETS
  | MSG_REQ_MC_DELETE
  | MSG_REQ_MC_CAS
  | MSG_REQ_MC_SET | MSG_REQ_MC_ADD | MSG_REQ_MC_REPLACE | MSG_REQ_MC_APPEND | MSG_REQ_MC_PREPEND
  | MSG_REQ_MC_INCR | MSG_REQ_MC_DECR
  | MSG_REQ_MC_TOUCH
  | MSG_REQ_MC_QUIT
  | MSG_RSP_MC_NUM
  | MSG_RSP_MC_STORED | MSG_RSP_MC_NOT_STORED | MSG_RSP_MC_EXISTS | MSG_RSP_MC_NOT_FOUND
  | MSG_RSP_MC_END | MSG_RSP_MC_VALUE
  | MSG_RSP_MC_DELETED
  | MSG_RSP_MC_TOUCHED
  | MSG_RSP_MC_ERROR | MSG_RSP_MC_CLIENT_ERROR | MSG_RSP_MC_SERVER_ERROR

definition MEMCACHE_MAX_KEY_LENGTH :: nat where "MEMCACHE_MAX_KEY_LENGTH = 250"

definition memcache_storage :: "mc_type \<Rightarrow> bool" where
  "memcache_storage t =
     (t = MSG_REQ_MC_SET \<or> t = MSG_REQ_MC_CAS \<or> t = MSG_REQ_MC_ADD \<or> t = MSG_REQ_MC_REPLACE \<or>
      t = MSG_REQ_MC_APPEND \<or> t = MSG_REQ_MC_PREPEND)"

definition memcache_cas :: "mc_type \<Rightarrow> bool" where
  "memcache_cas t = (t = MSG_REQ_MC_CAS)"

definition memcache_retrieval :: "mc_type \<Rightarrow> bool" where
  "memcache_retrieval t = (t = MSG_REQ_MC_GET \<or> t = MSG_REQ_MC_GETS)"

definition memcache_arithmetic :: "mc_type \<Rightarrow> bool" where
  "memcache_arithmetic t = (t = MSG_REQ_MC_INCR \<or> t = MSG_REQ_MC_DECR)"

definition memcache_delete :: "mc_type \<Rightarrow> bool" where
  "memcache_delete t = (t = MSG_REQ_MC_DELETE)"

definition memcache_touch :: "mc_type \<Rightarrow> bool" where
  "memcache_touch t = (t = MSG_REQ_MC_TOUCH)"

lemmas memcache_kind_defs =
  memcache_storage_def memcache_cas_def memcache_retrieval_def memcache_arithmetic_def
  memcache_delete_def memcache_touch_def

section \<open>The states\<close>

datatype mcq_state =
    Q_START | Q_REQ_TYPE | Q_SPACES_BEFORE_KEY | Q_KEY | Q_SPACES_BEFORE_KEYS
  | Q_SPACES_BEFORE_FLAGS | Q_FLAGS | Q_SPACES_BEFORE_EXPIRY | Q_EXPIRY | Q_SPACES_BEFORE_VLEN
  | Q_VLEN | Q_SPACES_BEFORE_CAS | Q_CAS | Q_RUNTO_VAL | Q_VAL | Q_SPACES_BEFORE_NUM | Q_NUM
  | Q_RUNTO_CRLF | Q_CRLF | Q_NOREPLY | Q_AFTER_NOREPLY | Q_ALMOST_DONE

type_synonym mcq = "(mcq_state, mc_type) parse"

definition mcq_start :: "u8 \<Rightarrow> nat \<Rightarrow> mcq \<Rightarrow> mcq \<times> ctl" where
  "mcq_start ch p r =
     (if ch = SPACE then (r, Next (p + 1))
      else if \<not> islower ch then (r, Fail)
      else (r\<lparr>token := Some p, state := Q_REQ_TYPE\<rparr>, Next (p + 1)))"

text \<open>
  The command word.  The comparisons of three letter commands take the byte after the word into
  account (\<open>str4cmp(m, 'g', 'e', 't', ' ')\<close>).  The longer ones compare whole words of four bytes
  and mask, which reads but never uses bytes behind the word.
\<close>

definition mcq_command :: "bytes \<Rightarrow> u8 \<Rightarrow> mc_type" where
  "mcq_command m ch =
     (if m @ [ch] = bytes_of ''get '' then MSG_REQ_MC_GET
      else if m @ [ch] = bytes_of ''set '' then MSG_REQ_MC_SET
      else if m @ [ch] = bytes_of ''add '' then MSG_REQ_MC_ADD
      else if m @ [ch] = bytes_of ''cas '' then MSG_REQ_MC_CAS
      else if m = bytes_of ''gets'' then MSG_REQ_MC_GETS
      else if m = bytes_of ''incr'' then MSG_REQ_MC_INCR
      else if m = bytes_of ''decr'' then MSG_REQ_MC_DECR
      else if m = bytes_of ''quit'' then MSG_REQ_MC_QUIT
      else if m = bytes_of ''touch'' then MSG_REQ_MC_TOUCH
      else if m = bytes_of ''append'' then MSG_REQ_MC_APPEND
      else if m = bytes_of ''delete'' then MSG_REQ_MC_DELETE
      else if m = bytes_of ''prepend'' then MSG_REQ_MC_PREPEND
      else if m = bytes_of ''replace'' then MSG_REQ_MC_REPLACE
      else MSG_UNKNOWN)"

definition mcq_req_type :: "bytes \<Rightarrow> u8 \<Rightarrow> nat \<Rightarrow> mcq \<Rightarrow> mcq \<times> ctl" where
  "mcq_req_type buf ch p r =
     (if ch = SPACE \<or> ch = CR then
        let t = mcq_command (token_word buf p r) ch;
            r = r\<lparr>token := None, mtype := t, narg := narg r + 1,
                  quit := (if t = MSG_REQ_MC_QUIT then True else quit r)\<rparr>
        in if t = MSG_UNKNOWN then (r, Fail)
           else if t = MSG_REQ_MC_QUIT then (r\<lparr>state := Q_CRLF\<rparr>, Next p)
           else if ch = CR then (r, Fail)
           else (r\<lparr>state := Q_SPACES_BEFORE_KEY\<rparr>, Next (p + 1))
      else if \<not> islower ch then (r, Fail)
      else (r, Next (p + 1)))"

definition mcq_spaces_before_key :: "u8 \<Rightarrow> nat \<Rightarrow> mcq \<Rightarrow> mcq \<times> ctl" where
  "mcq_spaces_before_key ch p r =
     (if ch \<noteq> SPACE then (r\<lparr>token := None, state := Q_KEY\<rparr>, Next p) else (r, Next (p + 1)))"

definition mcq_key_next :: "mc_type \<Rightarrow> mcq_state" where
  "mcq_key_next t =
     (if memcache_storage t then Q_SPACES_BEFORE_FLAGS
      else if memcache_arithmetic t \<or> memcache_touch t then Q_SPACES_BEFORE_NUM
      else if memcache_delete t then Q_RUNTO_CRLF
      else if memcache_retrieval t then Q_SPACES_BEFORE_KEYS
      else Q_RUNTO_CRLF)"

definition mcq_key :: "parse_env \<Rightarrow> u8 \<Rightarrow> nat \<Rightarrow> mcq \<Rightarrow> mcq \<times> ctl" where
  "mcq_key env ch p r =
     (let start = (case token r of None \<Rightarrow> p | Some t \<Rightarrow> t);
          r = r\<lparr>token := Some start\<rparr>;
          keylen = p - start
      in
      if ch = SPACE \<or> ch = CR then
        if keylen > MEMCACHE_MAX_KEY_LENGTH then (r, Fail)
        else if keylen = 0 then (r, Fail)
        else if \<not> push_ok env then (r, Enomem)
        else
          let r = r\<lparr>keys := keys r @ [\<lparr>kp_mbuf = mbuf_id env, kp_start = start, kp_end = p\<rparr>],
                    narg := narg r + 1, token := None, state := mcq_key_next (mtype r)\<rparr>
          in if ch = CR then
               if memcache_storage (mtype r) \<or> memcache_arithmetic (mtype r) then (r, Fail)
               else (r, Next p)
             else (r, Next (p + 1))
      else (r, Next (p + 1)))"

definition mcq_spaces_before_keys :: "u8 \<Rightarrow> nat \<Rightarrow> mcq \<Rightarrow> mcq \<times> ctl" where
  "mcq_spaces_before_keys ch p r =
     (if ch = SPACE then (r, Next (p + 1))
      else if ch = CR then (r\<lparr>state := Q_ALMOST_DONE\<rparr>, Next (p + 1))
      else (r\<lparr>token := None, state := Q_KEY\<rparr>, Next p))"

definition mcq_spaces_before_flags :: "u8 \<Rightarrow> nat \<Rightarrow> mcq \<Rightarrow> mcq \<times> ctl" where
  "mcq_spaces_before_flags ch p r =
     (if ch \<noteq> SPACE then
        if \<not> isdigit ch then (r, Fail) else (r\<lparr>token := Some p, state := Q_FLAGS\<rparr>, Next (p + 1))
      else (r, Next (p + 1)))"

definition mcq_flags :: "u8 \<Rightarrow> nat \<Rightarrow> mcq \<Rightarrow> mcq \<times> ctl" where
  "mcq_flags ch p r =
     (if isdigit ch then (r, Next (p + 1))
      else if ch = SPACE then (r\<lparr>token := None, state := Q_SPACES_BEFORE_EXPIRY\<rparr>, Next (p + 1))
      else (r, Fail))"

definition mcq_spaces_before_expiry :: "u8 \<Rightarrow> nat \<Rightarrow> mcq \<Rightarrow> mcq \<times> ctl" where
  "mcq_spaces_before_expiry ch p r =
     (if ch \<noteq> SPACE then
        if \<not> isdigit ch then (r, Fail) else (r\<lparr>token := Some p, state := Q_EXPIRY\<rparr>, Next (p + 1))
      else (r, Next (p + 1)))"

definition mcq_expiry :: "u8 \<Rightarrow> nat \<Rightarrow> mcq \<Rightarrow> mcq \<times> ctl" where
  "mcq_expiry ch p r =
     (if isdigit ch then (r, Next (p + 1))
      else if ch = SPACE then (r\<lparr>token := None, state := Q_SPACES_BEFORE_VLEN\<rparr>, Next (p + 1))
      else (r, Fail))"

text \<open>The digits of the value length accumulate in 32 bits without a test for overflow.\<close>

definition mcq_spaces_before_vlen :: "u8 \<Rightarrow> nat \<Rightarrow> mcq \<Rightarrow> mcq \<times> ctl" where
  "mcq_spaces_before_vlen ch p r =
     (if ch \<noteq> SPACE then
        if \<not> isdigit ch then (r, Fail) else (r\<lparr>vlen := digit ch, state := Q_VLEN\<rparr>, Next (p + 1))
      else (r, Next (p + 1)))"

definition mcq_vlen :: "u8 \<Rightarrow> nat \<Rightarrow> mcq \<Rightarrow> mcq \<times> ctl" where
  "mcq_vlen ch p r =
     (if isdigit ch then (r\<lparr>vlen := vlen r * 10 + digit ch\<rparr>, Next (p + 1))
      else if memcache_cas (mtype r) then
        if ch \<noteq> SPACE then (r, Fail)
        else (r\<lparr>token := None, state := Q_SPACES_BEFORE_CAS\<rparr>, Next p)
      else if ch = SPACE \<or> ch = CR then (r\<lparr>token := None, state := Q_RUNTO_CRLF\<rparr>, Next p)
      else (r, Fail))"

definition mcq_spaces_before_cas :: "u8 \<Rightarrow> nat \<Rightarrow> mcq \<Rightarrow> mcq \<times> ctl" where
  "mcq_spaces_before_cas ch p r =
     (if ch \<noteq> SPACE then
        if \<not> isdigit ch then (r, Fail) else (r\<lparr>token := Some p, state := Q_CAS\<rparr>, Next (p + 1))
      else (r, Next (p + 1)))"

definition mcq_cas :: "u8 \<Rightarrow> nat \<Rightarrow> mcq \<Rightarrow> mcq \<times> ctl" where
  "mcq_cas ch p r =
     (if isdigit ch then (r, Next (p + 1))
      else if ch = SPACE \<or> ch = CR then (r\<lparr>token := None, state := Q_RUNTO_CRLF\<rparr>, Next p)
      else (r, Fail))"

definition mcq_runto_val :: "u8 \<Rightarrow> nat \<Rightarrow> mcq \<Rightarrow> mcq \<times> ctl" where
  "mcq_runto_val ch p r = (if ch = LF then (r\<lparr>state := Q_VAL\<rparr>, Next (p + 1)) else (r, Fail))"

text \<open>
  The value is skipped: \<open>m\<close> is where it ends.  When that is outside the mbuf, what is left of the
  value is remembered in \<open>vlen\<close>.
\<close>

definition mcq_val :: "bytes \<Rightarrow> nat \<Rightarrow> mcq \<Rightarrow> mcq \<times> ctl" where
  "mcq_val buf p r =
     (let m = p + unat (vlen r) in
      if length buf \<le> m
      then (r\<lparr>vlen := vlen r - word_of_nat (length buf - p)\<rparr>, Next (length buf))
      else if buf ! m = CR then (r\<lparr>state := Q_ALMOST_DONE\<rparr>, Next (m + 1))
      else (r, Fail))"

definition mcq_spaces_before_num :: "u8 \<Rightarrow> nat \<Rightarrow> mcq \<Rightarrow> mcq \<times> ctl" where
  "mcq_spaces_before_num ch p r =
     (if ch \<noteq> SPACE then
        if \<not> (isdigit ch \<or> ch = 45) then (r, Fail)
        else (r\<lparr>token := Some p, state := Q_NUM\<rparr>, Next (p + 1))
      else (r, Next (p + 1)))"

definition mcq_num :: "u8 \<Rightarrow> nat \<Rightarrow> mcq \<Rightarrow> mcq \<times> ctl" where
  "mcq_num ch p r =
     (if isdigit ch then (r, Next (p + 1))
      else if ch = SPACE \<or> ch = CR then (r\<lparr>token := None, state := Q_RUNTO_CRLF\<rparr>, Next p)
      else (r, Fail))"

definition may_noreply :: "mc_type \<Rightarrow> bool" where
  "may_noreply t = (memcache_storage t \<or> memcache_arithmetic t \<or> memcache_delete t \<or> memcache_touch t)"

definition mcq_line_end :: "mc_type \<Rightarrow> mcq_state" where
  "mcq_line_end t = (if memcache_storage t then Q_RUNTO_VAL else Q_ALMOST_DONE)"

definition mcq_runto_crlf :: "u8 \<Rightarrow> nat \<Rightarrow> mcq \<Rightarrow> mcq \<times> ctl" where
  "mcq_runto_crlf ch p r =
     (if ch = SPACE then (r, Next (p + 1))
      else if ch = 110 then
        if may_noreply (mtype r) then (r\<lparr>token := Some p, state := Q_NOREPLY\<rparr>, Next (p + 1))
        else (r, Fail)
      else if ch = CR then (r\<lparr>state := mcq_line_end (mtype r)\<rparr>, Next (p + 1))
      else (r, Fail))"

definition mcq_noreply :: "bytes \<Rightarrow> u8 \<Rightarrow> nat \<Rightarrow> mcq \<Rightarrow> mcq \<times> ctl" where
  "mcq_noreply buf ch p r =
     (if ch = SPACE \<or> ch = CR then
        if token_word buf p r = bytes_of ''noreply''
        then (r\<lparr>token := None, noreply := True, state := Q_AFTER_NOREPLY\<rparr>, Next p)
        else (r, Fail)
      else (r, Next (p + 1)))"

definition mcq_after_noreply :: "u8 \<Rightarrow> nat \<Rightarrow> mcq \<Rightarrow> mcq \<times> ctl" where
  "mcq_after_noreply ch p r =
     (if ch = SPACE then (r, Next (p + 1))
      else if ch = CR then (r\<lparr>state := mcq_line_end (mtype r)\<rparr>, Next (p + 1))
      else (r, Fail))"

definition mcq_crlf :: "u8 \<Rightarrow> nat \<Rightarrow> mcq \<Rightarrow> mcq \<times> ctl" where
  "mcq_crlf ch p r =
     (if ch = SPACE then (r, Next (p + 1))
      else if ch = CR then (r\<lparr>state := Q_ALMOST_DONE\<rparr>, Next (p + 1))
      else (r, Fail))"

definition mcq_almost_done :: "u8 \<Rightarrow> nat \<Rightarrow> mcq \<Rightarrow> mcq \<times> ctl" where
  "mcq_almost_done ch p r = (if ch = LF then (r, Done p) else (r, Fail))"

definition mcq_step :: "parse_env \<Rightarrow> bytes \<Rightarrow> nat \<Rightarrow> mcq \<Rightarrow> mcq \<times> ctl" where
  "mcq_step env buf p r =
     (let ch = buf ! p in
      case state r of
        Q_START \<Rightarrow> mcq_start ch p r
      | Q_REQ_TYPE \<Rightarrow> mcq_req_type buf ch p r
      | Q_SPACES_BEFORE_KEY \<Rightarrow> mcq_spaces_before_key ch p r
      | Q_KEY \<Rightarrow> mcq_key env ch p r
      | Q_SPACES_BEFORE_KEYS \<Rightarrow> mcq_spaces_before_keys ch p r
      | Q_SPACES_BEFORE_FLAGS \<Rightarrow> mcq_spaces_before_flags ch p r
      | Q_FLAGS \<Rightarrow> mcq_flags ch p r
      | Q_SPACES_BEFORE_EXPIRY \<Rightarrow> mcq_spaces_before_expiry ch p r
      | Q_EXPIRY \<Rightarrow> mcq_expiry ch p r
      | Q_SPACES_BEFORE_VLEN \<Rightarrow> mcq_spaces_before_vlen ch p r
      | Q_VLEN \<Rightarrow> mcq_vlen ch p r
      | Q_SPACES_BEFORE_CAS \<Rightarrow> mcq_spaces_before_cas ch p r
      | Q_CAS \<Rightarrow> mcq_cas ch p r
      | Q_RUNTO_VAL \<Rightarrow> mcq_runto_val ch p r
      | Q_VAL \<Rightarrow> mcq_val buf p r
      | Q_SPACES_BEFORE_NUM \<Rightarrow> mcq_spaces_before_num ch p r
      | Q_NUM \<Rightarrow> mcq_num ch p r
      | Q_RUNTO_CRLF \<Rightarrow> mcq_runto_crlf ch p r
      | Q_CRLF \<Rightarrow> mcq_crlf ch p r
      | Q_NOREPLY \<Rightarrow> mcq_noreply buf ch p r
      | Q_AFTER_NOREPLY \<Rightarrow> mcq_after_noreply ch p r
      | Q_ALMOST_DONE \<Rightarrow> mcq_almost_done ch p r)"

section \<open>The parser\<close>

text \<open>What follows the loop: the end of the buffer, and the labels \<open>done\<close>, \<open>enomem\<close> and \<open>error\<close>.\<close>

definition mcq_finish :: "bool \<Rightarrow> mcq \<Rightarrow> ctl \<Rightarrow> mcq" where
  "mcq_finish full r c =
     (case c of
        Next p \<Rightarrow>
          (case token r of
             Some t \<Rightarrow>
               if full then r\<lparr>pos := t, token := None, result := MSG_PARSE_REPAIR\<rparr>
               else r\<lparr>pos := p, result := MSG_PARSE_AGAIN\<rparr>
           | None \<Rightarrow> r\<lparr>pos := p, result := MSG_PARSE_AGAIN\<rparr>)
      | Done p \<Rightarrow> r\<lparr>pos := p + 1, state := Q_START, result := MSG_PARSE_OK\<rparr>
      | Fail \<Rightarrow> r\<lparr>result := MSG_PARSE_ERROR\<rparr>
      | Enomem \<Rightarrow> r\<lparr>result := MSG_PARSE_ERROR\<rparr>)"

definition memcache_parse_req :: "parse_env \<Rightarrow> bytes \<Rightarrow> bool \<Rightarrow> mcq \<Rightarrow> mcq option" where
  "memcache_parse_req env buf full r =
     map_option (\<lambda>(r, c). mcq_finish full r c) (parse_loop (mcq_step env) buf (pos r) r)"

section \<open>Termination\<close>

text \<open>
  A turn that steps back by one byte stays where it is; this rank of the state, for the byte it
  stays on, goes down.
\<close>

definition mcq_rank :: "u8 \<Rightarrow> mcq \<Rightarrow> nat" where
  "mcq_rank ch r =
     (case state r of
        Q_SPACES_BEFORE_KEY \<Rightarrow> 2
      | Q_KEY \<Rightarrow> (if ch = CR then 1 else 0)
      | Q_SPACES_BEFORE_KEYS \<Rightarrow> (if ch = SPACE \<or> ch = CR then 0 else 1)
      | Q_REQ_TYPE \<Rightarrow> 1 | Q_VLEN \<Rightarrow> 1 | Q_CAS \<Rightarrow> 1 | Q_NUM \<Rightarrow> 1 | Q_NOREPLY \<Rightarrow> 1
      | _ \<Rightarrow> 0)"

lemmas mcq_state_defs =
  mcq_start_def mcq_req_type_def mcq_spaces_before_key_def mcq_key_def mcq_spaces_before_keys_def
  mcq_spaces_before_flags_def mcq_flags_def mcq_spaces_before_expiry_def mcq_expiry_def
  mcq_spaces_before_vlen_def mcq_vlen_def mcq_spaces_before_cas_def mcq_cas_def mcq_runto_val_def
  mcq_val_def mcq_spaces_before_num_def mcq_num_def mcq_runto_crlf_def mcq_crlf_def mcq_noreply_def
  mcq_after_noreply_def mcq_almost_done_def Let_def

lemmas byte_defs = SPACE_def CR_def LF_def

interpretation mcq: parser_step "mcq_step env" mcq_rank for env
proof unfold_locales
  fix p q :: nat and buf :: bytes and r r' :: mcq
  assume "p < length buf"
  show "p < q \<and> q \<le> length buf \<or> q = p \<and> mcq_rank (buf ! p) r' < mcq_rank (buf ! p) r"
    if "mcq_step env buf p r = (r', Next q)"
    using \<open>p < length buf\<close> that
    by (cases "state r")
      (auto simp: mcq_step_def mcq_state_defs mcq_rank_def mcq_key_next_def byte_defs split: if_splits)
  show "q = p" if "mcq_step env buf p r = (r', Done q)"
    using that
    by (cases "state r") (auto simp: mcq_step_def mcq_state_defs split: if_splits)
qed

section \<open>What the parser guarantees\<close>

definition key_byte :: "u8 \<Rightarrow> bool" where
  "key_byte c \<longleftrightarrow> c \<noteq> SPACE \<and> c \<noteq> CR"

definition mcq_key_ok :: "parse_env \<Rightarrow> bytes \<Rightarrow> nat \<Rightarrow> keypos \<Rightarrow> bool" where
  "mcq_key_ok env buf p k \<longleftrightarrow>
     (kp_mbuf k = mbuf_id env \<longrightarrow>
      kp_start k < kp_end k \<and> kp_end k \<le> p \<and> kp_end k - kp_start k \<le> MEMCACHE_MAX_KEY_LENGTH \<and>
      (\<forall>i. kp_start k \<le> i \<and> i < kp_end k \<longrightarrow> key_byte (buf ! i)))"

definition mcq_typed :: "mc_type \<Rightarrow> bool" where
  "mcq_typed t \<longleftrightarrow> may_noreply t \<or> memcache_retrieval t"

text \<open>
  The number of keys that a state allows: none before the first key, one after it, more only for
  retrieval commands, none for \<open>quit\<close>.
\<close>

definition mcq_keyed :: "mc_type \<Rightarrow> nat \<Rightarrow> bool" where
  "mcq_keyed t n \<longleftrightarrow> mcq_typed t \<and> 0 < n \<and> (n = 1 \<or> memcache_retrieval t)"

definition mcq_nkeys_ok :: "mcq_state \<Rightarrow> mc_type \<Rightarrow> nat \<Rightarrow> bool" where
  "mcq_nkeys_ok st t n \<longleftrightarrow>
     (case st of
        Q_START \<Rightarrow> n = 0
      | Q_REQ_TYPE \<Rightarrow> n = 0
      | Q_SPACES_BEFORE_KEY \<Rightarrow> mcq_typed t \<and> n = 0
      | Q_KEY \<Rightarrow> mcq_typed t \<and> (n \<noteq> 0 \<longrightarrow> memcache_retrieval t)
      | Q_SPACES_BEFORE_KEYS \<Rightarrow> memcache_retrieval t \<and> 0 < n
      | Q_CRLF \<Rightarrow> t = MSG_REQ_MC_QUIT \<and> n = 0
      | Q_ALMOST_DONE \<Rightarrow> t = MSG_REQ_MC_QUIT \<and> n = 0 \<or> mcq_keyed t n
      | _ \<Rightarrow> mcq_keyed t n)"

definition mcq_inv :: "parse_env \<Rightarrow> bytes \<Rightarrow> nat \<Rightarrow> mcq \<Rightarrow> bool" where
  "mcq_inv env buf p r \<longleftrightarrow>
     (\<forall>t. token r = Some t \<longrightarrow> t \<le> p) \<and>
     (\<forall>k \<in> set (keys r). mcq_key_ok env buf p k) \<and>
     (\<forall>t i. state r = Q_KEY \<and> token r = Some t \<and> t \<le> i \<and> i < p \<longrightarrow> key_byte (buf ! i)) \<and>
     mcq_nkeys_ok (state r) (mtype r) (length (keys r))"

lemma mcq_key_ok_mono: "mcq_key_ok env buf p k \<Longrightarrow> p \<le> q \<Longrightarrow> mcq_key_ok env buf q k"
  by (auto simp: mcq_key_ok_def)

lemma mcq_command_typed:
  "mcq_command m ch = MSG_UNKNOWN \<or> mcq_command m ch = MSG_REQ_MC_QUIT \<or> mcq_typed (mcq_command m ch)"
  by (simp add: mcq_command_def mcq_typed_def may_noreply_def memcache_kind_defs)

lemma mcq_key_next_nkeys:
  "mcq_typed t \<Longrightarrow> (n \<noteq> 0 \<longrightarrow> memcache_retrieval t) \<Longrightarrow> mcq_nkeys_ok (mcq_key_next t) t (Suc n)"
  by (auto simp: mcq_nkeys_ok_def mcq_key_next_def mcq_keyed_def)

lemma mcq_line_end_nkeys: "mcq_keyed t n \<Longrightarrow> mcq_nkeys_ok (mcq_line_end t) t n"
  by (simp add: mcq_nkeys_ok_def mcq_line_end_def)

lemma mcq_retrieval_keyed: "memcache_retrieval t \<Longrightarrow> 0 < n \<Longrightarrow> mcq_keyed t n \<and> mcq_typed t"
  by (simp add: mcq_keyed_def mcq_typed_def)

lemma mcq_nkeys_step:
  assumes "mcq_step env buf p r = (r', Next q)" "mcq_nkeys_ok (state r) (mtype r) (length (keys r))"
  shows "mcq_nkeys_ok (state r') (mtype r') (length (keys r'))"
proof (cases "state r")
  case Q_REQ_TYPE
  define t where "t = mcq_command (token_word buf p r) (buf ! p)"
  have "t = MSG_UNKNOWN \<or> t = MSG_REQ_MC_QUIT \<or> mcq_typed t"
    unfolding t_def by (rule mcq_command_typed)
  with Q_REQ_TYPE assms show ?thesis
    by (auto simp: mcq_step_def mcq_req_type_def mcq_nkeys_ok_def Let_def simp flip: t_def split: if_splits)
next
  case Q_KEY
  with assms mcq_key_next_nkeys [of "mtype r" "length (keys r)"] show ?thesis
    by (auto simp: mcq_step_def mcq_key_def mcq_nkeys_ok_def [of Q_KEY] Let_def split: if_splits)
qed (use assms in \<open>auto simp: mcq_step_def mcq_state_defs mcq_nkeys_ok_def [of "state r"]
    mcq_line_end_nkeys mcq_retrieval_keyed split: if_splits, (auto simp: mcq_nkeys_ok_def mcq_line_end_def mcq_keyed_def mcq_typed_def)\<close>)

lemma mcq_token_step:
  assumes "mcq_step env buf p r = (r', Next q)" "p \<le> q" "\<And>t. token r = Some t \<Longrightarrow> t \<le> p" "token r' = Some t"
  shows "t \<le> q"
  using assms
  by (cases "state r")
    (auto simp: mcq_step_def mcq_state_defs split: if_splits option.splits dest: assms(3))

lemma mcq_key_bytes_step:
  assumes "mcq_step env buf p r = (r', Next q)" "state r' = Q_KEY" "token r' = Some t" "t \<le> i" "i < q"
    and "state r = Q_KEY \<and> token r = Some t \<and> i < p \<Longrightarrow> key_byte (buf ! i)"
  shows "key_byte (buf ! i)"
  using assms
  by (cases "state r")
    (auto simp: mcq_step_def mcq_state_defs key_byte_def mcq_key_next_def mcq_line_end_def less_Suc_eq
      split: if_splits option.splits)

lemma mcq_keys_step:
  assumes "mcq_step env buf p r = (r', Next q)"
  shows "keys r' = keys r \<or>
    (\<exists>t. state r = Q_KEY \<and> token r = Some t \<and> p - t \<noteq> 0 \<and> p - t \<le> MEMCACHE_MAX_KEY_LENGTH \<and>
      keys r' = keys r @ [\<lparr>kp_mbuf = mbuf_id env, kp_start = t, kp_end = p\<rparr>])"
  using assms
  by (cases "state r") (auto simp: mcq_step_def mcq_state_defs split: if_splits option.splits)

lemma mcq_inv_step:
  assumes "p < length buf" "mcq_inv env buf p r" "mcq_step env buf p r = (r', Next q)"
  shows "mcq_inv env buf q r'"
proof -
  have "p \<le> q" using mcq.progress [OF assms(1,3)] by auto
  have "mcq_key_ok env buf q k" if "k \<in> set (keys r')" for k
  proof (cases "k \<in> set (keys r)")
    case True
    with assms(2) \<open>p \<le> q\<close> show ?thesis by (auto simp: mcq_inv_def intro: mcq_key_ok_mono)
  next
    case False
    with mcq_keys_step [OF assms(3)] that assms(2) \<open>p \<le> q\<close> show ?thesis
      by (auto simp: mcq_inv_def mcq_key_ok_def)
  qed
  with assms mcq_token_step [OF assms(3) \<open>p \<le> q\<close>] mcq_key_bytes_step [OF assms(3)] mcq_nkeys_step [OF assms(3)]
  show ?thesis
    unfolding mcq_inv_def by blast
qed

lemma mcq_step_pos: "mcq_step env buf p r = (r', c) \<Longrightarrow> pos r' = pos r"
  by (cases "state r") (auto simp: mcq_step_def mcq_state_defs split: if_splits)

lemma mcq_step_Done:
  "mcq_step env buf p r = (r', Done q) \<Longrightarrow> state r = Q_ALMOST_DONE \<and> r' = r \<and> q = p \<and> buf ! p = LF"
  by (cases "state r") (auto simp: mcq_step_def mcq_state_defs split: if_splits)

definition mcq_complete :: "parse_env \<Rightarrow> bytes \<Rightarrow> mcq \<Rightarrow> bool" where
  "mcq_complete env buf r \<longleftrightarrow>
     0 < pos r \<and> pos r \<le> length buf \<and> buf ! (pos r - 1) = LF \<and> state r = Q_START \<and>
     (mtype r = MSG_REQ_MC_QUIT \<and> keys r = [] \<or> mcq_keyed (mtype r) (length (keys r))) \<and>
     (\<forall>k \<in> set (keys r). mcq_key_ok env buf (pos r) k)"

text \<open>What a run of the loop leaves behind, by the way it ends.\<close>

definition mcq_loop_post :: "parse_env \<Rightarrow> bytes \<Rightarrow> nat \<Rightarrow> mcq \<Rightarrow> ctl \<Rightarrow> bool" where
  "mcq_loop_post env buf p0 r c \<longleftrightarrow>
     (case c of
        Next q \<Rightarrow> p0 \<le> q \<and> q = length buf \<and> mcq_inv env buf q r
      | Done q \<Rightarrow> p0 \<le> q \<and> q < length buf \<and> buf ! q = LF \<and> state r = Q_ALMOST_DONE \<and> mcq_inv env buf q r
      | _ \<Rightarrow> True)"

lemma mcq_loop_post:
  assumes "parse_loop (mcq_step env) buf p r = Some (r', c)" "mcq_inv env buf p r" "p \<le> length buf"
  shows "mcq_loop_post env buf p r' c"
proof -
  have "ends_with (mcq_step env) buf (mcq_inv env buf) p r' c"
    by (rule mcq.loop_post [where I = "mcq_inv env buf", OF assms]) (rule mcq_inv_step)
  then show ?thesis by (cases c) (auto simp: ends_with_def mcq_loop_post_def dest: mcq_step_Done)
qed

lemma mcq_inv_Done:
  assumes "mcq_inv env buf q r" "state r = Q_ALMOST_DONE" "q < length buf" "buf ! q = LF"
  shows "mcq_complete env buf (r\<lparr>pos := q + 1, state := Q_START, result := MSG_PARSE_OK\<rparr>)"
  using assms by (auto simp: mcq_complete_def mcq_inv_def mcq_nkeys_ok_def intro: mcq_key_ok_mono)

lemma mcq_inv_cong [simp]:
  "mcq_inv env buf p (pos_update f r) = mcq_inv env buf p r"
  "mcq_inv env buf p (result_update g r) = mcq_inv env buf p r"
  by (simp_all add: mcq_inv_def)

text \<open>
  C14: \<open>memcache_parse_req\<close> always returns.  Started on a message that is well formed for the bytes
  before \<open>pos\<close> (a fresh message is), it answers with an error, or consumes a whole request, or
  consumes everything there is and asks for more, or asks to move the unfinished token to a new
  mbuf.  A whole request ends in a line feed inside the buffer; it is \<open>quit\<close> without keys or a
  command with exactly one key, a retrieval with at least one; every key of this mbuf lies inside
  the request, is 1 to 250 bytes long and holds no space and no carriage return.
\<close>

theorem memcache_parse_req_correct:
  assumes "mcq_inv env buf (pos r) r" "pos r \<le> length buf"
  shows "\<exists>r'. memcache_parse_req env buf full r = Some r' \<and>
    (case result r' of
       MSG_PARSE_OK \<Rightarrow> pos r < pos r' \<and> mcq_complete env buf r'
     | MSG_PARSE_AGAIN \<Rightarrow> pos r' = length buf \<and> mcq_inv env buf (pos r') r' \<and> (full \<longrightarrow> token r' = None)
     | MSG_PARSE_REPAIR \<Rightarrow> full \<and> pos r' \<le> length buf \<and> token r' = None
     | MSG_PARSE_ERROR \<Rightarrow> True)"
proof -
  obtain r1 c where loop: "parse_loop (mcq_step env) buf (pos r) r = Some (r1, c)"
    using mcq.loop_terminates by blast
  note post = mcq_loop_post [OF loop assms]
  show ?thesis
  proof (cases c)
    case (Next q)
    with loop post show ?thesis
      by (auto simp: memcache_parse_req_def mcq_finish_def mcq_loop_post_def mcq_inv_def [of env buf "length buf" r1]
        split: option.split)
  next
    case (Done q)
    with loop post mcq_inv_Done [of env buf q r1] show ?thesis
      by (simp add: memcache_parse_req_def mcq_finish_def mcq_loop_post_def)
  qed (use loop in \<open>simp_all add: memcache_parse_req_def mcq_finish_def\<close>)
qed

definition demo_penv :: parse_env where
  "demo_penv = \<lparr>mbuf_id = 1, push_ok = True\<rparr>"

abbreviation mcq_fresh :: mcq where
  "mcq_fresh \<equiv> msg_fresh Q_START MSG_UNKNOWN"

definition demo_get :: bytes where
  "demo_get = bytes_of ''get a bc'' @ [CR, LF]"

theorem memcache_parse_req_correct_witness:
  "\<exists>r'. memcache_parse_req demo_penv demo_get False mcq_fresh = Some r' \<and> result r' = MSG_PARSE_OK \<and>
     0 < pos r' \<and> mcq_complete demo_penv demo_get r'"
proof -
  have inv: "mcq_inv demo_penv demo_get (pos mcq_fresh) mcq_fresh"
    by (simp add: mcq_inv_def msg_fresh_def mcq_nkeys_ok_def)
  have ok: "map_option result (memcache_parse_req demo_penv demo_get False mcq_fresh) = Some MSG_PARSE_OK"
    by code_simp
  show ?thesis
    using memcache_parse_req_correct [OF inv, of False] ok by (auto simp: msg_fresh_def)
qed

section \<open>The way the bytes arrive\<close>

text \<open>
  \<open>vlen\<close> counts down what is missing of the value, so after the value it depends on how the bytes
  arrived; everything else does not.
\<close>

definition mcq_obs :: "mcq \<times> ctl \<Rightarrow> mcq \<times> ctl" where
  "mcq_obs = (\<lambda>(r, c). (if state r = Q_ALMOST_DONE \<or> \<not> is_Next c then r\<lparr>vlen := 0\<rparr> else r, c))"

lemma mcq_step_append:
  assumes "p < length b1" "state r \<noteq> Q_VAL"
  shows "mcq_step env (b1 @ b2) p r = mcq_step env b1 p r"
  using assms
  by (cases "state r") (auto simp: mcq_step_def mcq_req_type_def mcq_noreply_def Let_def nth_append)

lemma mcq_loop_val:
  assumes "p < length buf" "state r = Q_VAL"
  shows "map_option mcq_obs (parse_loop (mcq_step env) buf p r) =
    (let m = p + unat (vlen r) in
     if length buf \<le> m then Some (r\<lparr>vlen := vlen r - word_of_nat (length buf - p)\<rparr>, Next (length buf))
     else if buf ! m \<noteq> CR then Some (r\<lparr>vlen := 0\<rparr>, Fail)
     else if length buf \<le> m + 1 then Some (r\<lparr>vlen := 0, state := Q_ALMOST_DONE\<rparr>, Next (m + 1))
     else if buf ! (m + 1) = LF then Some (r\<lparr>vlen := 0, state := Q_ALMOST_DONE\<rparr>, Done (m + 1))
     else Some (r\<lparr>vlen := 0, state := Q_ALMOST_DONE\<rparr>, Fail))"
  using assms
  by (simp add: parse_loop.simps [of _ buf] mcq_step_def mcq_val_def mcq_almost_done_def Let_def mcq_obs_def is_Next_def)

lemma mcq_loop_val_append:
  assumes "p < length b1" "state r = Q_VAL" "length b1 \<le> p + unat (vlen r)"
  shows "map_option mcq_obs (parse_loop (mcq_step env) (b1 @ b2) p r) =
    map_option mcq_obs (parse_loop (mcq_step env) (b1 @ b2) (length b1) (r\<lparr>vlen := vlen r - word_of_nat (length b1 - p)\<rparr>))"
proof (cases "b2 = []")
  case True
  with assms show ?thesis
    by (simp add: mcq_loop_val Let_def) (simp add: mcq.loop_end mcq_obs_def is_Next_def)
next
  case False
  define v where "v = vlen r - word_of_nat (length b1 - p)"
  have "length b1 + unat v = p + unat (vlen r)"
    using assms(1) unat_sub_of_nat [of "length b1 - p" "vlen r"] assms(3) by (simp add: v_def)
  moreover have "v - word_of_nat (length b2) = vlen r - word_of_nat (length b1 + length b2 - p)"
    using assms(1) by (simp add: v_def)
  ultimately show ?thesis
    using False assms unfolding v_def [symmetric] by (simp add: mcq_loop_val Let_def)
qed

interpretation mcq: chunked_step "mcq_step env" mcq_rank mcq_obs for env
proof unfold_locales
  fix p b1 b2 r r1 c
  assume p: "p < length b1" and step: "mcq_step env b1 p r = (r1, c)"
  show "mcq_step env (b1 @ b2) p r = (r1, c) \<or>
    c = Next (length b1) \<and>
    map_option mcq_obs (parse_loop (mcq_step env) (b1 @ b2) p r) =
    map_option mcq_obs (parse_loop (mcq_step env) (b1 @ b2) (length b1) r1)"
  proof (cases "state r = Q_VAL \<and> length b1 \<le> p + unat (vlen r)")
    case True
    with step mcq_loop_val_append [OF p, of r env b2] show ?thesis
      by (auto simp: mcq_step_def mcq_val_def Let_def)
  next
    case False
    with step p have "mcq_step env (b1 @ b2) p r = (r1, c)"
      by (cases "state r = Q_VAL") (simp_all add: mcq_step_append, simp add: mcq_step_def mcq_val_def Let_def nth_append)
    then show ?thesis by simp
  qed
qed

text \<open>
  What a caller sees of a parsed message: the remaining value length only while the value is being
  read, the position only when the request is not in error.
\<close>

definition mcq_view :: "mcq \<Rightarrow> mcq" where
  "mcq_view r =
     (if result r = MSG_PARSE_ERROR then r\<lparr>vlen := 0, pos := 0\<rparr>
      else if result r = MSG_PARSE_OK \<or> state r = Q_ALMOST_DONE then r\<lparr>vlen := 0\<rparr> else r)"

lemma mcq_step_frame:
  "mcq_step env buf p (r\<lparr>pos := x, result := y\<rparr>) = map_prod (\<lambda>r. r\<lparr>pos := x, result := y\<rparr>) id (mcq_step env buf p r)"
  by (cases "state r") (simp_all add: mcq_step_def mcq_state_defs token_word_def)

lemma mcq_view_finish:
  "mcq_view (mcq_finish full (r\<lparr>pos := x, result := y\<rparr>) c) = mcq_view (mcq_finish full (fst (mcq_obs (r, c))) c)"
  by (cases c) (auto simp: mcq_view_def mcq_finish_def mcq_obs_def is_Next_def split: option.split)

lemma mcq_parse_view:
  "map_option mcq_view (memcache_parse_req env buf full (r\<lparr>pos := p, result := y\<rparr>)) =
   map_option (\<lambda>(s, c). mcq_view (mcq_finish full s c)) (map_option mcq_obs (parse_loop (mcq_step env) buf p r))"
  using mcq.loop_commute [where f = "\<lambda>r. r\<lparr>pos := p, result := y\<rparr>", OF mcq_step_frame, of env buf p r]
  by (simp add: memcache_parse_req_def option.map_comp)
    (simp add: comp_def split_def map_prod_def mcq_view_finish mcq_obs_def)

text \<open>
  C12: it does not matter in which pieces a request arrives in an mbuf.  When the parser has asked
  for more bytes, running it again after more bytes were appended gives what one run over all the
  bytes gives; when it has answered, the bytes behind do not change the answer.
\<close>

theorem memcache_parse_req_chunks:
  assumes "memcache_parse_req env b1 False r = Some r1" "pos r \<le> length b1"
  shows "if result r1 = MSG_PARSE_AGAIN
    then map_option mcq_view (memcache_parse_req env (b1 @ b2) full r1) =
         map_option mcq_view (memcache_parse_req env (b1 @ b2) full r)
    else memcache_parse_req env (b1 @ b2) full r = Some r1"
proof -
  obtain s c where loop: "parse_loop (mcq_step env) b1 (pos r) r = Some (s, c)"
    using mcq.loop_terminates by blast
  with assms have r1: "r1 = mcq_finish False s c" by (simp add: memcache_parse_req_def)
  show ?thesis
  proof (cases c)
    case (Next q)
    have r1': "r1 = s\<lparr>pos := q, result := MSG_PARSE_AGAIN\<rparr>"
      using r1 Next by (simp add: mcq_finish_def split: option.split)
    have "map_option mcq_view (memcache_parse_req env (b1 @ b2) full r1) =
      map_option mcq_view (memcache_parse_req env (b1 @ b2) full (r\<lparr>pos := pos r, result := result r\<rparr>))"
      using mcq.loop_chunk [OF loop [unfolded Next] assms(2), of b2]
      by (simp only: r1' mcq_parse_view)
    then show ?thesis using r1' by simp
  qed (use r1 mcq.loop_chunk_stop [OF loop _ assms(2), of b2] in
    \<open>simp_all add: mcq_finish_def memcache_parse_req_def\<close>)
qed

theorem memcache_parse_req_chunks_witness:
  "\<exists>r1. memcache_parse_req demo_penv (bytes_of ''get a'') False mcq_fresh = Some r1 \<and> result r1 = MSG_PARSE_AGAIN \<and>
     map_option mcq_view (memcache_parse_req demo_penv (bytes_of ''get a'' @ bytes_of '' bc'' @ [CR, LF]) False r1) =
     map_option mcq_view (memcache_parse_req demo_penv (bytes_of ''get a'' @ bytes_of '' bc'' @ [CR, LF]) False mcq_fresh)"
proof -
  have "map_option result (memcache_parse_req demo_penv (bytes_of ''get a'') False mcq_fresh) = Some MSG_PARSE_AGAIN"
    by code_simp
  then obtain r1 where "memcache_parse_req demo_penv (bytes_of ''get a'') False mcq_fresh = Some r1" "result r1 = MSG_PARSE_AGAIN"
    by auto
  with memcache_parse_req_chunks [of demo_penv "bytes_of ''get a''" mcq_fresh r1 "bytes_of '' bc'' @ [CR, LF]" False]
  show ?thesis by (simp add: msg_fresh_def)
qed

section \<open>A command word cut by the end of a full mbuf\<close>

lemma mcq_command_Nil: "mcq_command [] ch = MSG_UNKNOWN"
  by (simp add: mcq_command_def bytes_of_def)

lemma mcq_lost_token:
  assumes "state r = Q_REQ_TYPE" "token r = None"
  shows "\<exists>r2. memcache_parse_req env buf full r = Some r2 \<and>
    (result r2 = MSG_PARSE_ERROR \<or> result r2 = MSG_PARSE_AGAIN \<and> state r2 = Q_REQ_TYPE \<and> token r2 = None)"
proof -
  obtain r1 c where loop: "parse_loop (mcq_step env) buf (pos r) r = Some (r1, c)"
    using mcq.loop_terminates by blast
  have "c = Fail \<or> is_Next c \<and> state r1 = Q_REQ_TYPE \<and> token r1 = None"
    by (rule mcq.loop_invariant [OF loop, where I = "\<lambda>p r. state r = Q_REQ_TYPE \<and> token r = None"])
      (use assms in \<open>auto simp: mcq_step_def mcq_req_type_def token_word_def mcq_command_Nil is_Next_def Let_def
        split: if_splits\<close>)
  with loop show ?thesis
    by (cases c) (auto simp: memcache_parse_req_def mcq_finish_def is_Next_def)
qed

text \<open>
  C32: a command word that the end of a full mbuf cuts is lost.  The parser answers REPAIR and
  forgets where the word started but stays in the state in the middle of the word; whatever
  \<open>msg_repair\<close> then places in the new mbuf, the request is never accepted: it is an error as soon as
  the word ends.
\<close>

theorem memcache_repair_loses_command:
  assumes "memcache_parse_req env buf True r = Some r1" "result r1 = MSG_PARSE_REPAIR" "state r1 = Q_REQ_TYPE"
  shows "\<exists>r2. memcache_parse_req env' buf' full (r1\<lparr>pos := 0\<rparr>) = Some r2 \<and>
    (result r2 = MSG_PARSE_ERROR \<or> result r2 = MSG_PARSE_AGAIN \<and> state r2 = Q_REQ_TYPE \<and> token r2 = None)"
proof -
  obtain s c where "parse_loop (mcq_step env) buf (pos r) r = Some (s, c)"
    using mcq.loop_terminates by blast
  with assms have "token r1 = None"
    by (cases c) (auto simp: memcache_parse_req_def mcq_finish_def split: option.splits)
  with assms(3) show ?thesis by (intro mcq_lost_token) simp_all
qed

theorem memcache_repair_loses_command_witness:
  "\<exists>r1 r2. memcache_parse_req demo_penv (bytes_of ''ge'') True mcq_fresh = Some r1 \<and> result r1 = MSG_PARSE_REPAIR \<and>
     memcache_parse_req demo_penv (bytes_of ''get a'' @ [CR, LF]) False (r1\<lparr>pos := 0\<rparr>) = Some r2 \<and>
     result r2 \<noteq> MSG_PARSE_OK"
proof -
  have "map_option (\<lambda>r. (result r, state r)) (memcache_parse_req demo_penv (bytes_of ''ge'') True mcq_fresh) =
      Some (MSG_PARSE_REPAIR, Q_REQ_TYPE)"
    by code_simp
  then obtain r1 where r1: "memcache_parse_req demo_penv (bytes_of ''ge'') True mcq_fresh = Some r1"
    "result r1 = MSG_PARSE_REPAIR" "state r1 = Q_REQ_TYPE"
    by auto
  with memcache_repair_loses_command [OF r1, of demo_penv "bytes_of ''get a'' @ [CR, LF]" False] show ?thesis
    by auto
qed

end
