(* ===== verification/NC_McPrint.thy ===== *)
theory NC_McPrint
  imports NC_McReq
begin

text \<open>
  The requests of the memcache text protocol as data, their wire format, and the round trip: the
  parser of NC_McReq reads back every request that is printed.
\<close>

section \<open>Requests and their wire format\<close>

datatype mc_request =
    Retrieve mc_type "bytes list"
  | Store mc_type bytes nat nat "nat option" bytes bool
  | Change mc_type bytes nat bool
  | Delete bytes bool
  | Quit

definition mc_name :: "mc_type \<Rightarrow> bytes" where
  "mc_name t =
     (case t of
        MSG_REQ_MC_GET \<Rightarrow> bytes_of ''get'' | MSG_REQ_MC_GETS \<Rightarrow> bytes_of ''gets''
      | MSG_REQ_MC_DELETE \<Rightarrow> bytes_of ''delete'' | MSG_REQ_MC_CAS \<Rightarrow> bytes_of ''cas''
      | MSG_REQ_MC_SET \<Rightarrow> bytes_of ''set'' | MSG_REQ_MC_ADD \<Rightarrow> bytes_of ''add''
      | MSG_REQ_MC_REPLACE \<Rightarrow> bytes_of ''replace'' | MSG_REQ_MC_APPEND \<Rightarrow> bytes_of ''append''
      | MSG_REQ_MC_PREPEND \<Rightarrow> bytes_of ''prepend'' | MSG_REQ_MC_INCR \<Rightarrow> bytes_of ''incr''
      | MSG_REQ_MC_DECR \<Rightarrow> bytes_of ''decr'' | MSG_REQ_MC_TOUCH \<Rightarrow> bytes_of ''touch''
      | MSG_REQ_MC_QUIT \<Rightarrow> bytes_of ''quit'' | _ \<Rightarrow> [])"

fun mc_type_of :: "mc_request \<Rightarrow> mc_type" where
  "mc_type_of (Retrieve t _) = t"
| "mc_type_of (Store t _ _ _ _ _ _) = t"
| "mc_type_of (Change t _ _ _) = t"
| "mc_type_of (Delete _ _) = MSG_REQ_MC_DELETE"
| "mc_type_of Quit = MSG_REQ_MC_QUIT"

fun mc_keys_of :: "mc_request \<Rightarrow> bytes list" where
  "mc_keys_of (Retrieve _ ks) = ks"
| "mc_keys_of (Store _ k _ _ _ _ _) = [k]"
| "mc_keys_of (Change _ k _ _) = [k]"
| "mc_keys_of (Delete k _) = [k]"
| "mc_keys_of Quit = []"

fun mc_noreply_of :: "mc_request \<Rightarrow> bool" where
  "mc_noreply_of (Store _ _ _ _ _ _ nr) = nr"
| "mc_noreply_of (Change _ _ _ nr) = nr"
| "mc_noreply_of (Delete _ nr) = nr"
| "mc_noreply_of _ = False"

definition mc_line_end :: "bool \<Rightarrow> bytes" where
  "mc_line_end nr = (if nr then SPACE # bytes_of ''noreply'' else []) @ [CR, LF]"

fun mc_args :: "mc_request \<Rightarrow> bytes" where
  "mc_args (Retrieve _ ks) = concat (map (\<lambda>k. SPACE # k) ks) @ [CR, LF]"
| "mc_args (Store _ k flags expiry cas val nr) =
     SPACE # k @ SPACE # decimal flags @ SPACE # decimal expiry @ SPACE # decimal (length val) @
     (case cas of None \<Rightarrow> [] | Some n \<Rightarrow> SPACE # decimal n) @ mc_line_end nr @ val @ [CR, LF]"
| "mc_args (Change _ k n nr) = SPACE # k @ SPACE # decimal n @ mc_line_end nr"
| "mc_args (Delete k nr) = SPACE # k @ mc_line_end nr"
| "mc_args Quit = [CR, LF]"

definition mc_print :: "mc_request \<Rightarrow> bytes" where
  "mc_print q = mc_name (mc_type_of q) @ mc_args q"

definition mc_key_valid :: "bytes \<Rightarrow> bool" where
  "mc_key_valid k \<longleftrightarrow> k \<noteq> [] \<and> length k \<le> MEMCACHE_MAX_KEY_LENGTH \<and> list_all key_byte k"

fun mc_valid :: "mc_request \<Rightarrow> bool" where
  "mc_valid (Retrieve t ks) \<longleftrightarrow> memcache_retrieval t \<and> ks \<noteq> [] \<and> list_all mc_key_valid ks"
| "mc_valid (Store t k _ _ cas val _) \<longleftrightarrow>
     memcache_storage t \<and> (memcache_cas t \<longleftrightarrow> cas \<noteq> None) \<and> mc_key_valid k \<and> length val < 2 ^ 32"
| "mc_valid (Change t k _ _) \<longleftrightarrow> (memcache_arithmetic t \<or> memcache_touch t) \<and> mc_key_valid k"
| "mc_valid (Delete k _) \<longleftrightarrow> mc_key_valid k"
| "mc_valid Quit \<longleftrightarrow> True"

section \<open>Runs of the machine over the parts of a request\<close>

abbreviation mcq_loop :: "parse_env \<Rightarrow> bytes \<Rightarrow> nat \<Rightarrow> mcq \<Rightarrow> (mcq \<times> ctl) option" where
  "mcq_loop env \<equiv> parse_loop (mcq_step env)"

lemma not_sep:
  "isdigit c \<Longrightarrow> c \<noteq> SPACE" "isdigit c \<Longrightarrow> c \<noteq> CR" "isdigit c \<Longrightarrow> c \<noteq> LF"
  "islower c \<Longrightarrow> c \<noteq> SPACE" "islower c \<Longrightarrow> c \<noteq> CR"
  "CR \<noteq> SPACE" "SPACE \<noteq> CR" "LF \<noteq> SPACE" "CR \<noteq> LF" "\<not> isdigit SPACE" "\<not> isdigit CR" "\<not> islower SPACE" "\<not> islower CR"
  "CR \<noteq> 110" "SPACE \<noteq> 110"
  by (auto simp: isdigit_def islower_def byte_defs)

lemma mcq_run_name:
  assumes "text_at buf p m" "m \<noteq> []" "list_all islower m" "state r = Q_START"
  shows "mcq_loop env buf p r = mcq_loop env buf (p + length m) (r\<lparr>token := Some p, state := Q_REQ_TYPE\<rparr>)"
proof -
  obtain c w where m: "m = c # w" using assms(2) by (cases m) auto
  have "mcq_loop env buf p r = mcq_loop env buf (Suc p) (r\<lparr>token := Some p, state := Q_REQ_TYPE\<rparr>)"
    by (rule mcq.loop_Next) (use assms m in \<open>auto simp: mcq_step_def mcq_start_def not_sep\<close>)
  also have "\<dots> = mcq_loop env buf (Suc p + length w) (r\<lparr>token := Some p, state := Q_REQ_TYPE\<rparr>)"
    by (rule mcq.loop_skip) (use assms m in \<open>auto simp: mcq_step_def mcq_req_type_def not_sep list_all_iff\<close>)
  finally show ?thesis using m by simp
qed


lemma mcq_command_name: "mcq_typed t \<Longrightarrow> mcq_command (mc_name t) SPACE = t"
  by (cases t) (simp_all add: mcq_typed_def may_noreply_def memcache_kind_defs mc_name_def mcq_command_def bytes_of_def byte_defs)

lemma mc_name_lower: "mcq_typed t \<or> t = MSG_REQ_MC_QUIT \<Longrightarrow> mc_name t \<noteq> [] \<and> list_all islower (mc_name t)"
  by (cases t) (simp_all add: mcq_typed_def may_noreply_def memcache_kind_defs mc_name_def bytes_of_def islower_def)

lemma mcq_run_command:
  assumes "text_at buf p (mc_name t @ [SPACE])" "mcq_typed t" "state r = Q_START"
  shows "mcq_loop env buf p r = mcq_loop env buf (p + length (mc_name t) + 1)
    (r\<lparr>token := None, mtype := t, narg := narg r + 1, state := Q_SPACES_BEFORE_KEY\<rparr>)"
proof -
  let ?q = "p + length (mc_name t)"
  have t: "t \<noteq> MSG_UNKNOWN" "t \<noteq> MSG_REQ_MC_QUIT"
    using assms(2) by (auto simp: mcq_typed_def may_noreply_def memcache_kind_defs)
  have "mcq_loop env buf p r = mcq_loop env buf ?q (r\<lparr>token := Some p, state := Q_REQ_TYPE\<rparr>)"
    by (rule mcq_run_name) (use assms mc_name_lower in auto)
  also have "\<dots> = mcq_loop env buf (?q + 1)
      (r\<lparr>token := None, mtype := t, narg := narg r + 1, state := Q_SPACES_BEFORE_KEY\<rparr>)"
    by (rule mcq.loop_Next)
      (use assms t in \<open>auto simp: mcq_step_def mcq_req_type_def token_word_def text_at_slice mcq_command_name not_sep Let_def\<close>)
  finally show ?thesis by simp
qed

definition push_key :: "parse_env \<Rightarrow> nat \<Rightarrow> bytes \<Rightarrow> mcq \<Rightarrow> mcq" where
  "push_key env p k r =
     r\<lparr>keys := keys r @ [\<lparr>kp_mbuf = mbuf_id env, kp_start = p, kp_end = p + length k\<rparr>],
       narg := narg r + 1, token := None, state := mcq_key_next (mtype r)\<rparr>"

lemma mcq_run_key:
  assumes "text_at buf p (k @ [c])" "c = SPACE \<or> c = CR" "mc_key_valid k" "push_ok env"
    and "state r = Q_SPACES_BEFORE_KEY \<or> state r = Q_SPACES_BEFORE_KEYS"
    and "c = CR \<Longrightarrow> \<not> memcache_storage (mtype r) \<and> \<not> memcache_arithmetic (mtype r)"
  shows "mcq_loop env buf p r =
    mcq_loop env buf (p + length k + (if c = CR then 0 else 1)) (push_key env p k r)"
proof -
  obtain a w where k: "k = a # w" "key_byte a" "list_all key_byte w"
    using assms(3) by (cases k) (auto simp: mc_key_valid_def)
  have "mcq_loop env buf p r = mcq_loop env buf p (r\<lparr>token := None, state := Q_KEY\<rparr>)"
    by (rule mcq.loop_Next)
      (use assms k in \<open>auto simp: mcq_step_def mcq_spaces_before_key_def mcq_spaces_before_keys_def key_byte_def\<close>)
  also have "\<dots> = mcq_loop env buf (Suc p) (r\<lparr>token := Some p, state := Q_KEY\<rparr>)"
    by (rule mcq.loop_Next) (use assms k in \<open>auto simp: mcq_step_def mcq_key_def key_byte_def\<close>)
  also have "\<dots> = mcq_loop env buf (Suc p + length w) (r\<lparr>token := Some p, state := Q_KEY\<rparr>)"
    by (rule mcq.loop_skip) (use assms k in \<open>auto simp: mcq_step_def mcq_key_def key_byte_def list_all_iff\<close>)
  also have "\<dots> = mcq_loop env buf (p + length k + (if c = CR then 0 else 1)) (push_key env p k r)"
    by (rule mcq.loop_Next)
      (use assms k in \<open>auto simp: mcq_step_def mcq_key_def mc_key_valid_def push_key_def not_sep\<close>)
  finally show ?thesis .
qed

text \<open>The three numbers of a storage command, the \<open>cas\<close> id and the number of an arithmetic command.\<close>

lemma mcq_run_number:
  assumes "text_at buf p (decimal n @ [c])" "p < length buf"
    and first: "\<And>d. isdigit d \<Longrightarrow> buf ! p = d \<Longrightarrow> mcq_step env buf p r = (r1, Next (Suc p))"
    and digits: "\<And>q d. isdigit d \<Longrightarrow> buf ! q = d \<Longrightarrow> mcq_step env buf q r1 = (r1, Next (Suc q))"
    and sep: "\<And>q. q < length buf \<Longrightarrow> buf ! q = c \<Longrightarrow> mcq_step env buf q r1 = (r2, Next (q + e))"
  shows "mcq_loop env buf p r = mcq_loop env buf (p + length (decimal n) + e) r2"
proof -
  obtain a w where n: "decimal n = a # w" by (cases "decimal n") auto
  then have d: "isdigit a" "\<And>b. b \<in> set w \<Longrightarrow> isdigit b"
    using decimal_digits [of _ n] by auto
  have "mcq_loop env buf p r = mcq_loop env buf (Suc p) r1"
    by (rule mcq.loop_Next) (use assms(1,2) n d first in auto)
  also have "\<dots> = mcq_loop env buf (Suc p + length w) r1"
    by (rule mcq.loop_skip) (use assms(1) n d digits in auto)
  also have "\<dots> = mcq_loop env buf (Suc p + length w + e) r2"
    by (rule mcq.loop_Next) (use assms(1) n sep in auto)
  finally show ?thesis using n by simp
qed

lemma mcq_run_flags:
  assumes "text_at buf p (decimal n @ [SPACE])" "p < length buf" "state r = Q_SPACES_BEFORE_FLAGS"
  shows "mcq_loop env buf p r = mcq_loop env buf (p + length (decimal n) + 1) (r\<lparr>token := None, state := Q_SPACES_BEFORE_EXPIRY\<rparr>)"
  by (rule mcq_run_number [OF assms(1,2), where ?r1.0 = "r\<lparr>token := Some p, state := Q_FLAGS\<rparr>"])
    (use assms(3) in \<open>auto simp: mcq_step_def mcq_spaces_before_flags_def mcq_flags_def not_sep\<close>)

lemma mcq_run_expiry:
  assumes "text_at buf p (decimal n @ [SPACE])" "p < length buf" "state r = Q_SPACES_BEFORE_EXPIRY"
  shows "mcq_loop env buf p r = mcq_loop env buf (p + length (decimal n) + 1) (r\<lparr>token := None, state := Q_SPACES_BEFORE_VLEN\<rparr>)"
  by (rule mcq_run_number [OF assms(1,2), where ?r1.0 = "r\<lparr>token := Some p, state := Q_EXPIRY\<rparr>"])
    (use assms(3) in \<open>auto simp: mcq_step_def mcq_spaces_before_expiry_def mcq_expiry_def not_sep\<close>)

lemma mcq_run_cas:
  assumes "text_at buf p (decimal n @ [c])" "p < length buf" "state r = Q_SPACES_BEFORE_CAS" "c = SPACE \<or> c = CR"
  shows "mcq_loop env buf p r = mcq_loop env buf (p + length (decimal n)) (r\<lparr>token := None, state := Q_RUNTO_CRLF\<rparr>)"
  using mcq_run_number [OF assms(1,2), where ?r1.0 = "r\<lparr>token := Some p, state := Q_CAS\<rparr>" and e = 0 and env = env and r = r
      and ?r2.0 = "r\<lparr>token := None, state := Q_RUNTO_CRLF\<rparr>"] assms(3,4)
  by (auto simp: mcq_step_def mcq_spaces_before_cas_def mcq_cas_def not_sep)

lemma mcq_run_num:
  assumes "text_at buf p (decimal n @ [c])" "p < length buf" "state r = Q_SPACES_BEFORE_NUM" "c = SPACE \<or> c = CR"
  shows "mcq_loop env buf p r = mcq_loop env buf (p + length (decimal n)) (r\<lparr>token := None, state := Q_RUNTO_CRLF\<rparr>)"
  using mcq_run_number [OF assms(1,2), where ?r1.0 = "r\<lparr>token := Some p, state := Q_NUM\<rparr>" and e = 0 and env = env and r = r
      and ?r2.0 = "r\<lparr>token := None, state := Q_RUNTO_CRLF\<rparr>"] assms(3,4)
  by (auto simp: mcq_step_def mcq_spaces_before_num_def mcq_num_def not_sep)

lemma mcq_run_vlen:
  assumes "text_at buf p (decimal n @ [c])" "p < length buf" "state r = Q_SPACES_BEFORE_VLEN"
    and "c = SPACE \<or> c = CR \<and> \<not> memcache_cas (mtype r)"
  shows "mcq_loop env buf p r = mcq_loop env buf (p + length (decimal n))
    (r\<lparr>vlen := word_of_nat n, token := None,
       state := (if memcache_cas (mtype r) then Q_SPACES_BEFORE_CAS else Q_RUNTO_CRLF)\<rparr>)"
proof -
  obtain a w where n: "decimal n = a # w" by (cases "decimal n") auto
  then have d: "isdigit a" "\<And>b. b \<in> set w \<Longrightarrow> isdigit b"
    using decimal_digits [of _ n] by auto
  define f where "f = (\<lambda>r c. r\<lparr>vlen := vlen r * 10 + digit c\<rparr> :: mcq)"
  let ?r = "r\<lparr>vlen := digit a, state := Q_VLEN\<rparr>"
  have fold: "foldl f s w = s\<lparr>vlen := foldl (\<lambda>v c. v * 10 + digit c) (vlen s) w\<rparr>" for s
    by (induction w arbitrary: s) (simp_all add: f_def)
  have val: "foldl (\<lambda>v c. v * 10 + digit c) (digit a) w = word_of_nat n"
    using decimal_value [of n] n by simp
  have "mcq_loop env buf p r = mcq_loop env buf (Suc p) ?r"
    by (rule mcq.loop_Next)
      (use assms n d in \<open>auto simp: mcq_step_def mcq_spaces_before_vlen_def not_sep\<close>)
  also have "\<dots> = mcq_loop env buf (Suc p + length w) (foldl f ?r w)"
    by (rule mcq.loop_fold [where P = "\<lambda>r. state r = Q_VLEN"])
      (use assms n d in \<open>auto simp: mcq_step_def mcq_vlen_def f_def\<close>)
  also have "foldl f ?r w = r\<lparr>vlen := word_of_nat n, state := Q_VLEN\<rparr>"
    by (simp add: fold val)
  also have "mcq_loop env buf (Suc p + length w) \<dots> = mcq_loop env buf (Suc p + length w)
    (r\<lparr>vlen := word_of_nat n, token := None,
       state := (if memcache_cas (mtype r) then Q_SPACES_BEFORE_CAS else Q_RUNTO_CRLF)\<rparr>)"
    by (rule mcq.loop_Next) (use assms n in \<open>auto simp: mcq_step_def mcq_vlen_def not_sep\<close>)
  finally show ?thesis using n by simp
qed

lemma mcq_run_spaces:
  assumes "p < length buf" "buf ! p = SPACE"
    and "state r \<in> {Q_SPACES_BEFORE_CAS, Q_RUNTO_CRLF, Q_SPACES_BEFORE_KEYS, Q_CRLF}"
  shows "mcq_loop env buf p r = mcq_loop env buf (Suc p) r"
  by (rule mcq.loop_Next)
    (use assms in \<open>auto simp: mcq_step_def mcq_spaces_before_cas_def mcq_runto_crlf_def
      mcq_spaces_before_keys_def mcq_crlf_def\<close>)

lemma mcq_run_line_end:
  assumes "text_at buf p (mc_line_end nr)" "state r = Q_RUNTO_CRLF" "nr \<Longrightarrow> may_noreply (mtype r)"
    and "token r = None"
  shows "mcq_loop env buf p r = mcq_loop env buf (p + length (mc_line_end nr) - 1)
    (r\<lparr>noreply := (nr \<or> noreply r), state := mcq_line_end (mtype r)\<rparr>)"
proof (cases nr)
  case False
  with assms have "mcq_loop env buf p r = mcq_loop env buf (Suc p) (r\<lparr>state := mcq_line_end (mtype r)\<rparr>)"
    by (intro mcq.loop_Next) (auto simp: mcq_step_def mcq_runto_crlf_def mc_line_end_def not_sep)
  with False show ?thesis by (simp add: mc_line_end_def)
next
  case True
  let ?w = "bytes_of ''noreply''" and ?o = "bytes_of ''oreply''" and ?q = "Suc p + length (bytes_of ''noreply'')"
  let ?r = "r\<lparr>token := Some (Suc p), state := Q_NOREPLY\<rparr>"
  have buf: "p < length buf" "buf ! p = SPACE" "text_at buf (Suc p) ?w" "text_at buf (Suc (Suc p)) ?o"
    "Suc p < length buf" "buf ! Suc p = 110" "?q < length buf" "buf ! ?q = CR"
    using assms(1) True by (simp_all add: mc_line_end_def bytes_of_def)
  have "mcq_loop env buf p r = mcq_loop env buf (Suc p) r"
    by (rule mcq_run_spaces) (use assms buf in auto)
  also have "\<dots> = mcq_loop env buf (Suc (Suc p)) ?r"
    by (rule mcq.loop_Next) (use assms True buf in \<open>simp_all add: mcq_step_def mcq_runto_crlf_def not_sep\<close>)
  also have "\<dots> = mcq_loop env buf (Suc (Suc p) + length ?o) ?r"
    by (rule mcq.loop_skip) (use buf in \<open>auto simp: mcq_step_def mcq_noreply_def bytes_of_def byte_defs\<close>)
  also have "\<dots> = mcq_loop env buf ?q (r\<lparr>noreply := True, state := Q_AFTER_NOREPLY\<rparr>)"
    by (rule mcq.loop_Next)
      (use buf assms(4) text_at_slice [OF buf(3)] in \<open>simp_all add: mcq_step_def mcq_noreply_def token_word_def\<close>)
  also have "\<dots> = mcq_loop env buf (Suc ?q) (r\<lparr>noreply := True, state := mcq_line_end (mtype r)\<rparr>)"
    by (rule mcq.loop_Next) (use buf in \<open>auto simp: mcq_step_def mcq_after_noreply_def not_sep\<close>)
  finally show ?thesis using True by (simp add: mc_line_end_def)
qed

lemma mcq_run_value:
  assumes "text_at buf p (LF # val @ [CR])" "state r = Q_RUNTO_VAL" "vlen r = word_of_nat (length val)" "length val < 2 ^ 32"
  shows "mcq_loop env buf p r = mcq_loop env buf (p + length val + 2) (r\<lparr>state := Q_ALMOST_DONE\<rparr>)"
proof -
  have v: "unat (vlen r) = length val" using assms(3,4) by (simp add: unat_of_nat_u32)
  have "mcq_loop env buf p r = mcq_loop env buf (Suc p) (r\<lparr>state := Q_VAL\<rparr>)"
    by (rule mcq.loop_Next) (use assms in \<open>simp_all add: mcq_step_def mcq_runto_val_def\<close>)
  also have "\<dots> = mcq_loop env buf (p + length val + 2) (r\<lparr>state := Q_ALMOST_DONE\<rparr>)"
    by (rule mcq.loop_Next) (use assms(1) v in \<open>auto simp: mcq_step_def mcq_val_def Let_def\<close>)
  finally show ?thesis .
qed

lemma mcq_run_done:
  assumes "p < length buf" "buf ! p = LF" "state r = Q_ALMOST_DONE"
  shows "mcq_loop env buf p r = Some (r, Done p)"
  by (rule mcq.loop_stop) (use assms in \<open>auto simp: mcq_step_def mcq_almost_done_def\<close>)

text \<open>The keys of a retrieval.\<close>

fun key_positions :: "parse_env \<Rightarrow> nat \<Rightarrow> bytes list \<Rightarrow> keypos list" where
  "key_positions env p [] = []"
| "key_positions env p (k # ks) =
     \<lparr>kp_mbuf = mbuf_id env, kp_start = p, kp_end = p + length k\<rparr> # key_positions env (p + length k + 1) ks"

lemma retrieval_key_next:
  "memcache_retrieval t \<Longrightarrow> mcq_key_next t = Q_SPACES_BEFORE_KEYS \<and> \<not> memcache_storage t \<and> \<not> memcache_arithmetic t"
  by (auto simp: mcq_key_next_def memcache_kind_defs)

lemma mcq_run_retrieval_key:
  assumes "text_at buf p (k @ [c])" "c = SPACE \<or> c = CR" "mc_key_valid k" "push_ok env"
    and "state r = Q_SPACES_BEFORE_KEY \<or> state r = Q_SPACES_BEFORE_KEYS" "memcache_retrieval (mtype r)"
  shows "mcq_loop env buf p r = mcq_loop env buf (p + length k) (push_key env p k r)"
proof (cases "c = CR")
  case True
  with mcq_run_key [OF assms(1-5)] retrieval_key_next [OF assms(6)] show ?thesis by simp
next
  case False
  with mcq_run_key [OF assms(1-5)] retrieval_key_next [OF assms(6)]
    mcq_run_spaces [of "p + length k" buf "push_key env p k r" env] assms(1,2) show ?thesis
    by (simp add: push_key_def)
qed

lemma token_None: "token r = None \<Longrightarrow> r\<lparr>token := None\<rparr> = r" for r :: mcq
  by simp

lemma mcq_run_keys:
  assumes "text_at buf p (concat (map (\<lambda>k. SPACE # k) ks) @ [CR])" "list_all mc_key_valid ks" "push_ok env"
    and "memcache_retrieval (mtype r)" "state r = Q_SPACES_BEFORE_KEYS" "token r = None"
  shows "mcq_loop env buf p r = mcq_loop env buf (p + length (concat (map (\<lambda>k. SPACE # k) ks)) + 1)
    (r\<lparr>token := None, keys := keys r @ key_positions env (p + 1) ks, narg := narg r + word_of_nat (length ks), state := Q_ALMOST_DONE\<rparr>)"
  using assms
proof (induction ks arbitrary: p r)
  case Nil
  then have "mcq_loop env buf p r = mcq_loop env buf (Suc p) (r\<lparr>state := Q_ALMOST_DONE\<rparr>)"
    by (intro mcq.loop_Next) (auto simp: mcq_step_def mcq_spaces_before_keys_def not_sep)
  with Nil.prems(6) show ?case by (simp add: token_None)
next
  case (Cons k ks)
  define c where "c = (if ks = [] then CR else SPACE)"
  let ?r = "push_key env (Suc p) k r"
  have at: "text_at buf (Suc p) (k @ [c])"
    using Cons.prems(1) by (cases ks) (auto simp: c_def)
  have "mcq_loop env buf p r = mcq_loop env buf (Suc p) r"
    by (rule mcq_run_spaces) (use Cons.prems in auto)
  also have "\<dots> = mcq_loop env buf (Suc p + length k) ?r"
    by (rule mcq_run_retrieval_key [OF at]) (use Cons.prems in \<open>auto simp: c_def\<close>)
  also have "\<dots> = mcq_loop env buf (Suc p + length k + length (concat (map (\<lambda>k. SPACE # k) ks)) + 1)
     (?r\<lparr>token := None, keys := keys ?r @ key_positions env (Suc p + length k + 1) ks,
         narg := narg ?r + word_of_nat (length ks), state := Q_ALMOST_DONE\<rparr>)"
    by (rule Cons.IH) (use Cons.prems retrieval_key_next [of "mtype r"] in \<open>simp_all add: push_key_def add.assoc\<close>)
  finally show ?case by (simp add: push_key_def add.assoc)
qed

section \<open>The round trip\<close>

definition mcq_reads :: "parse_env \<Rightarrow> bytes \<Rightarrow> mc_request \<Rightarrow> mcq \<Rightarrow> bool" where
  "mcq_reads env buf q r \<longleftrightarrow>
     mcq_loop env buf 0 mcq_fresh = Some (r, Done (length (mc_print q) - 1)) \<and>
     mtype r = mc_type_of q \<and> keys r = key_positions env (length (mc_name (mc_type_of q)) + 1) (mc_keys_of q) \<and>
     noreply r = mc_noreply_of q \<and> quit r = (q = Quit)"

lemma mcq_readsI:
  assumes "mcq_loop env buf 0 mcq_fresh = Some (r, Done n)" "length (mc_print q) = n + 1" "mtype r = mc_type_of q"
    "keys r = key_positions env (length (mc_name (mc_type_of q)) + 1) (mc_keys_of q)"
    "noreply r = mc_noreply_of q" "quit r = (q = Quit)"
  shows "\<exists>r. mcq_reads env buf q r"
  using assms by (auto simp: mcq_reads_def)

lemma mcq_reads_retrieve:
  assumes "text_at buf 0 (mc_print (Retrieve t ks))" "mc_valid (Retrieve t ks)" "push_ok env"
  shows "\<exists>r. mcq_reads env buf (Retrieve t ks) r"
proof -
  obtain k ks' where ks: "ks = k # ks'" using assms(2) by (cases ks) auto
  define c where "c = (if ks' = [] then CR else SPACE)"
  define p where "p = length (mc_name t) + 1"
  define r where "r = mcq_fresh\<lparr>token := None, mtype := t, narg := narg mcq_fresh + 1, state := Q_SPACES_BEFORE_KEY\<rparr>"
  let ?e = "length (concat (map (\<lambda>k. SPACE # k) ks'))"
  have t: "memcache_retrieval t" "mcq_typed t" "mcq_key_next t = Q_SPACES_BEFORE_KEYS"
    using assms(2) retrieval_key_next by (auto simp: mcq_typed_def)
  have at: "text_at buf p (k @ [c])" "text_at buf (p + length k) (concat (map (\<lambda>k. SPACE # k) ks') @ [CR])"
    "buf ! (p + length k + ?e + 1) = LF" "p + length k + ?e + 1 < length buf"
    using assms(1) ks by (cases ks', auto simp: mc_print_def p_def c_def add_ac)
  have "mcq_loop env buf 0 mcq_fresh = mcq_loop env buf p r"
    using mcq_run_command [of buf 0 t mcq_fresh env] assms(1) ks t
    by (simp add: mc_print_def p_def r_def msg_fresh_def)
  also have "\<dots> = mcq_loop env buf (p + length k) (push_key env p k r)"
    by (rule mcq_run_retrieval_key [OF at(1)]) (use assms ks t in \<open>auto simp: c_def r_def\<close>)
  also have "\<dots> = mcq_loop env buf (p + length k + ?e + 1)
    ((push_key env p k r)\<lparr>token := None, keys := keys (push_key env p k r) @ key_positions env (p + length k + 1) ks',
       narg := narg (push_key env p k r) + word_of_nat (length ks'), state := Q_ALMOST_DONE\<rparr>)"
    by (rule mcq_run_keys [OF at(2)]) (use assms ks t in \<open>auto simp: r_def push_key_def\<close>)
  also have "\<dots> = Some ((push_key env p k r)\<lparr>token := None,
       keys := keys (push_key env p k r) @ key_positions env (p + length k + 1) ks',
       narg := narg (push_key env p k r) + word_of_nat (length ks'), state := Q_ALMOST_DONE\<rparr>, Done (p + length k + ?e + 1))"
    by (rule mcq_run_done) (use at in simp_all)
  finally show ?thesis
    by (rule mcq_readsI) (use ks in \<open>simp_all add: mc_print_def push_key_def r_def msg_fresh_def p_def\<close>)
qed

text \<open>The commands with one key: from the command word to the byte behind the space after the key.\<close>

lemma mcq_reads_first_key:
  assumes "text_at buf 0 (mc_name t @ SPACE # k @ [c])" "mcq_typed t" "mc_key_valid k" "push_ok env" "c = SPACE \<or> c = CR"
    and "c = CR \<Longrightarrow> \<not> memcache_storage t \<and> \<not> memcache_arithmetic t"
  shows "mcq_loop env buf 0 mcq_fresh =
    mcq_loop env buf (length (mc_name t) + 1 + length k + (if c = CR then 0 else 1))
      (mcq_fresh\<lparr>mtype := t, narg := 2, state := mcq_key_next t,
         keys := key_positions env (length (mc_name t) + 1) [k]\<rparr>)"
proof -
  let ?r = "mcq_fresh\<lparr>token := None, mtype := t, narg := narg mcq_fresh + 1, state := Q_SPACES_BEFORE_KEY\<rparr>"
  have "mcq_loop env buf 0 mcq_fresh = mcq_loop env buf (length (mc_name t) + 1) ?r"
    using mcq_run_command [of buf 0 t mcq_fresh env] assms(1,2) by (simp add: msg_fresh_def)
  also have "\<dots> = mcq_loop env buf (length (mc_name t) + 1 + length k + (if c = CR then 0 else 1))
      (push_key env (length (mc_name t) + 1) k ?r)"
    by (rule mcq_run_key) (use assms in auto)
  also have "push_key env (length (mc_name t) + 1) k ?r =
      mcq_fresh\<lparr>mtype := t, narg := 2, state := mcq_key_next t, keys := key_positions env (length (mc_name t) + 1) [k]\<rparr>"
    by (simp add: push_key_def msg_fresh_def)
  finally show ?thesis .
qed

lemma mc_line_end_first: "\<exists>c w. mc_line_end nr = c # w \<and> (c = SPACE \<or> c = CR) \<and> (c = CR \<longleftrightarrow> \<not> nr)"
  by (cases nr) (auto simp: mc_line_end_def not_sep)

lemma mcq_run_last_line:
  assumes "text_at buf p (mc_line_end nr)" "state r = Q_RUNTO_CRLF" "nr \<Longrightarrow> may_noreply (mtype r)"
    "token r = None" "\<not> memcache_storage (mtype r)"
  shows "mcq_loop env buf p r =
    Some (r\<lparr>noreply := (nr \<or> noreply r), state := Q_ALMOST_DONE\<rparr>, Done (p + length (mc_line_end nr) - 1))"
proof -
  have "buf ! (p + length (mc_line_end nr) - 1) = LF" "p + length (mc_line_end nr) - 1 < length buf"
    using assms(1) by (auto simp: mc_line_end_def)
  with mcq_run_line_end [OF assms(1-4)] assms(5) show ?thesis
    by (simp add: mcq_run_done mcq_line_end_def)
qed

lemma mcq_reads_delete:
  assumes "text_at buf 0 (mc_print (Delete k nr))" "mc_valid (Delete k nr)" "push_ok env"
  shows "\<exists>r. mcq_reads env buf (Delete k nr) r"
proof -
  let ?t = MSG_REQ_MC_DELETE
  let ?p = "length (mc_name ?t) + 1 + length k"
  let ?r = "mcq_fresh\<lparr>mtype := ?t, narg := 2, state := Q_RUNTO_CRLF, keys := key_positions env (length (mc_name ?t) + 1) [k]\<rparr>"
  obtain c w where c: "mc_line_end nr = c # w" "c = SPACE \<or> c = CR" using mc_line_end_first by blast
  have t: "mcq_typed ?t" "mcq_key_next ?t = Q_RUNTO_CRLF" "may_noreply ?t" "\<not> memcache_storage ?t" "\<not> memcache_arithmetic ?t"
    by (simp_all add: mcq_typed_def may_noreply_def mcq_key_next_def memcache_kind_defs)
  have at: "text_at buf 0 (mc_name ?t @ SPACE # k @ [c])" "text_at buf ?p (mc_line_end nr)" "?p < length buf" "buf ! ?p = c"
    using assms(1) c(1) by (simp_all add: mc_print_def)
  have "mcq_loop env buf 0 mcq_fresh = mcq_loop env buf ?p ?r"
    using mcq_reads_first_key [OF at(1) t(1) _ assms(3) c(2)] assms(2) t c(2)
      mcq_run_spaces [OF at(3), of ?r env] at(4) by (auto split: if_splits)
  also have "\<dots> = Some (?r\<lparr>noreply := (nr \<or> noreply ?r), state := Q_ALMOST_DONE\<rparr>, Done (?p + length (mc_line_end nr) - 1))"
    by (rule mcq_run_last_line [OF at(2)]) (use t in \<open>simp_all add: msg_fresh_def\<close>)
  finally show ?thesis
    by (rule mcq_readsI) (use c in \<open>simp_all add: mc_print_def msg_fresh_def\<close>)
qed

lemma mcq_reads_change:
  assumes "text_at buf 0 (mc_print (Change t k n nr))" "mc_valid (Change t k n nr)" "push_ok env"
  shows "\<exists>r. mcq_reads env buf (Change t k n nr) r"
proof -
  let ?p = "length (mc_name t) + 1 + length k + 1"
  let ?r = "mcq_fresh\<lparr>mtype := t, narg := 2, state := Q_SPACES_BEFORE_NUM, keys := key_positions env (length (mc_name t) + 1) [k]\<rparr>"
  obtain c w where c: "mc_line_end nr = c # w" "c = SPACE \<or> c = CR" using mc_line_end_first by blast
  have t: "mcq_typed t" "mcq_key_next t = Q_SPACES_BEFORE_NUM" "may_noreply t" "\<not> memcache_storage t"
    using assms(2) by (auto simp: mcq_typed_def may_noreply_def mcq_key_next_def memcache_kind_defs)
  have at: "text_at buf 0 (mc_name t @ SPACE # k @ [SPACE])" "text_at buf ?p (decimal n @ [c])" "?p < length buf"
    "text_at buf (?p + length (decimal n)) (mc_line_end nr)"
    using assms(1) c(1) by (simp_all add: mc_print_def)
  have "mcq_loop env buf 0 mcq_fresh = mcq_loop env buf ?p ?r"
    using mcq_reads_first_key [OF at(1) t(1) _ assms(3)] assms(2) t by (simp add: not_sep)
  also have "\<dots> = mcq_loop env buf (?p + length (decimal n)) (?r\<lparr>token := None, state := Q_RUNTO_CRLF\<rparr>)"
    by (rule mcq_run_num [OF at(2,3)]) (use c in simp_all)
  also have "\<dots> = Some (?r\<lparr>token := None, state := Q_RUNTO_CRLF, noreply := (nr \<or> noreply ?r), state := Q_ALMOST_DONE\<rparr>,
      Done (?p + length (decimal n) + length (mc_line_end nr) - 1))"
    using mcq_run_last_line [OF at(4), of "?r\<lparr>token := None, state := Q_RUNTO_CRLF\<rparr>" env] t by simp
  finally show ?thesis
    by (rule mcq_readsI) (use c in \<open>simp_all add: mc_print_def msg_fresh_def\<close>)
qed

definition mc_cas_arg :: "nat option \<Rightarrow> bytes" where
  "mc_cas_arg cas = (case cas of None \<Rightarrow> [] | Some n \<Rightarrow> SPACE # decimal n)"

lemma mcq_run_vlen_cas:
  assumes "text_at buf p (decimal n @ mc_cas_arg cas @ [c])" "p < length buf" "state r = Q_SPACES_BEFORE_VLEN"
    and "c = SPACE \<or> c = CR" "memcache_cas (mtype r) \<longleftrightarrow> cas \<noteq> None"
  shows "mcq_loop env buf p r = mcq_loop env buf (p + length (decimal n) + length (mc_cas_arg cas))
    (r\<lparr>vlen := word_of_nat n, token := None, state := Q_RUNTO_CRLF\<rparr>)"
proof (cases cas)
  case None
  with assms mcq_run_vlen [of buf p n c r env] show ?thesis by (simp add: mc_cas_arg_def)
next
  case (Some m)
  let ?q = "p + length (decimal n)"
  let ?r = "r\<lparr>vlen := word_of_nat n, token := None, state := Q_SPACES_BEFORE_CAS\<rparr>"
  have at: "text_at buf p (decimal n @ [SPACE])" "text_at buf (Suc ?q) (decimal m @ [c])" "Suc ?q < length buf"
    using assms(1) Some by (auto simp: mc_cas_arg_def)
  have "mcq_loop env buf p r = mcq_loop env buf ?q ?r"
    using mcq_run_vlen [OF at(1), of r env] assms Some by simp
  also have "\<dots> = mcq_loop env buf (Suc ?q) ?r"
    by (rule mcq_run_spaces) (use at in simp_all)
  also have "\<dots> = mcq_loop env buf (Suc ?q + length (decimal m)) (?r\<lparr>token := None, state := Q_RUNTO_CRLF\<rparr>)"
    by (rule mcq_run_cas) (use at assms in simp_all)
  finally show ?thesis using Some by (simp add: mc_cas_arg_def)
qed

lemma mcq_run_store_line:
  assumes "text_at buf p (decimal f @ SPACE # decimal e @ SPACE # decimal n @ mc_cas_arg cas @ mc_line_end nr)"
    and "p < length buf" "state r = Q_SPACES_BEFORE_FLAGS" "memcache_storage (mtype r)"
    and "memcache_cas (mtype r) \<longleftrightarrow> cas \<noteq> None"
  shows "mcq_loop env buf p r =
    mcq_loop env buf (p + length (decimal f @ SPACE # decimal e @ SPACE # decimal n @ mc_cas_arg cas @ mc_line_end nr) - 1)
    (r\<lparr>vlen := word_of_nat n, token := None, noreply := (nr \<or> noreply r), state := Q_RUNTO_VAL\<rparr>)"
proof -
  obtain c w where c: "mc_line_end nr = c # w" "c = SPACE \<or> c = CR" using mc_line_end_first by blast
  define p2 where "p2 = p + length (decimal f) + 1"
  define p3 where "p3 = p2 + length (decimal e) + 1"
  define p4 where "p4 = p3 + length (decimal n) + length (mc_cas_arg cas)"
  let ?r2 = "r\<lparr>token := None, state := Q_SPACES_BEFORE_EXPIRY\<rparr>"
  let ?r3 = "r\<lparr>token := None, state := Q_SPACES_BEFORE_VLEN\<rparr>"
  let ?r4 = "r\<lparr>vlen := word_of_nat n, token := None, state := Q_RUNTO_CRLF\<rparr>"
  have at: "text_at buf p (decimal f @ [SPACE])" "text_at buf p2 (decimal e @ [SPACE])"
    "text_at buf p3 (decimal n @ mc_cas_arg cas @ [c])" "text_at buf p4 (mc_line_end nr)"
    using assms(1) c(1) by (simp_all add: p2_def p3_def p4_def)
  have lt: "p2 < length buf" "p3 < length buf"
    using at by (cases "decimal e"; cases "decimal n"; simp)+
  have "mcq_loop env buf p r = mcq_loop env buf p2 ?r2"
    using mcq_run_flags [OF at(1) assms(2,3)] by (simp add: p2_def)
  also have "\<dots> = mcq_loop env buf p3 ?r3"
    using mcq_run_expiry [OF at(2) lt(1), of ?r2 env] by (simp add: p3_def)
  also have "\<dots> = mcq_loop env buf p4 ?r4"
    using mcq_run_vlen_cas [OF at(3) lt(2), of ?r3 env] assms(5) c(2) by (simp add: p4_def)
  also have "\<dots> = mcq_loop env buf (p4 + length (mc_line_end nr) - 1)
      (r\<lparr>vlen := word_of_nat n, token := None, noreply := (nr \<or> noreply r), state := Q_RUNTO_VAL\<rparr>)"
    using mcq_run_line_end [OF at(4), of ?r4 env] assms(4) by (simp add: may_noreply_def mcq_line_end_def)
  finally show ?thesis using c(1) by (simp add: p2_def p3_def p4_def add_ac)
qed

lemma mcq_reads_store:
  assumes "text_at buf 0 (mc_print (Store t k f e cas val nr))" "mc_valid (Store t k f e cas val nr)" "push_ok env"
  shows "\<exists>r. mcq_reads env buf (Store t k f e cas val nr) r"
proof -
  define line where "line = decimal f @ SPACE # decimal e @ SPACE # decimal (length val) @ mc_cas_arg cas @ mc_line_end nr"
  define p where "p = length (mc_name t) + 1 + length k + 1"
  define q where "q = p + length line - 1"
  define r where "r = mcq_fresh\<lparr>mtype := t, narg := 2, state := Q_SPACES_BEFORE_FLAGS, keys := key_positions env (length (mc_name t) + 1) [k]\<rparr>"
  define r2 where "r2 = r\<lparr>vlen := word_of_nat (length val), token := None, noreply := (nr \<or> noreply r), state := Q_RUNTO_VAL\<rparr>"
  have t: "mcq_typed t" "mcq_key_next t = Q_SPACES_BEFORE_FLAGS" "memcache_storage t" "memcache_cas t \<longleftrightarrow> cas \<noteq> None"
    using assms(2) by (auto simp: mcq_typed_def may_noreply_def mcq_key_next_def)
  have print: "mc_print (Store t k f e cas val nr) = mc_name t @ SPACE # k @ SPACE # line @ val @ [CR, LF]"
    by (simp add: mc_print_def line_def mc_cas_arg_def)
  obtain l where l: "line = l @ [LF]" by (simp add: line_def mc_line_end_def)
  have at: "text_at buf 0 (mc_name t @ SPACE # k @ [SPACE])" "text_at buf p line" "text_at buf q (LF # val @ [CR])"
    "q + length val + 2 < length buf" "buf ! (q + length val + 2) = LF"
    using assms(1) unfolding print q_def p_def l by (simp_all add: add_ac)
  have "p < length buf" using at(2) by (cases line) (simp_all add: l)
  have "mcq_loop env buf 0 mcq_fresh = mcq_loop env buf p r"
    using mcq_reads_first_key [OF at(1) t(1) _ assms(3)] assms(2) t by (simp add: not_sep p_def r_def)
  also have "\<dots> = mcq_loop env buf q r2"
    using mcq_run_store_line [OF at(2) [unfolded line_def] \<open>p < length buf\<close>, of r env] t
    by (simp add: q_def line_def r_def r2_def)
  also have "\<dots> = mcq_loop env buf (q + length val + 2) (r2\<lparr>state := Q_ALMOST_DONE\<rparr>)"
    by (rule mcq_run_value [OF at(3)]) (use assms(2) in \<open>simp_all add: r2_def\<close>)
  also have "\<dots> = Some (r2\<lparr>state := Q_ALMOST_DONE\<rparr>, Done (q + length val + 2))"
    by (rule mcq_run_done) (use at in simp_all)
  finally show ?thesis
    by (rule mcq_readsI) (simp_all add: print q_def p_def l r2_def r_def msg_fresh_def)
qed

lemma mcq_command_quit: "mcq_command (mc_name MSG_REQ_MC_QUIT) CR = MSG_REQ_MC_QUIT"
  by (simp add: mc_name_def mcq_command_def bytes_of_def)

lemma mcq_reads_quit:
  assumes "text_at buf 0 (mc_print Quit)"
  shows "\<exists>r. mcq_reads env buf Quit r"
proof -
  define m where "m = mc_name MSG_REQ_MC_QUIT"
  let ?r = "mcq_fresh\<lparr>token := Some 0, state := Q_REQ_TYPE\<rparr>"
  let ?r2 = "mcq_fresh\<lparr>token := None, mtype := MSG_REQ_MC_QUIT, narg := narg mcq_fresh + 1, quit := True, state := Q_CRLF\<rparr>"
  have at: "text_at buf 0 m" "length m < length buf" "buf ! length m = CR"
    "Suc (length m) < length buf" "buf ! Suc (length m) = LF"
    using assms by (simp_all add: mc_print_def m_def)
  have word: "slice buf 0 (length m) = m" using text_at_slice [OF at(1)] by simp
  have "mcq_loop env buf 0 mcq_fresh = mcq_loop env buf (0 + length m) ?r"
    by (rule mcq_run_name [OF at(1)]) (use mc_name_lower [of MSG_REQ_MC_QUIT] in \<open>simp_all add: m_def msg_fresh_def\<close>)
  also have "\<dots> = mcq_loop env buf (length m) ?r2"
    by (rule mcq.loop_Next)
      (use at word mcq_command_quit in \<open>simp_all add: mcq_step_def mcq_req_type_def token_word_def not_sep Let_def flip: m_def\<close>)
  also have "\<dots> = mcq_loop env buf (Suc (length m)) (?r2\<lparr>state := Q_ALMOST_DONE\<rparr>)"
    by (rule mcq.loop_Next) (use at in \<open>simp_all add: mcq_step_def mcq_crlf_def not_sep\<close>)
  also have "\<dots> = Some (?r2\<lparr>state := Q_ALMOST_DONE\<rparr>, Done (Suc (length m)))"
    by (rule mcq_run_done) (use at in simp_all)
  finally show ?thesis
    by (rule mcq_readsI) (simp_all add: mc_print_def m_def msg_fresh_def)
qed

lemma mcq_reads_print:
  assumes "text_at buf 0 (mc_print q)" "mc_valid q" "push_ok env"
  shows "\<exists>r. mcq_reads env buf q r"
  using assms
  by (cases q) (simp_all only: mcq_reads_retrieve mcq_reads_store mcq_reads_change mcq_reads_delete mcq_reads_quit)

lemma key_positions_slice:
  "text_at buf p (concat (map (\<lambda>k. SPACE # k) ks)) \<Longrightarrow>
   map (\<lambda>k. slice buf (kp_start k) (kp_end k)) (key_positions env (p + 1) ks) = ks"
proof (induction ks arbitrary: p)
  case (Cons k ks)
  then show ?case using text_at_slice [of buf "Suc p" k] by simp
qed simp

lemma mc_print_keys: "mc_valid q \<Longrightarrow> text_at buf 0 (mc_print q) \<Longrightarrow>
   text_at buf (length (mc_name (mc_type_of q))) (concat (map (\<lambda>k. SPACE # k) (mc_keys_of q)))"
  by (cases q) (simp_all add: mc_print_def)

text \<open>
  C2: every request that is printed is read back, whatever bytes follow it: \<open>memcache_parse_req\<close>
  accepts it, stops right behind it, and finds its command, its keys and its \<open>noreply\<close> flag.
\<close>

theorem memcache_request_roundtrip:
  assumes "mc_valid q" "push_ok env"
  shows "\<exists>r. memcache_parse_req env (mc_print q @ rest) full mcq_fresh = Some r \<and>
    result r = MSG_PARSE_OK \<and> pos r = length (mc_print q) \<and> mtype r = mc_type_of q \<and>
    map (\<lambda>k. slice (mc_print q @ rest) (kp_start k) (kp_end k)) (keys r) = mc_keys_of q \<and>
    noreply r = mc_noreply_of q \<and> quit r = (q = Quit)"
proof -
  let ?buf = "mc_print q @ rest"
  have at: "text_at ?buf 0 (mc_print q)" by (rule text_at_prefix)
  obtain r where r: "mcq_reads env ?buf q r" using mcq_reads_print [OF at assms] by blast
  have "0 < length (mc_print q)" by (cases q) (simp_all add: mc_print_def)
  moreover have "memcache_parse_req env ?buf full mcq_fresh =
      Some (r\<lparr>pos := length (mc_print q) - 1 + 1, state := Q_START, result := MSG_PARSE_OK\<rparr>)"
    using r by (simp add: memcache_parse_req_def mcq_finish_def mcq_reads_def msg_fresh_def)
  ultimately show ?thesis
    using r key_positions_slice [OF mc_print_keys [OF assms(1) at], of env] unfolding mcq_reads_def by simp
qed

theorem memcache_request_roundtrip_witness:
  "mc_valid (Store MSG_REQ_MC_SET (bytes_of ''key'') 0 60 None [CR, LF, CR] True) \<and>
   (\<exists>r. memcache_parse_req demo_penv
      (mc_print (Store MSG_REQ_MC_SET (bytes_of ''key'') 0 60 None [CR, LF, CR] True) @ bytes_of ''get'')
      False mcq_fresh = Some r \<and> result r = MSG_PARSE_OK \<and> noreply r)"
proof -
  have v: "mc_valid (Store MSG_REQ_MC_SET (bytes_of ''key'') 0 60 None [CR, LF, CR] True)"
    by (simp add: memcache_kind_defs mc_key_valid_def MEMCACHE_MAX_KEY_LENGTH_def bytes_of_def key_byte_def byte_defs)
  have "push_ok demo_penv" by (simp add: demo_penv_def)
  with memcache_request_roundtrip [OF v, of demo_penv "bytes_of ''get''" False] v show ?thesis by auto
qed

end
