(* ===== verification/NC_McRsp.thy ===== *)
theory NC_McRsp
  imports NC_McReq
begin

text \<open>
  The memcache response parser: \<open>memcache_parse_rsp\<close> of src/src/proto/nc_memcache.c, one definition
  per state of its machine.
\<close>

section \<open>The states\<close>

datatype mcr_state =
    R_START | R_RSP_NUM | R_RSP_STR | R_SPACES_BEFORE_KEY | R_KEY | R_SPACES_BEFORE_FLAGS | R_FLAGS
  | R_SPACES_BEFORE_VLEN | R_VLEN | R_RUNTO_VAL | R_VAL | R_VAL_LF | R_END | R_RUNTO_CRLF | R_CRLF
  | R_ALMOST_DONE

type_synonym mcr = "(mcr_state, mc_type) parse"

definition mcr_start :: "u8 \<Rightarrow> nat \<Rightarrow> mcr \<Rightarrow> mcr \<times> ctl" where
  "mcr_start ch p r = (r\<lparr>state := if isdigit ch then R_RSP_NUM else R_RSP_STR\<rparr>, Next p)"

definition mcr_rsp_num :: "u8 \<Rightarrow> nat \<Rightarrow> mcr \<Rightarrow> mcr \<times> ctl" where
  "mcr_rsp_num ch p r =
     (let r = mark_token p r in
      if isdigit ch then (r, Next (p + 1))
      else if ch = SPACE \<or> ch = CR then (r\<lparr>token := None, mtype := MSG_RSP_MC_NUM, state := R_CRLF\<rparr>, Next p)
      else (r, Fail))"

text \<open>The status word; \<open>str4cmp(m, 'E', 'N', 'D', '\r')\<close> looks at the byte behind it.\<close>

definition mcr_status :: "bytes \<Rightarrow> u8 \<Rightarrow> mc_type" where
  "mcr_status m ch =
     (if m = bytes_of ''END'' \<and> ch = CR then MSG_RSP_MC_END
      else if m = bytes_of ''VALUE'' then MSG_RSP_MC_VALUE
      else if m = bytes_of ''ERROR'' then MSG_RSP_MC_ERROR
      else if m = bytes_of ''STORED'' then MSG_RSP_MC_STORED
      else if m = bytes_of ''EXISTS'' then MSG_RSP_MC_EXISTS
      else if m = bytes_of ''DELETED'' then MSG_RSP_MC_DELETED
      else if m = bytes_of ''TOUCHED'' then MSG_RSP_MC_TOUCHED
      else if m = bytes_of ''NOT_FOUND'' then MSG_RSP_MC_NOT_FOUND
      else if m = bytes_of ''NOT_STORED'' then MSG_RSP_MC_NOT_STORED
      else if m = bytes_of ''CLIENT_ERROR'' then MSG_RSP_MC_CLIENT_ERROR
      else if m = bytes_of ''SERVER_ERROR'' then MSG_RSP_MC_SERVER_ERROR
      else MSG_UNKNOWN)"

definition mcr_status_next :: "mc_type \<Rightarrow> mcr_state" where
  "mcr_status_next t =
     (case t of
        MSG_RSP_MC_VALUE \<Rightarrow> R_SPACES_BEFORE_KEY
      | MSG_RSP_MC_CLIENT_ERROR \<Rightarrow> R_RUNTO_CRLF
      | MSG_RSP_MC_SERVER_ERROR \<Rightarrow> R_RUNTO_CRLF
      | _ \<Rightarrow> R_CRLF)"

definition mcr_rsp_str :: "bytes \<Rightarrow> u8 \<Rightarrow> nat \<Rightarrow> mcr \<Rightarrow> mcr \<times> ctl" where
  "mcr_rsp_str buf ch p r =
     (let r = mark_token p r in
      if ch = SPACE \<or> ch = CR then
        let t = mcr_status (token_word buf p r) ch;
            r = r\<lparr>mtype := t, end_mark := (if t = MSG_RSP_MC_END then token r else end_mark r)\<rparr>
        in if t = MSG_UNKNOWN then (r, Fail) else (r\<lparr>state := mcr_status_next t\<rparr>, Next p)
      else (r, Next (p + 1)))"

definition mcr_spaces_before_key :: "u8 \<Rightarrow> nat \<Rightarrow> mcr \<Rightarrow> mcr \<times> ctl" where
  "mcr_spaces_before_key ch p r = (if ch \<noteq> SPACE then (r\<lparr>state := R_KEY\<rparr>, Next p) else (r, Next (p + 1)))"

definition mcr_key :: "u8 \<Rightarrow> nat \<Rightarrow> mcr \<Rightarrow> mcr \<times> ctl" where
  "mcr_key ch p r = (if ch = SPACE then (r\<lparr>state := R_SPACES_BEFORE_FLAGS\<rparr>, Next (p + 1)) else (r, Next (p + 1)))"

definition mcr_spaces_before_flags :: "u8 \<Rightarrow> nat \<Rightarrow> mcr \<Rightarrow> mcr \<times> ctl" where
  "mcr_spaces_before_flags ch p r =
     (if ch \<noteq> SPACE then if \<not> isdigit ch then (r, Fail) else (r\<lparr>state := R_FLAGS\<rparr>, Next p)
      else (r, Next (p + 1)))"

definition mcr_flags :: "u8 \<Rightarrow> nat \<Rightarrow> mcr \<Rightarrow> mcr \<times> ctl" where
  "mcr_flags ch p r =
     (if isdigit ch then (r, Next (p + 1))
      else if ch = SPACE then (r\<lparr>state := R_SPACES_BEFORE_VLEN\<rparr>, Next (p + 1))
      else (r, Fail))"

definition mcr_spaces_before_vlen :: "u8 \<Rightarrow> nat \<Rightarrow> mcr \<Rightarrow> mcr \<times> ctl" where
  "mcr_spaces_before_vlen ch p r =
     (if ch \<noteq> SPACE then if \<not> isdigit ch then (r, Fail) else (r\<lparr>state := R_VLEN, vlen := 0\<rparr>, Next p)
      else (r, Next (p + 1)))"

definition mcr_vlen :: "u8 \<Rightarrow> nat \<Rightarrow> mcr \<Rightarrow> mcr \<times> ctl" where
  "mcr_vlen ch p r =
     (if isdigit ch then (r\<lparr>vlen := vlen r * 10 + digit ch\<rparr>, Next (p + 1))
      else if ch = SPACE \<or> ch = CR then (r\<lparr>state := R_RUNTO_CRLF\<rparr>, Next p)
      else (r, Fail))"

definition mcr_runto_val :: "u8 \<Rightarrow> nat \<Rightarrow> mcr \<Rightarrow> mcr \<times> ctl" where
  "mcr_runto_val ch p r =
     (if ch = LF then (r\<lparr>state := R_VAL, token := None\<rparr>, Next (p + 1)) else (r, Fail))"

definition mcr_val :: "bytes \<Rightarrow> nat \<Rightarrow> mcr \<Rightarrow> mcr \<times> ctl" where
  "mcr_val buf p r =
     (let m = p + unat (vlen r) in
      if length buf \<le> m
      then (r\<lparr>vlen := vlen r - word_of_nat (length buf - p)\<rparr>, Next (length buf))
      else if buf ! m = CR then (r\<lparr>state := R_VAL_LF\<rparr>, Next (m + 1))
      else (r, Fail))"

definition mcr_val_lf :: "u8 \<Rightarrow> nat \<Rightarrow> mcr \<Rightarrow> mcr \<times> ctl" where
  "mcr_val_lf ch p r = (if ch = LF then (r\<lparr>state := R_RSP_STR\<rparr>, Next (p + 1)) else (r, Fail))"

text \<open>
  No state leads to \<open>R_END\<close>; the code keeps it.  A word of three bytes other than \<open>END\<close> leaves the
  machine in the state.
\<close>

definition mcr_end :: "bytes \<Rightarrow> u8 \<Rightarrow> nat \<Rightarrow> mcr \<Rightarrow> mcr \<times> ctl" where
  "mcr_end buf ch p r =
     (case token r of
        None \<Rightarrow> if ch \<noteq> 69 then (r, Fail) else (r\<lparr>token := Some p\<rparr>, Next (p + 1))
      | Some m \<Rightarrow>
          if ch = CR then
            let r = r\<lparr>token := None\<rparr> in
            if p - m \<noteq> 3 then (r, Fail)
            else if slice buf m p = bytes_of ''END'' then (r\<lparr>end_mark := Some m, state := R_ALMOST_DONE\<rparr>, Next (p + 1))
            else (r, Next (p + 1))
          else (r, Next (p + 1)))"

definition mcr_runto_crlf :: "u8 \<Rightarrow> nat \<Rightarrow> mcr \<Rightarrow> mcr \<times> ctl" where
  "mcr_runto_crlf ch p r =
     (if ch = CR then (r\<lparr>state := if mtype r = MSG_RSP_MC_VALUE then R_RUNTO_VAL else R_ALMOST_DONE\<rparr>, Next (p + 1))
      else (r, Next (p + 1)))"

definition mcr_crlf :: "u8 \<Rightarrow> nat \<Rightarrow> mcr \<Rightarrow> mcr \<times> ctl" where
  "mcr_crlf ch p r =
     (if ch = SPACE then (r, Next (p + 1))
      else if ch = CR then (r\<lparr>state := R_ALMOST_DONE\<rparr>, Next (p + 1))
      else (r, Fail))"

definition mcr_almost_done :: "u8 \<Rightarrow> nat \<Rightarrow> mcr \<Rightarrow> mcr \<times> ctl" where
  "mcr_almost_done ch p r = (if ch = LF then (r, Done p) else (r, Fail))"

definition mcr_step :: "bytes \<Rightarrow> nat \<Rightarrow> mcr \<Rightarrow> mcr \<times> ctl" where
  "mcr_step buf p r =
     (let ch = buf ! p in
      case state r of
        R_START \<Rightarrow> mcr_start ch p r
      | R_RSP_NUM \<Rightarrow> mcr_rsp_num ch p r
      | R_RSP_STR \<Rightarrow> mcr_rsp_str buf ch p r
      | R_SPACES_BEFORE_KEY \<Rightarrow> mcr_spaces_before_key ch p r
      | R_KEY \<Rightarrow> mcr_key ch p r
      | R_SPACES_BEFORE_FLAGS \<Rightarrow> mcr_spaces_before_flags ch p r
      | R_FLAGS \<Rightarrow> mcr_flags ch p r
      | R_SPACES_BEFORE_VLEN \<Rightarrow> mcr_spaces_before_vlen ch p r
      | R_VLEN \<Rightarrow> mcr_vlen ch p r
      | R_RUNTO_VAL \<Rightarrow> mcr_runto_val ch p r
      | R_VAL \<Rightarrow> mcr_val buf p r
      | R_VAL_LF \<Rightarrow> mcr_val_lf ch p r
      | R_END \<Rightarrow> mcr_end buf ch p r
      | R_RUNTO_CRLF \<Rightarrow> mcr_runto_crlf ch p r
      | R_CRLF \<Rightarrow> mcr_crlf ch p r
      | R_ALMOST_DONE \<Rightarrow> mcr_almost_done ch p r)"

section \<open>The parser\<close>

text \<open>\<open>state <= SW_RUNTO_VAL || state == SW_CRLF || state == SW_ALMOST_DONE\<close>\<close>

definition mcr_restarts :: "mcr_state \<Rightarrow> bool" where
  "mcr_restarts st = (st \<notin> {R_VAL, R_VAL_LF, R_END, R_RUNTO_CRLF})"

definition mcr_finish :: "bool \<Rightarrow> mcr \<Rightarrow> ctl \<Rightarrow> mcr" where
  "mcr_finish full r c =
     (case c of
        Next p \<Rightarrow>
          (case token r of
             Some t \<Rightarrow>
               if full
               then r\<lparr>state := (if mcr_restarts (state r) then R_START else state r), pos := t, token := None,
                      result := MSG_PARSE_REPAIR\<rparr>
               else r\<lparr>pos := p, result := MSG_PARSE_AGAIN\<rparr>
           | None \<Rightarrow> r\<lparr>pos := p, result := MSG_PARSE_AGAIN\<rparr>)
      | Done p \<Rightarrow> r\<lparr>pos := p + 1, state := R_START, token := None, result := MSG_PARSE_OK\<rparr>
      | _ \<Rightarrow> r\<lparr>result := MSG_PARSE_ERROR\<rparr>)"

definition memcache_parse_rsp :: "bytes \<Rightarrow> bool \<Rightarrow> mcr \<Rightarrow> mcr option" where
  "memcache_parse_rsp buf full r =
     map_option (\<lambda>(r, c). mcr_finish full r c) (parse_loop mcr_step buf (pos r) r)"

section \<open>Termination\<close>

definition mcr_rank :: "u8 \<Rightarrow> mcr \<Rightarrow> nat" where
  "mcr_rank ch r =
     (case state r of
        R_START \<Rightarrow> 4 | R_RSP_STR \<Rightarrow> 3 | R_RSP_NUM \<Rightarrow> 3
      | R_SPACES_BEFORE_KEY \<Rightarrow> 2 | R_SPACES_BEFORE_FLAGS \<Rightarrow> 1 | R_SPACES_BEFORE_VLEN \<Rightarrow> 2
      | R_VLEN \<Rightarrow> 1 | _ \<Rightarrow> 0)"

lemmas mcr_state_defs =
  mcr_start_def mcr_rsp_num_def mcr_rsp_str_def mcr_spaces_before_key_def mcr_key_def
  mcr_spaces_before_flags_def mcr_flags_def mcr_spaces_before_vlen_def mcr_vlen_def mcr_runto_val_def
  mcr_val_def mcr_val_lf_def mcr_end_def mcr_runto_crlf_def mcr_crlf_def mcr_almost_done_def Let_def

interpretation mcr: parser_step mcr_step mcr_rank
proof unfold_locales
  fix p q :: nat and buf :: bytes and r r' :: mcr
  assume "p < length buf"
  show "p < q \<and> q \<le> length buf \<or> q = p \<and> mcr_rank (buf ! p) r' < mcr_rank (buf ! p) r"
    if "mcr_step buf p r = (r', Next q)"
    using \<open>p < length buf\<close> that
    by (cases "state r")
      (auto simp: mcr_step_def mcr_state_defs mcr_rank_def mcr_status_next_def
        split: if_splits option.splits mc_type.splits)
  show "q = p" if "mcr_step buf p r = (r', Done q)"
    using that
    by (cases "state r") (auto simp: mcr_step_def mcr_state_defs split: if_splits option.splits)
qed

section \<open>What the parser guarantees\<close>

text \<open>The types a complete response can have.\<close>

definition mcr_final :: "mc_type \<Rightarrow> bool" where
  "mcr_final t \<longleftrightarrow> t \<in> {MSG_RSP_MC_NUM, MSG_RSP_MC_STORED, MSG_RSP_MC_NOT_STORED, MSG_RSP_MC_EXISTS,
     MSG_RSP_MC_NOT_FOUND, MSG_RSP_MC_END, MSG_RSP_MC_DELETED, MSG_RSP_MC_TOUCHED, MSG_RSP_MC_ERROR,
     MSG_RSP_MC_CLIENT_ERROR, MSG_RSP_MC_SERVER_ERROR}"

definition mcr_end_ok :: "bytes \<Rightarrow> nat \<Rightarrow> mcr \<Rightarrow> bool" where
  "mcr_end_ok buf p r \<longleftrightarrow>
     (mtype r = MSG_RSP_MC_END \<longrightarrow>
      (\<exists>e. end_mark r = Some e \<and> e + 3 \<le> p \<and> slice buf e (e + 3) = bytes_of ''END''))"

definition mcr_state_ok :: "bytes \<Rightarrow> nat \<Rightarrow> mcr \<Rightarrow> bool" where
  "mcr_state_ok buf p r \<longleftrightarrow>
     (case state r of
        R_RUNTO_CRLF \<Rightarrow> mtype r \<in> {MSG_RSP_MC_VALUE, MSG_RSP_MC_CLIENT_ERROR, MSG_RSP_MC_SERVER_ERROR}
      | R_CRLF \<Rightarrow> mcr_final (mtype r) \<and> mcr_end_ok buf p r
      | R_ALMOST_DONE \<Rightarrow> mcr_final (mtype r) \<and> mcr_end_ok buf p r
      | R_END \<Rightarrow> False
      | R_START \<Rightarrow> True | R_RSP_NUM \<Rightarrow> True | R_RSP_STR \<Rightarrow> True
      | _ \<Rightarrow> mtype r = MSG_RSP_MC_VALUE)"

definition mcr_inv :: "bytes \<Rightarrow> nat \<Rightarrow> mcr \<Rightarrow> bool" where
  "mcr_inv buf p r \<longleftrightarrow> (\<forall>t. token r = Some t \<longrightarrow> t \<le> p) \<and> mcr_state_ok buf p r"

lemma mcr_status_END: "mcr_status m ch = MSG_RSP_MC_END \<longleftrightarrow> m = bytes_of ''END'' \<and> ch = CR"
  by (simp add: mcr_status_def)

lemma mcr_status_cases:
  "mcr_status m ch = MSG_UNKNOWN \<or> mcr_status m ch = MSG_RSP_MC_VALUE \<or> mcr_final (mcr_status m ch)"
  by (simp add: mcr_status_def mcr_final_def)

lemma mcr_status_next_ok:
  assumes "mcr_status m ch = t" "t \<noteq> MSG_UNKNOWN" "mtype r = t" "state r = mcr_status_next t"
    and "t = MSG_RSP_MC_END \<Longrightarrow> mcr_end_ok buf p r"
  shows "mcr_state_ok buf p r"
  using mcr_status_cases [of m ch] assms
  by (cases t) (auto simp: mcr_state_ok_def mcr_status_next_def mcr_final_def mcr_end_ok_def)

lemma mcr_end_ok_mono: "mcr_end_ok buf p r \<Longrightarrow> p \<le> q \<Longrightarrow> mcr_end_ok buf q r"
  by (auto simp: mcr_end_ok_def)

lemma slice_eq_word:
  assumes "slice buf t p = w" "t \<le> p" "p \<le> length buf"
  shows "p = t + length w"
  using assms by auto

lemma mcr_token_step:
  assumes "mcr_step buf p r = (r', Next q)" "p \<le> q" "\<And>t. token r = Some t \<Longrightarrow> t \<le> p" "token r' = Some t"
  shows "t \<le> q"
  using assms
  by (cases "state r")
    (auto simp: mcr_step_def mcr_state_defs mark_token_def split: if_splits option.splits dest: assms(3))

lemma mcr_rsp_str_ok:
  assumes "p < length buf" "\<And>t. token r = Some t \<Longrightarrow> t \<le> p" "state r = R_RSP_STR"
    "mcr_step buf p r = (r', Next q)"
  shows "mcr_state_ok buf q r'"
proof (cases "buf ! p = SPACE \<or> buf ! p = CR")
  case True
  define t where "t = mcr_status (token_word buf p (mark_token p r)) (buf ! p)"
  have r': "mtype r' = t" "state r' = mcr_status_next t" "t \<noteq> MSG_UNKNOWN" "q = p"
    "end_mark r' = (if t = MSG_RSP_MC_END then token (mark_token p r) else end_mark r)"
    using assms(3,4) True by (auto simp: mcr_step_def mcr_rsp_str_def Let_def simp flip: t_def split: if_splits)
  obtain m where m: "token (mark_token p r) = Some m" "m \<le> p"
    using assms(2) by (cases "token r") auto
  have "mcr_end_ok buf p r'" if t_END: "t = MSG_RSP_MC_END"
  proof -
    have w: "slice buf m p = bytes_of ''END''"
      using t_END m(1) by (simp add: t_def mcr_status_END token_word_def)
    moreover have "p = m + length (bytes_of ''END'')"
      using slice_eq_word [OF w m(2)] assms(1) by simp
    ultimately show ?thesis using t_END m r' by (simp add: mcr_end_ok_def numeral_3_eq_3)
  qed
  with r' show ?thesis using mcr_status_next_ok [OF t_def [symmetric], of r' buf q] by simp
next
  case False
  with assms show ?thesis by (auto simp: mcr_step_def mcr_rsp_str_def mcr_state_ok_def Let_def)
qed

lemma mcr_inv_step:
  assumes "p < length buf" "mcr_inv buf p r" "mcr_step buf p r = (r', Next q)"
  shows "mcr_inv buf q r'"
proof -
  have le: "p \<le> q" using mcr.progress [OF assms(1,3)] by auto
  have "mcr_state_ok buf q r'"
  proof (cases "state r")
    case R_RSP_STR
    with assms show ?thesis by (intro mcr_rsp_str_ok) (auto simp: mcr_inv_def)
  qed (use assms le mcr_end_ok_mono [of buf p r q] in
    \<open>auto simp: mcr_inv_def mcr_step_def mcr_state_defs mcr_state_ok_def mcr_final_def mcr_end_ok_def split: if_splits\<close>)
  with assms(2) mcr_token_step [OF assms(3) le] show ?thesis by (auto simp: mcr_inv_def)
qed

lemma mcr_step_Done:
  "mcr_step buf p r = (r', Done q) \<Longrightarrow> state r = R_ALMOST_DONE \<and> r' = r \<and> q = p \<and> buf ! p = LF"
  by (cases "state r") (auto simp: mcr_step_def mcr_state_defs split: if_splits option.splits)

lemma mcr_inv_cong [simp]:
  "mcr_inv buf p (pos_update f r) = mcr_inv buf p r"
  "mcr_inv buf p (result_update g r) = mcr_inv buf p r"
  by (simp_all add: mcr_inv_def mcr_state_ok_def mcr_end_ok_def cong: mcr_state.case_cong)

definition mcr_complete :: "bytes \<Rightarrow> mcr \<Rightarrow> bool" where
  "mcr_complete buf r \<longleftrightarrow>
     0 < pos r \<and> pos r \<le> length buf \<and> buf ! (pos r - 1) = LF \<and> state r = R_START \<and> token r = None \<and>
     mcr_final (mtype r) \<and> mcr_end_ok buf (pos r) r"

text \<open>
  C18: \<open>memcache_parse_rsp\<close> always returns.  Started on a well formed message, it answers with an
  error, or consumes a whole response, or consumes everything there is and asks for more, or asks
  for a repair.  A whole response ends in a line feed inside the buffer and has one of the types of
  a complete response, never VALUE; when that type is END the message remembers where the \<open>END\<close> line
  starts, which \<open>memcache_pre_coalesce\<close> relies on.
\<close>

theorem memcache_parse_rsp_correct:
  assumes "mcr_inv buf (pos r) r" "pos r \<le> length buf"
  shows "\<exists>r'. memcache_parse_rsp buf full r = Some r' \<and>
    (case result r' of
       MSG_PARSE_OK \<Rightarrow> pos r < pos r' \<and> mcr_complete buf r'
     | MSG_PARSE_AGAIN \<Rightarrow> pos r' = length buf \<and> mcr_inv buf (pos r') r' \<and> (full \<longrightarrow> token r' = None)
     | MSG_PARSE_REPAIR \<Rightarrow> full \<and> pos r' \<le> length buf \<and> token r' = None
     | MSG_PARSE_ERROR \<Rightarrow> True)"
proof -
  obtain r1 c where loop: "parse_loop mcr_step buf (pos r) r = Some (r1, c)"
    using mcr.loop_terminates by blast
  have post: "ends_with mcr_step buf (mcr_inv buf) (pos r) r1 c"
    by (rule mcr.loop_post [where I = "mcr_inv buf", OF loop assms]) (rule mcr_inv_step)
  show ?thesis
  proof (cases c)
    case (Next q)
    with loop post show ?thesis
      by (auto simp: ends_with_def memcache_parse_rsp_def mcr_finish_def mcr_inv_def [of buf "length buf" r1] split: option.split)
  next
    case (Done q)
    with post have q: "pos r \<le> q" "q < length buf" "buf ! q = LF" "state r1 = R_ALMOST_DONE" "mcr_inv buf q r1"
      by (auto simp: ends_with_def dest: mcr_step_Done)
    then have "mcr_final (mtype r1)" "mcr_end_ok buf (q + 1) r1"
      using mcr_end_ok_mono [of buf q r1 "q + 1"] by (auto simp: mcr_inv_def mcr_state_ok_def)
    with q Done loop show ?thesis
      by (simp add: memcache_parse_rsp_def mcr_finish_def mcr_complete_def mcr_end_ok_def)
  qed (use loop in \<open>simp_all add: memcache_parse_rsp_def mcr_finish_def\<close>)
qed

abbreviation mcr_fresh :: mcr where
  "mcr_fresh \<equiv> msg_fresh R_START MSG_UNKNOWN"

definition demo_values :: bytes where
  "demo_values = bytes_of ''VALUE k 0 2'' @ [CR, LF] @ bytes_of ''ab'' @ [CR, LF] @ bytes_of ''END'' @ [CR, LF]"

theorem memcache_parse_rsp_correct_witness:
  "\<exists>r'. memcache_parse_rsp demo_values False mcr_fresh = Some r' \<and> result r' = MSG_PARSE_OK \<and>
     mtype r' = MSG_RSP_MC_END \<and> mcr_complete demo_values r'"
proof -
  have inv: "mcr_inv demo_values (pos mcr_fresh) mcr_fresh"
    by (simp add: mcr_inv_def msg_fresh_def mcr_state_ok_def)
  have ok: "map_option (\<lambda>r. (result r, mtype r)) (memcache_parse_rsp demo_values False mcr_fresh) =
      Some (MSG_PARSE_OK, MSG_RSP_MC_END)"
    by code_simp
  show ?thesis
    using memcache_parse_rsp_correct [OF inv, of False] ok by (auto simp: msg_fresh_def)
qed

section \<open>The way the bytes arrive\<close>

text \<open>The states in which the value length is still needed.\<close>

definition vlen_live :: "mcr \<Rightarrow> bool" where
  "vlen_live r \<longleftrightarrow>
     state r \<in> {R_VLEN, R_RUNTO_VAL, R_VAL} \<or> state r = R_RUNTO_CRLF \<and> mtype r = MSG_RSP_MC_VALUE"

definition mcr_obs :: "mcr \<times> ctl \<Rightarrow> mcr \<times> ctl" where
  "mcr_obs = (\<lambda>(r, c). (if is_Next c \<and> vlen_live r then r else r\<lparr>vlen := 0\<rparr>, c))"

lemma mcr_step_vlen:
  assumes "\<not> vlen_live r"
  shows "mcr_step buf p (r\<lparr>vlen := v\<rparr>) =
    (if state r = R_SPACES_BEFORE_VLEN \<and> isdigit (buf ! p) \<and> buf ! p \<noteq> SPACE then mcr_step buf p r
     else map_prod (\<lambda>r. r\<lparr>vlen := v\<rparr>) id (mcr_step buf p r))"
  using assms
  by (cases "state r")
    (auto simp: mcr_step_def mcr_state_defs mark_token_def token_word_def vlen_live_def split: option.split)

lemma mcr_step_dead:
  assumes "\<not> vlen_live r" "mcr_step buf p r = (r', Next q)"
    "\<not> (state r = R_SPACES_BEFORE_VLEN \<and> isdigit (buf ! p) \<and> buf ! p \<noteq> SPACE)"
  shows "\<not> vlen_live r'"
  using assms
  by (cases "state r")
    (auto simp: mcr_step_def mcr_state_defs mcr_status_next_def vlen_live_def split: if_splits option.splits mc_type.splits)

lemma mcr_loop_vlen:
  assumes "\<not> vlen_live r"
  shows "map_option mcr_obs (parse_loop mcr_step buf p (r\<lparr>vlen := v\<rparr>)) = map_option mcr_obs (parse_loop mcr_step buf p r)"
  using assms
proof (induction p r rule: mcr.loop_induct [of buf])
  case (step p r)
  show ?case
  proof (cases "p < length buf")
    case False
    with step.prems show ?thesis by (auto simp: mcr.loop_end mcr_obs_def vlen_live_def)
  next
    case True
    obtain r' c where rc: "mcr_step buf p r = (r', c)" by force
    show ?thesis
    proof (cases "state r = R_SPACES_BEFORE_VLEN \<and> isdigit (buf ! p) \<and> buf ! p \<noteq> SPACE")
      case same: True
      then show ?thesis
        using mcr_step_vlen [OF step.prems, of buf p v] True by (simp add: parse_loop.simps [of mcr_step buf p])
    next
      case False
      then have v: "mcr_step buf p (r\<lparr>vlen := v\<rparr>) = (r'\<lparr>vlen := v\<rparr>, c)"
        using mcr_step_vlen [OF step.prems, of buf p v] rc by auto
      show ?thesis
      proof (cases c)
        case (Next q)
        with step.IH [OF True rc [unfolded Next]] mcr_step_dead [OF step.prems rc [unfolded Next] False] True rc v
        show ?thesis by (simp add: mcr.loop_Next)
      qed (use True rc v in \<open>simp_all add: mcr.loop_stop mcr_obs_def is_Next_def\<close>)
    qed
  qed
qed

lemma mcr_step_append:
  assumes "p < length b1" "state r \<noteq> R_VAL"
  shows "mcr_step (b1 @ b2) p r = mcr_step b1 p r"
  using assms
  by (cases "state r") (auto simp: mcr_step_def mcr_rsp_str_def mcr_end_def Let_def nth_append split: option.split)

lemma mcr_loop_val:
  assumes "p < length buf" "state r = R_VAL"
  shows "parse_loop mcr_step buf p r =
    (let m = p + unat (vlen r) in
     if length buf \<le> m then Some (r\<lparr>vlen := vlen r - word_of_nat (length buf - p)\<rparr>, Next (length buf))
     else if buf ! m \<noteq> CR then Some (r, Fail)
     else parse_loop mcr_step buf (m + 1) (r\<lparr>state := R_VAL_LF\<rparr>))"
proof -
  have "mcr_step buf p r = mcr_val buf p r" using assms(2) by (simp add: mcr_step_def)
  then show ?thesis
    using mcr.loop_Next [OF assms(1), of r] mcr.loop_stop [OF assms(1), of r]
    by (simp add: mcr_val_def Let_def mcr.loop_end)
qed

lemma mcr_loop_val_append:
  assumes "p < length b1" "state r = R_VAL" "length b1 \<le> p + unat (vlen r)"
  shows "map_option mcr_obs (parse_loop mcr_step (b1 @ b2) p r) =
    map_option mcr_obs (parse_loop mcr_step (b1 @ b2) (length b1) (r\<lparr>vlen := vlen r - word_of_nat (length b1 - p)\<rparr>))"
proof (cases "b2 = []")
  case True
  with assms show ?thesis by (simp add: mcr_loop_val Let_def) (simp add: mcr.loop_end)
next
  case False
  define v where "v = vlen r - word_of_nat (length b1 - p)"
  have m: "length b1 + unat v = p + unat (vlen r)"
    using assms(1) unat_sub_of_nat [of "length b1 - p" "vlen r"] assms(3) by (simp add: v_def)
  have w: "v - word_of_nat (length b2) = vlen r - word_of_nat (length b1 + length b2 - p)"
    using assms(1) by (simp add: v_def)
  have dead: "\<not> vlen_live (r\<lparr>state := R_VAL_LF\<rparr>)" by (simp add: vlen_live_def)
  have comm: "r\<lparr>vlen := v, state := R_VAL_LF\<rparr> = r\<lparr>state := R_VAL_LF, vlen := v\<rparr>" by simp
  have lhs: "parse_loop mcr_step (b1 @ b2) p r =
    (if length b1 + length b2 \<le> p + unat (vlen r)
     then Some (r\<lparr>vlen := vlen r - word_of_nat (length b1 + length b2 - p)\<rparr>, Next (length b1 + length b2))
     else if (b1 @ b2) ! (p + unat (vlen r)) \<noteq> CR then Some (r, Fail)
     else parse_loop mcr_step (b1 @ b2) (p + unat (vlen r) + 1) (r\<lparr>state := R_VAL_LF\<rparr>))"
    using mcr_loop_val [of p "b1 @ b2" r] assms by (simp add: Let_def)
  have rhs: "parse_loop mcr_step (b1 @ b2) (length b1) (r\<lparr>vlen := v\<rparr>) =
    (if length b1 + length b2 \<le> p + unat (vlen r)
     then Some (r\<lparr>vlen := vlen r - word_of_nat (length b1 + length b2 - p)\<rparr>, Next (length b1 + length b2))
     else if (b1 @ b2) ! (p + unat (vlen r)) \<noteq> CR then Some (r\<lparr>vlen := v\<rparr>, Fail)
     else parse_loop mcr_step (b1 @ b2) (p + unat (vlen r) + 1) (r\<lparr>state := R_VAL_LF, vlen := v\<rparr>))"
    using mcr_loop_val [of "length b1" "b1 @ b2" "r\<lparr>vlen := v\<rparr>"] assms(2) False by (simp add: Let_def m w comm)
  show ?thesis
    using mcr_loop_vlen [OF dead, of "b1 @ b2" "p + unat (vlen r) + 1" v]
    unfolding v_def [symmetric] lhs rhs by (simp add: mcr_obs_def is_Next_def)
qed

interpretation mcr: chunked_step mcr_step mcr_rank mcr_obs
proof unfold_locales
  fix p b1 b2 r r1 c
  assume p: "p < length b1" and step: "mcr_step b1 p r = (r1, c)"
  show "mcr_step (b1 @ b2) p r = (r1, c) \<or>
    c = Next (length b1) \<and>
    map_option mcr_obs (parse_loop mcr_step (b1 @ b2) p r) =
    map_option mcr_obs (parse_loop mcr_step (b1 @ b2) (length b1) r1)"
  proof (cases "state r = R_VAL \<and> length b1 \<le> p + unat (vlen r)")
    case True
    with step mcr_loop_val_append [OF p, of r b2] show ?thesis
      by (auto simp: mcr_step_def mcr_val_def Let_def)
  next
    case False
    with step p have "mcr_step (b1 @ b2) p r = (r1, c)"
      by (cases "state r = R_VAL") (simp_all add: mcr_step_append, simp add: mcr_step_def mcr_val_def Let_def nth_append)
    then show ?thesis by simp
  qed
qed

definition mcr_view :: "mcr \<Rightarrow> mcr" where
  "mcr_view r =
     (if result r = MSG_PARSE_ERROR then r\<lparr>vlen := 0, pos := 0\<rparr>
      else if result r = MSG_PARSE_AGAIN \<and> vlen_live r then r
      else r\<lparr>vlen := 0\<rparr>)"

lemma mcr_step_frame:
  "mcr_step buf p (r\<lparr>pos := x, result := y\<rparr>) = map_prod (\<lambda>r. r\<lparr>pos := x, result := y\<rparr>) id (mcr_step buf p r)"
  by (cases "state r") (simp_all add: mcr_step_def mcr_state_defs mark_token_def token_word_def split: option.split)

lemma mcr_finish_False:
  "mcr_finish False r c =
     (case c of Next p \<Rightarrow> r\<lparr>pos := p, result := MSG_PARSE_AGAIN\<rparr>
      | Done p \<Rightarrow> r\<lparr>pos := p + 1, state := R_START, token := None, result := MSG_PARSE_OK\<rparr>
      | _ \<Rightarrow> r\<lparr>result := MSG_PARSE_ERROR\<rparr>)"
  by (cases c) (auto simp: mcr_finish_def split: option.split)

lemma vlen_live_cong [simp]:
  "vlen_live (pos_update f r) = vlen_live r" "vlen_live (result_update g r) = vlen_live r"
  "vlen_live (vlen_update h r) = vlen_live r"
  by (simp_all add: vlen_live_def)

lemma mcr_view_finish:
  "mcr_view (mcr_finish False (r\<lparr>pos := x, result := y\<rparr>) c) = mcr_view (mcr_finish False (fst (mcr_obs (r, c))) c)"
  by (cases c) (auto simp: mcr_view_def mcr_finish_False mcr_obs_def is_Next_def)

lemma mcr_parse_view:
  "map_option mcr_view (memcache_parse_rsp buf False (r\<lparr>pos := p, result := y\<rparr>)) =
   map_option (\<lambda>(s, c). mcr_view (mcr_finish False s c)) (map_option mcr_obs (parse_loop mcr_step buf p r))"
  using mcr.loop_commute [where f = "\<lambda>r. r\<lparr>pos := p, result := y\<rparr>", OF mcr_step_frame, of buf p r]
  by (simp add: memcache_parse_rsp_def option.map_comp)
    (simp add: comp_def split_def map_prod_def mcr_view_finish mcr_obs_def)

text \<open>
  C19: it does not matter in which pieces a response arrives in an mbuf.
\<close>

theorem memcache_parse_rsp_chunks:
  assumes "memcache_parse_rsp b1 False r = Some r1" "pos r \<le> length b1"
  shows "if result r1 = MSG_PARSE_AGAIN
    then map_option mcr_view (memcache_parse_rsp (b1 @ b2) False r1) =
         map_option mcr_view (memcache_parse_rsp (b1 @ b2) False r)
    else memcache_parse_rsp (b1 @ b2) False r = Some r1"
proof -
  obtain s c where loop: "parse_loop mcr_step b1 (pos r) r = Some (s, c)"
    using mcr.loop_terminates by blast
  with assms have r1: "r1 = mcr_finish False s c" by (simp add: memcache_parse_rsp_def)
  show ?thesis
  proof (cases c)
    case (Next q)
    have r1': "r1 = s\<lparr>pos := q, result := MSG_PARSE_AGAIN\<rparr>"
      using r1 Next by (simp add: mcr_finish_False)
    have "map_option mcr_view (memcache_parse_rsp (b1 @ b2) False r1) =
      map_option mcr_view (memcache_parse_rsp (b1 @ b2) False (r\<lparr>pos := pos r, result := result r\<rparr>))"
      using mcr.loop_chunk [OF loop [unfolded Next] assms(2), of b2]
      by (simp only: r1' mcr_parse_view)
    then show ?thesis using r1' by simp
  qed (use r1 mcr.loop_chunk_stop [OF loop _ assms(2), of b2] in
    \<open>simp_all add: mcr_finish_False memcache_parse_rsp_def\<close>)
qed

theorem memcache_parse_rsp_chunks_witness:
  "\<exists>r1. memcache_parse_rsp (bytes_of ''STO'') False mcr_fresh = Some r1 \<and> result r1 = MSG_PARSE_AGAIN \<and>
     map_option mcr_view (memcache_parse_rsp (bytes_of ''STO'' @ bytes_of ''RED'' @ [CR, LF]) False r1) =
     map_option mcr_view (memcache_parse_rsp (bytes_of ''STO'' @ bytes_of ''RED'' @ [CR, LF]) False mcr_fresh)"
proof -
  have "map_option result (memcache_parse_rsp (bytes_of ''STO'') False mcr_fresh) = Some MSG_PARSE_AGAIN"
    by code_simp
  then obtain r1 where "memcache_parse_rsp (bytes_of ''STO'') False mcr_fresh = Some r1" "result r1 = MSG_PARSE_AGAIN"
    by auto
  with memcache_parse_rsp_chunks [of "bytes_of ''STO''" mcr_fresh r1 "bytes_of ''RED'' @ [CR, LF]"]
  show ?thesis by (simp add: msg_fresh_def)
qed

end
