(* ===== verification/NC_McRepair.thy ===== *)
theory NC_McRepair
  imports NC_McRsp
begin

text \<open>
  The repair of a memcache response: what \<open>memcache_parse_rsp\<close> and \<open>msg_repair\<close> do together when a
  full mbuf ends in the middle of a line of the response.
\<close>

section \<open>Repair\<close>

text \<open>What the caller learns from a run: where the response ends, its type, and its \<open>END\<close> line.\<close>

definition mcr_outcome :: "(mcr \<times> ctl) option \<Rightarrow> (nat \<times> mc_type \<times> nat option) option" where
  "mcr_outcome res =
     (case res of
        Some (r, Done q) \<Rightarrow> Some (q, mtype r, if mtype r = MSG_RSP_MC_END then end_mark r else None)
      | _ \<Rightarrow> None)"

text \<open>Messages that differ only in fields the machine will not read any more.\<close>

definition mcr_sim :: "mcr \<Rightarrow> mcr \<Rightarrow> bool" where
  "mcr_sim r s \<longleftrightarrow>
     state r = state s \<and>
     (state r \<in> {R_START, R_RSP_NUM, R_RSP_STR, R_VAL, R_VAL_LF, R_END} \<longrightarrow> token r = token s) \<and>
     (state r \<notin> {R_START, R_RSP_NUM, R_RSP_STR} \<longrightarrow> mtype r = mtype s) \<and>
     (vlen_live r \<longrightarrow> vlen r = vlen s) \<and>
     (state r \<notin> {R_START, R_RSP_NUM, R_RSP_STR} \<and> mtype r = MSG_RSP_MC_END \<longrightarrow> end_mark r = end_mark s)"

lemma token_word_cong: "token r = token s \<Longrightarrow> token_word buf p r = token_word buf p s"
  by (simp add: token_word_def)

lemma mcr_status_next_cases:
  "mcr_status_next t = R_SPACES_BEFORE_KEY \<or> mcr_status_next t = R_CRLF \<or>
   mcr_status_next t = R_RUNTO_CRLF \<and> t \<noteq> MSG_RSP_MC_VALUE"
  by (cases t) (simp_all add: mcr_status_next_def)

lemma mcr_sim_rsp_str:
  assumes "mcr_sim r s" "state r = R_RSP_STR" "mcr_step buf p r = (r', c)" "mcr_step buf p s = (s', c')"
  shows "c = c' \<and> (c = Fail \<or> mcr_sim r' s')"
proof -
  define t where "t = mcr_status (token_word buf p (mark_token p r)) (buf ! p)"
  have tok: "token r = token s" "state s = R_RSP_STR"
    using assms(1,2) by (simp_all add: mcr_sim_def)
  then have t': "mcr_status (token_word buf p (mark_token p s)) (buf ! p) = t"
    using token_word_cong [of "mark_token p r" "mark_token p s" buf p] by (simp add: t_def)
  consider (sep) "buf ! p = SPACE \<or> buf ! p = CR" | (word) "\<not> (buf ! p = SPACE \<or> buf ! p = CR)" by blast
  then show ?thesis
  proof cases
    case sep
    then show ?thesis
      using assms(2-4) tok mcr_status_next_cases [of t]
      by (simp add: mcr_step_def mcr_rsp_str_def Let_def t' flip: t_def split: if_splits)
        (elim disjE; clarsimp simp: mcr_sim_def vlen_live_def)+
  next
    case word
    then show ?thesis
      using assms(2-4) tok by (auto simp: mcr_step_def mcr_rsp_str_def Let_def mcr_sim_def vlen_live_def)
  qed
qed

lemma mcr_sim_step:
  assumes "mcr_sim r s" "mcr_step buf p r = (r', c)" "mcr_step buf p s = (s', c')"
  shows "c = c' \<and> (c = Fail \<or> mcr_sim r' s')"
proof -
  have st: "state s = state r" using assms(1) by (simp add: mcr_sim_def)
  show ?thesis
  proof (cases "state r")
    case R_RSP_STR
    show ?thesis by (rule mcr_sim_rsp_str [OF assms(1) R_RSP_STR assms(2,3)])
  next
    case R_VAL
    then have "vlen r = vlen s" "token r = token s" "mtype r = mtype s" "mtype r = MSG_RSP_MC_END \<longrightarrow> end_mark r = end_mark s"
      using assms(1) by (simp_all add: mcr_sim_def vlen_live_def)
    with R_VAL st assms(2,3) show ?thesis
      by (simp add: mcr_step_def mcr_val_def Let_def split: if_splits) (auto simp: mcr_sim_def vlen_live_def)
  next
    case R_END
    with assms st show ?thesis
      by (simp add: mcr_step_def mcr_end_def Let_def split: if_splits option.splits)
        (auto simp: mcr_sim_def vlen_live_def)
  qed (use assms st in \<open>simp_all add: mcr_step_def mcr_start_def mcr_rsp_num_def mcr_spaces_before_key_def mcr_key_def
    mcr_spaces_before_flags_def mcr_flags_def mcr_spaces_before_vlen_def mcr_vlen_def mcr_runto_val_def
    mcr_val_lf_def mcr_runto_crlf_def mcr_crlf_def mcr_almost_done_def Let_def split: if_splits\<close>,
    (clarsimp simp: mcr_sim_def vlen_live_def)+)
qed

lemma mcr_sim_loop:
  "mcr_sim r s \<Longrightarrow> mcr_outcome (parse_loop mcr_step buf p r) = mcr_outcome (parse_loop mcr_step buf p s)"
proof (induction p r arbitrary: s rule: mcr.loop_induct [of buf])
  case (step p r)
  show ?case
  proof (cases "p < length buf")
    case True
    obtain r' c s' c' where st: "mcr_step buf p r = (r', c)" "mcr_step buf p s = (s', c')" by force
    note sim = mcr_sim_step [OF step.prems st]
    show ?thesis
    proof (cases c)
      case (Next q)
      with sim step.IH [OF True st(1) [unfolded Next]] True st show ?thesis by (auto simp: mcr.loop_Next)
    next
      case (Done q)
      with sim True st have "state r = R_ALMOST_DONE" "r' = r" "c' = Done q" "s' = s"
        using mcr_step_Done [of buf p r r' q] mcr_step_Done [of buf p s s' q] by auto
      with True st Done step.prems show ?thesis
        by (auto simp: mcr.loop_stop mcr_outcome_def mcr_sim_def)
    qed (use sim True st in \<open>auto simp: mcr.loop_stop mcr_outcome_def\<close>)
  qed (simp add: mcr.loop_end mcr_outcome_def)
qed

text \<open>A status word that starts with a digit is not accepted.\<close>

lemma isdigit_not_upper:
  "\<not> isdigit 69" "\<not> isdigit 86" "\<not> isdigit 83" "\<not> isdigit 68" "\<not> isdigit 84" "\<not> isdigit 78" "\<not> isdigit 67"
  by (simp_all add: isdigit_def)

lemma mcr_status_digit:
  assumes "m \<noteq> []" "isdigit (hd m)"
  shows "mcr_status m ch = MSG_UNKNOWN"
proof -
  obtain c w where m: "m = c # w" using assms(1) by (cases m) auto
  have "c \<noteq> 69" "c \<noteq> 86" "c \<noteq> 83" "c \<noteq> 68" "c \<noteq> 84" "c \<noteq> 78" "c \<noteq> 67"
    using assms(2) isdigit_not_upper by (auto simp: m)
  then show ?thesis by (simp add: m mcr_status_def bytes_of_def)
qed

lemma mcr_digit_step:
  assumes "state r = R_RSP_STR" "token r = Some t" "t < q" "isdigit (buf ! t)" "q < length buf"
  shows "mcr_step buf q r = (r, Next (q + 1)) \<or> (\<exists>r'. mcr_step buf q r = (r', Fail))"
proof -
  have "slice buf t q \<noteq> []" "hd (slice buf t q) = buf ! t"
    using assms(3,5) nth_slice [of 0 q t buf] length_slice [of q buf t]
    by (auto simp: hd_conv_nth simp flip: length_0_conv)
  then have "mcr_status (slice buf t q) ch = MSG_UNKNOWN" for ch
    using assms(4) by (simp add: mcr_status_digit)
  with assms(1,2) show ?thesis
    by (simp add: mcr_step_def mcr_rsp_str_def token_word_def mark_token_def Let_def)
qed

lemma mcr_digit_word:
  assumes "state r = R_RSP_STR" "token r = Some t" "t < p" "isdigit (buf ! t)"
  shows "mcr_outcome (parse_loop mcr_step buf p r) = None"
proof -
  obtain s c where loop: "parse_loop mcr_step buf p r = Some (s, c)" using mcr.loop_terminates by blast
  let ?I = "\<lambda>q r. state r = R_RSP_STR \<and> token r = Some t \<and> t < q"
  have "\<forall>q. c \<noteq> Done q"
  proof (rule mcr.loop_invariant [OF loop, where I = ?I and Q = "\<lambda>r c. \<forall>q. c \<noteq> Done q"])
    fix q r r' q' assume *: "q < length buf" "?I q r" "mcr_step buf q r = (r', Next q')"
    with mcr_digit_step [of r t q buf] assms(4) show "?I q' r'" by auto
  next
    fix q r r' c assume "q < length buf" "?I q r" "mcr_step buf q r = (r', c)"
    with mcr_digit_step [of r t q buf] assms(4) show "\<forall>q. c \<noteq> Done q" by auto
  qed (use assms in simp_all)
  with loop show ?thesis by (cases c) (simp_all add: mcr_outcome_def)
qed

text \<open>
  The token is the start of the line; a run from there that starts afresh finds what the run that
  is going on finds.
\<close>

definition restarted :: "mcr \<Rightarrow> mcr" where
  "restarted r = r\<lparr>state := R_START, token := None\<rparr>"

definition mcr_replay :: "bytes \<Rightarrow> nat \<Rightarrow> mcr \<Rightarrow> bool" where
  "mcr_replay buf p r \<longleftrightarrow>
     (\<forall>t x. token r = Some t \<and> mcr_outcome (parse_loop mcr_step buf p r) = Some x \<longrightarrow>
        mcr_outcome (parse_loop mcr_step buf t (restarted r)) = Some x) \<and>
     (state r \<in> {R_VAL, R_VAL_LF} \<longrightarrow> token r = None)"

lemma mcr_sim_restarted: "mcr_sim (restarted r) (restarted s)"
  by (simp add: mcr_sim_def restarted_def vlen_live_def)

lemma mcr_status_Nil: "mcr_status [] ch = MSG_UNKNOWN"
  by (simp add: mcr_status_def bytes_of_def)

lemma mcr_step_token:
  assumes "mcr_step buf p r = (r', Next q)" "state r \<noteq> R_END"
  shows "token r' = token r \<or> token r' = None \<or>
    token r = None \<and> q = Suc p \<and> r' = r\<lparr>token := Some p\<rparr> \<and>
      (state r = R_RSP_NUM \<and> isdigit (buf ! p) \<or> state r = R_RSP_STR)"
proof (cases "state r")
  case R_RSP_NUM
  with assms show ?thesis by (cases "token r") (auto simp: mcr_step_def mcr_rsp_num_def mark_token_def Let_def split: if_splits)
next
  case R_RSP_STR
  with assms show ?thesis
    by (cases "token r")
      (auto simp: mcr_step_def mcr_rsp_str_def mark_token_def token_word_def slice_def mcr_status_Nil Let_def split: if_splits)
qed (use assms in \<open>simp_all add: mcr_step_def mcr_state_defs split: if_splits\<close>, auto)

lemma mcr_step_val_token:
  assumes "mcr_step buf p r = (r', Next q)" "state r \<in> {R_VAL, R_VAL_LF} \<longrightarrow> token r = None" "state r \<noteq> R_END"
  shows "state r' \<in> {R_VAL, R_VAL_LF} \<longrightarrow> token r' = None"
proof (cases "state r")
  case R_RSP_STR
  have "mcr_status_next t \<noteq> R_VAL \<and> mcr_status_next t \<noteq> R_VAL_LF" for t
    using mcr_status_next_cases [of t] by auto
  with R_RSP_STR assms(1) show ?thesis
    by (auto simp: mcr_step_def mcr_rsp_str_def Let_def split: if_splits)
qed (use assms in \<open>simp_all add: mcr_step_def mcr_state_defs split: if_splits\<close>, auto)

lemma mcr_loop_start:
  assumes "p < length buf" "state r = (if isdigit (buf ! p) then R_RSP_NUM else R_RSP_STR)" "token r = None"
  shows "mcr_outcome (parse_loop mcr_step buf p (restarted s)) = mcr_outcome (parse_loop mcr_step buf p r)"
proof -
  have "parse_loop mcr_step buf p (restarted s) = parse_loop mcr_step buf p (s\<lparr>state := state r, token := None\<rparr>)"
    by (rule mcr.loop_Next) (use assms in \<open>simp_all add: mcr_step_def mcr_start_def restarted_def\<close>)
  moreover have "mcr_sim (s\<lparr>state := state r, token := None\<rparr>) r"
    using assms by (simp add: mcr_sim_def vlen_live_def)
  ultimately show ?thesis by (simp add: mcr_sim_loop)
qed

lemma mcr_replay_step:
  assumes p: "p < length buf" and rep: "mcr_replay buf p r" and st: "mcr_step buf p r = (r', Next q)" and "state r \<noteq> R_END"
  shows "mcr_replay buf q r'"
proof -
  have loop: "parse_loop mcr_step buf p r = parse_loop mcr_step buf q r'"
    by (rule mcr.loop_Next [OF p st])
  have "mcr_outcome (parse_loop mcr_step buf t (restarted r')) = Some x"
    if t: "token r' = Some t" and x: "mcr_outcome (parse_loop mcr_step buf q r') = Some x" for t x
  proof (cases "token r' = token r")
    case True
    with rep t x have "mcr_outcome (parse_loop mcr_step buf t (restarted r)) = Some x"
      unfolding mcr_replay_def loop by (cases x) auto
    then show ?thesis using mcr_sim_loop [OF mcr_sim_restarted [of r' r]] by simp
  next
    case False
    with mcr_step_token [OF st assms(4)] t have new: "token r = None" "t = p" "q = Suc p" "r' = r\<lparr>token := Some p\<rparr>"
      and state: "state r = R_RSP_NUM \<and> isdigit (buf ! p) \<or> state r = R_RSP_STR"
      by auto
    have "\<not> (state r = R_RSP_STR \<and> isdigit (buf ! p))"
      using mcr_digit_word [of r' p q buf] new x by auto
    with state have "state r = (if isdigit (buf ! p) then R_RSP_NUM else R_RSP_STR)" by auto
    from mcr_loop_start [OF p this new(1), of r'] x new(2) loop show ?thesis by simp
  qed
  moreover have "state r' \<in> {R_VAL, R_VAL_LF} \<longrightarrow> token r' = None"
    by (rule mcr_step_val_token [OF st]) (use rep assms(4) in \<open>simp_all add: mcr_replay_def\<close>)
  ultimately show ?thesis by (simp add: mcr_replay_def)
qed

text \<open>The positions of a message move with the bytes.\<close>

definition mcr_shift :: "nat \<Rightarrow> mcr \<Rightarrow> mcr" where
  "mcr_shift t r = r\<lparr>token := map_option (\<lambda>i. i + t) (token r), end_mark := map_option (\<lambda>i. i + t) (end_mark r)\<rparr>"

lemma mark_token_shift: "mark_token (p + t) (mcr_shift t r) = mcr_shift t (mark_token p r)"
  by (simp add: mark_token_def mcr_shift_def)

lemma token_word_shift: "token_word buf (p + t) (mcr_shift t r) = token_word (drop t buf) p r"
  by (simp add: token_word_def mcr_shift_def slice_drop [symmetric] split: option.split)

lemma mcr_shift_simps [simp]:
  "state (mcr_shift t r) = state r" "mtype (mcr_shift t r) = mtype r" "vlen (mcr_shift t r) = vlen r"
  "token (mcr_shift t r) = map_option (\<lambda>i. i + t) (token r)"
  "end_mark (mcr_shift t r) = map_option (\<lambda>i. i + t) (end_mark r)"
  "(mcr_shift t r)\<lparr>state := s\<rparr> = mcr_shift t (r\<lparr>state := s\<rparr>)"
  "(mcr_shift t r)\<lparr>mtype := ty\<rparr> = mcr_shift t (r\<lparr>mtype := ty\<rparr>)"
  "(mcr_shift t r)\<lparr>vlen := v\<rparr> = mcr_shift t (r\<lparr>vlen := v\<rparr>)"
  "(mcr_shift t r)\<lparr>token := None\<rparr> = mcr_shift t (r\<lparr>token := None\<rparr>)"
  by (simp_all add: mcr_shift_def)

lemma mcr_step_shift:
  assumes "p + t < length buf"
  shows "mcr_step buf (p + t) (mcr_shift t r) = map_prod (mcr_shift t) (shift_ctl t) (mcr_step (drop t buf) p r)"
proof -
  have nth: "drop t buf ! p = buf ! (p + t)" using assms by (simp add: add.commute)
  show ?thesis
  proof (cases "state r")
    case R_RSP_STR
    then show ?thesis
      by (simp add: mcr_step_def mcr_rsp_str_def Let_def nth mark_token_shift token_word_shift)
        (simp add: mcr_shift_def shift_ctl_def)
  next
    case R_RSP_NUM
    then show ?thesis
      by (simp add: mcr_step_def mcr_rsp_num_def Let_def nth mark_token_shift shift_ctl_def)
  next
    case R_VAL
    have "length buf - (p + t) = length (drop t buf) - p" by simp
    with R_VAL assms show ?thesis
      by (auto simp: mcr_step_def mcr_val_def Let_def shift_ctl_def add_ac)
  next
    case R_END
    then show ?thesis
      by (cases "token r")
        (simp_all add: mcr_step_def mcr_end_def Let_def nth slice_drop [symmetric] shift_ctl_def mcr_shift_def)
  qed (simp_all add: mcr_step_def mcr_state_defs nth shift_ctl_def)
qed

lemma mcr_outcome_obs: "mcr_outcome (map_option mcr_obs res) = mcr_outcome res"
  by (cases res) (auto simp: mcr_outcome_def mcr_obs_def split: ctl.split)

lemma mcr_outcome_cong:
  "map_option mcr_obs a = map_option mcr_obs b \<Longrightarrow> mcr_outcome a = mcr_outcome b"
  by (metis mcr_outcome_obs)

text \<open>The run over the first mbuf, seen on all the bytes.\<close>

lemma mcr_replay_run:
  assumes "parse_loop mcr_step b1 p r = Some (s, Next q)" "p \<le> length b1" "mcr_inv b1 p r" "token r = None"
  shows "q = length b1 \<and> mcr_inv b1 q s \<and> mcr_replay (b1 @ b2) q s"
proof -
  let ?I = "\<lambda>p r. mcr_inv b1 p r \<and> mcr_replay (b1 @ b2) p r"
  have "ends_with mcr_step b1 ?I p s (Next q)"
  proof (rule mcr.loop_post [where I = ?I, OF assms(1) _ assms(2)])
    show "?I p r" using assms(3,4) by (simp add: mcr_replay_def)
  next
    fix p r r' q
    assume *: "p < length b1" "?I p r" "mcr_step b1 p r = (r', Next q)"
    have nend: "state r \<noteq> R_END" using *(2) by (auto simp: mcr_inv_def mcr_state_ok_def)
    have "mcr_replay (b1 @ b2) q r'"
    proof (cases "mcr_step (b1 @ b2) p r = (r', Next q)")
      case True
      then show ?thesis by (rule mcr_replay_step [rotated 2]) (use * nend in simp_all)
    next
      case False
      then have "state r = R_VAL" using mcr_step_append [OF *(1), of r b2] *(3) by auto
      then have "token r' = None"
        using mcr_step_token [OF *(3) nend] *(2) by (auto simp: mcr_replay_def)
      then show ?thesis by (simp add: mcr_replay_def)
    qed
    with mcr_inv_step [OF *(1) _ *(3)] *(2) show "?I q r'" by simp
  qed
  then show ?thesis by (auto simp: ends_with_def)
qed

text \<open>What the message looks like when it asks for the repair, and why parsing it again succeeds.\<close>

lemma mcr_repaired_outcome:
  assumes "token s = Some t" "t \<le> length b1" "mcr_inv b1 (length b1) s" "mcr_replay (b1 @ b2) (length b1) s"
    and x: "mcr_outcome (parse_loop mcr_step (b1 @ b2) (length b1) s) = Some x"
    and crlf: "state s = R_RUNTO_CRLF \<Longrightarrow> CR \<notin> set (drop t b1)"
    and r0: "r0 = s\<lparr>state := (if mcr_restarts (state s) then R_START else state s), token := None\<rparr>"
  shows "mcr_outcome (parse_loop mcr_step (b1 @ b2) t r0) = Some x"
proof (cases "mcr_restarts (state s)")
  case True
  then have "r0 = restarted s" by (simp add: r0 restarted_def)
  with assms(1,4) x show ?thesis unfolding mcr_replay_def by (cases x) auto
next
  case False
  have "state s \<noteq> R_END" using assms(3) by (auto simp: mcr_inv_def mcr_state_ok_def)
  with False assms(1,4) have crlf_state: "state s = R_RUNTO_CRLF"
    by (auto simp: mcr_restarts_def mcr_replay_def)
  have "text_at (b1 @ b2) t (drop t b1)" using assms(2) by (simp add: text_at_def)
  then have "parse_loop mcr_step (b1 @ b2) t r0 = parse_loop mcr_step (b1 @ b2) (t + length (drop t b1)) r0"
    by (rule mcr.loop_skip)
      (use crlf [OF crlf_state] crlf_state False in \<open>auto simp: mcr_step_def mcr_runto_crlf_def r0\<close>)
  moreover have "mcr_sim r0 s" using crlf_state False by (simp add: r0 mcr_sim_def vlen_live_def)
  ultimately show ?thesis using x assms(2) by (simp add: mcr_sim_loop)
qed

lemma mcr_outcome_shift:
  "mcr_outcome (map_option (map_prod (mcr_shift t) (shift_ctl t)) res) =
   map_option (\<lambda>(q, ty, e). (q + t, ty, map_option (\<lambda>i. i + t) e)) (mcr_outcome res)"
  by (cases res) (auto simp: mcr_outcome_def shift_ctl_def split: ctl.split)

lemma mcr_outcome_eq_Some:
  "mcr_outcome res = Some (q, ty, e) \<longleftrightarrow>
   (\<exists>r. res = Some (r, Done q) \<and> mtype r = ty \<and> (if ty = MSG_RSP_MC_END then end_mark r else None) = e)"
proof (cases "\<exists>r q'. res = Some (r, Done q')")
  case True
  then show ?thesis by (cases "ty = MSG_RSP_MC_END") (auto simp: mcr_outcome_def)
next
  case False
  then show ?thesis by (auto simp: mcr_outcome_def split: option.splits prod.splits ctl.splits)
qed

lemma mcr_parse_OK:
  assumes "memcache_parse_rsp buf full r = Some r2" "result r2 = MSG_PARSE_OK"
  obtains s q where "parse_loop mcr_step buf (pos r) r = Some (s, Done q)"
    "r2 = s\<lparr>pos := q + 1, state := R_START, token := None, result := MSG_PARSE_OK\<rparr>"
proof -
  obtain s c where "parse_loop mcr_step buf (pos r) r = Some (s, c)" "r2 = mcr_finish full s c"
    using assms(1) mcr.loop_terminates [of buf "pos r" r] by (auto simp: memcache_parse_rsp_def)
  with assms(2) show thesis
    by (cases c) (auto simp: mcr_finish_def split: option.splits if_splits intro: that)
qed

text \<open>
  C17: no response is lost when a full mbuf ends in the middle of one of its lines.  When the
  parser has asked for a repair and all the bytes together are a response, then parsing the bytes
  that \<open>msg_repair\<close> moves to the new mbuf, with what follows them, accepts the same response: same
  type, same end, same \<open>END\<close> line.  (The line of a value must not hold a carriage return before its
  end, as the protocol demands of keys.)
\<close>

theorem memcache_rsp_repair:
  assumes "memcache_parse_rsp b1 True r = Some r1" "result r1 = MSG_PARSE_REPAIR"
    and "pos r \<le> length b1" "mcr_inv b1 (pos r) r" "token r = None"
    and "state r1 = R_RUNTO_CRLF \<longrightarrow> CR \<notin> set (drop (pos r1) b1)"
    and "memcache_parse_rsp (b1 @ b2) full r = Some r2" "result r2 = MSG_PARSE_OK"
  shows "\<exists>r3. memcache_parse_rsp (drop (pos r1) b1 @ b2) full' (r1\<lparr>pos := 0\<rparr>) = Some r3 \<and>
    result r3 = MSG_PARSE_OK \<and> mtype r3 = mtype r2 \<and> pos r3 + pos r1 = pos r2 \<and>
    (mtype r3 = MSG_RSP_MC_END \<longrightarrow> map_option (\<lambda>i. i + pos r1) (end_mark r3) = end_mark r2)"
proof -
  obtain s c where loop: "parse_loop mcr_step b1 (pos r) r = Some (s, c)" "r1 = mcr_finish True s c"
    using assms(1) mcr.loop_terminates [of b1 "pos r" r] by (auto simp: memcache_parse_rsp_def)
  with assms(2) obtain q t where c: "c = Next q" and t: "token s = Some t"
    and r1: "r1 = s\<lparr>state := (if mcr_restarts (state s) then R_START else state s), pos := t, token := None, result := MSG_PARSE_REPAIR\<rparr>"
    by (cases c) (auto simp: mcr_finish_def split: option.splits)
  define r0 where "r0 = s\<lparr>state := (if mcr_restarts (state s) then R_START else state s), token := None\<rparr>"
  have run: "q = length b1" "mcr_inv b1 q s" "mcr_replay (b1 @ b2) q s"
    using mcr_replay_run [OF loop(1) [unfolded c] assms(3,4,5)] by auto
  have le: "t \<le> length b1" using run(1,2) t by (auto simp: mcr_inv_def)
  obtain s2 q2 where s2: "parse_loop mcr_step (b1 @ b2) (pos r) r = Some (s2, Done q2)"
    and r2: "r2 = s2\<lparr>pos := q2 + 1, state := R_START, token := None, result := MSG_PARSE_OK\<rparr>"
    using mcr_parse_OK [OF assms(7,8)] by blast
  define x where "x = (q2, mtype s2, if mtype s2 = MSG_RSP_MC_END then end_mark s2 else None)"
  have "mcr_outcome (parse_loop mcr_step (b1 @ b2) q s) = Some x"
    using mcr_outcome_cong [OF mcr.loop_chunk [OF loop(1) [unfolded c] assms(3), of b2]] s2
    by (simp add: mcr_outcome_def [of "Some (s2, Done q2)"] x_def)
  then have "mcr_outcome (parse_loop mcr_step (b1 @ b2) t r0) = Some x"
    by (intro mcr_repaired_outcome [OF t le _ _ _ _ r0_def])
      (use run assms(6) in \<open>auto simp: r1 mcr_restarts_def split: if_splits\<close>)
  moreover have "mcr_sim (mcr_shift t (r1\<lparr>pos := 0\<rparr>)) r0"
    using run(2) by (auto simp: r1 r0_def mcr_sim_def vlen_live_def mcr_inv_def mcr_state_ok_def mcr_restarts_def
      mcr_replay_def split: mcr_state.splits)
  ultimately have "mcr_outcome (parse_loop mcr_step (b1 @ b2) (0 + t) (mcr_shift t (r1\<lparr>pos := 0\<rparr>))) = Some x"
    using mcr_sim_loop by simp
  then have "map_option (\<lambda>(q, ty, e). (q + t, ty, map_option (\<lambda>i. i + t) e))
      (mcr_outcome (parse_loop mcr_step (drop t (b1 @ b2)) 0 (r1\<lparr>pos := 0\<rparr>))) = Some x"
    using mcr.loop_shift [of t "b1 @ b2" "mcr_shift t", OF _ mcr_step_shift, of 0 "r1\<lparr>pos := 0\<rparr>"] le
    by (simp only: mcr_outcome_shift [symmetric]) simp
  then obtain r4 q4 where "parse_loop mcr_step (drop t b1 @ b2) 0 (r1\<lparr>pos := 0\<rparr>) = Some (r4, Done q4)" "q4 + t = q2"
    "mtype r4 = mtype s2" "mtype r4 = MSG_RSP_MC_END \<longrightarrow> map_option (\<lambda>i. i + t) (end_mark r4) = end_mark s2"
    using le by (auto simp: x_def mcr_outcome_eq_Some split: if_splits)
  then show ?thesis
    by (simp add: memcache_parse_rsp_def mcr_finish_def r2) (simp add: r1)
qed

theorem memcache_rsp_repair_witness:
  "\<exists>r1 r3. memcache_parse_rsp (bytes_of ''STO'') True mcr_fresh = Some r1 \<and> result r1 = MSG_PARSE_REPAIR \<and>
     memcache_parse_rsp (drop (pos r1) (bytes_of ''STO'') @ bytes_of ''RED'' @ [CR, LF]) False (r1\<lparr>pos := 0\<rparr>) = Some r3 \<and>
     result r3 = MSG_PARSE_OK \<and> mtype r3 = MSG_RSP_MC_STORED"
proof -
  have "map_option (\<lambda>r. (result r, state r)) (memcache_parse_rsp (bytes_of ''STO'') True mcr_fresh) =
      Some (MSG_PARSE_REPAIR, R_START)"
    by code_simp
  then obtain r1 where r1: "memcache_parse_rsp (bytes_of ''STO'') True mcr_fresh = Some r1" "result r1 = MSG_PARSE_REPAIR"
    "state r1 = R_START"
    by auto
  have "map_option (\<lambda>r. (result r, mtype r)) (memcache_parse_rsp (bytes_of ''STO'' @ bytes_of ''RED'' @ [CR, LF]) False mcr_fresh) =
      Some (MSG_PARSE_OK, MSG_RSP_MC_STORED)"
    by code_simp
  then obtain r2 where r2: "memcache_parse_rsp (bytes_of ''STO'' @ bytes_of ''RED'' @ [CR, LF]) False mcr_fresh = Some r2"
    "result r2 = MSG_PARSE_OK" "mtype r2 = MSG_RSP_MC_STORED"
    by auto
  have inv: "mcr_inv (bytes_of ''STO'') (pos mcr_fresh) mcr_fresh" "pos mcr_fresh \<le> length (bytes_of ''STO'')" "token mcr_fresh = None"
    by (simp_all add: msg_fresh_def mcr_inv_def mcr_state_ok_def)
  show ?thesis
    using memcache_rsp_repair [OF r1(1,2) inv(2,1,3) _ r2(1,2), of False] r1 r2(3) by auto
qed

end
