(* ===== verification/NC_RedisCmd.thy ===== *)
theory NC_RedisCmd
  imports NC_Parse
begin

text \<open>
  The commands of the redis protocol that the proxy knows: the redis part of \<open>msg_type_t\<close>
  (src/src/nc_message.h), the predicates that group the commands by their arguments and the table of
  command words (src/src/proto/nc_redis.c).
\<close>

section \<open>Message types\<close>

text \<open>The redis part of \<open>msg_type_t\<close>, one datatype per group of the header.\<close>

datatype redis_keys_cmd =
    MSG_REQ_REDIS_DEL | MSG_REQ_REDIS_EXISTS | MSG_REQ_REDIS_EXPIRE | MSG_REQ_REDIS_EXPIREAT
  | MSG_REQ_REDIS_PEXPIRE | MSG_REQ_REDIS_PEXPIREAT | MSG_REQ_REDIS_PERSIST | MSG_REQ_REDIS_PTTL
  | MSG_REQ_REDIS_SORT | MSG_REQ_REDIS_TTL | MSG_REQ_REDIS_TYPE

datatype redis_string_cmd =
    MSG_REQ_REDIS_APPEND | MSG_REQ_REDIS_BITCOUNT | MSG_REQ_REDIS_BITPOS | MSG_REQ_REDIS_DECR
  | MSG_REQ_REDIS_DECRBY | MSG_REQ_REDIS_DUMP | MSG_REQ_REDIS_GET | MSG_REQ_REDIS_GETBIT
  | MSG_REQ_REDIS_GETRANGE | MSG_REQ_REDIS_GETSET | MSG_REQ_REDIS_INCR | MSG_REQ_REDIS_INCRBY
  | MSG_REQ_REDIS_INCRBYFLOAT | MSG_REQ_REDIS_MGET | MSG_REQ_REDIS_MSET | MSG_REQ_REDIS_PSETEX
  | MSG_REQ_REDIS_RESTORE | MSG_REQ_REDIS_SET | MSG_REQ_REDIS_SETBIT | MSG_REQ_REDIS_SETEX
  | MSG_REQ_REDIS_SETNX | MSG_REQ_REDIS_SETRANGE | MSG_REQ_REDIS_STRLEN

datatype redis_hash_cmd =
    MSG_REQ_REDIS_HDEL | MSG_REQ_REDIS_HEXISTS | MSG_REQ_REDIS_HGET | MSG_REQ_REDIS_HGETALL
  | MSG_REQ_REDIS_HINCRBY | MSG_REQ_REDIS_HINCRBYFLOAT | MSG_REQ_REDIS_HKEYS | MSG_REQ_REDIS_HLEN
  | MSG_REQ_REDIS_HMGET | MSG_REQ_REDIS_HMSET | MSG_REQ_REDIS_HSET | MSG_REQ_REDIS_HSETNX
  | MSG_REQ_REDIS_HSCAN | MSG_REQ_REDIS_HVALS

datatype redis_list_cmd =
    MSG_REQ_REDIS_LINDEX | MSG_REQ_REDIS_LINSERT | MSG_REQ_REDIS_LLEN | MSG_REQ_REDIS_LPOP
  | MSG_REQ_REDIS_LPUSH | MSG_REQ_REDIS_LPUSHX | MSG_REQ_REDIS_LRANGE | MSG_REQ_REDIS_LREM
  | MSG_REQ_REDIS_LSET | MSG_REQ_REDIS_LTRIM | MSG_REQ_REDIS_PFADD | MSG_REQ_REDIS_PFCOUNT
  | MSG_REQ_REDIS_PFMERGE | MSG_REQ_REDIS_RPOP | MSG_REQ_REDIS_RPOPLPUSH | MSG_REQ_REDIS_RPUSH
  | MSG_REQ_REDIS_RPUSHX

datatype redis_set_cmd =
    MSG_REQ_REDIS_SADD | MSG_REQ_REDIS_SCARD | MSG_REQ_REDIS_SDIFF | MSG_REQ_REDIS_SDIFFSTORE
  | MSG_REQ_REDIS_SINTER | MSG_REQ_REDIS_SINTERSTORE | MSG_REQ_REDIS_SISMEMBER | MSG_REQ_REDIS_SMEMBERS
  | MSG_REQ_REDIS_SMOVE | MSG_REQ_REDIS_SPOP | MSG_REQ_REDIS_SRANDMEMBER | MSG_REQ_REDIS_SREM
  | MSG_REQ_REDIS_SUNION | MSG_REQ_REDIS_SUNIONSTORE | MSG_REQ_REDIS_SSCAN

datatype redis_zset_cmd =
    MSG_REQ_REDIS_ZADD | MSG_REQ_REDIS_ZCARD | MSG_REQ_REDIS_ZCOUNT | MSG_REQ_REDIS_ZINCRBY
  | MSG_REQ_REDIS_ZINTERSTORE | MSG_REQ_REDIS_ZLEXCOUNT | MSG_REQ_REDIS_ZRANGE | MSG_REQ_REDIS_ZRANGEBYLEX
  | MSG_REQ_REDIS_ZRANGEBYSCORE | MSG_REQ_REDIS_ZRANK | MSG_REQ_REDIS_ZREM | MSG_REQ_REDIS_ZREMRANGEBYRANK
  | MSG_REQ_REDIS_ZREMRANGEBYLEX | MSG_REQ_REDIS_ZREMRANGEBYSCORE | MSG_REQ_REDIS_ZREVRANGE
  | MSG_REQ_REDIS_ZREVRANGEBYSCORE | MSG_REQ_REDIS_ZREVRANK | MSG_REQ_REDIS_ZSCORE
  | MSG_REQ_REDIS_ZUNIONSTORE | MSG_REQ_REDIS_ZSCAN

datatype redis_ctl_cmd =
    MSG_REQ_REDIS_EVAL | MSG_REQ_REDIS_EVALSHA | MSG_REQ_REDIS_PING | MSG_REQ_REDIS_QUIT | MSG_REQ_REDIS_AUTH
  | MSG_REQ_REDIS_SELECT_CLIENT | MSG_REQ_REDIS_SELECT | MSG_REQ_REDIS_SET_SLOW_THRESHOLD

datatype redis_rsp =
    MSG_RSP_REDIS_STATUS | MSG_RSP_REDIS_ERROR | MSG_RSP_REDIS_ERROR_ERR | MSG_RSP_REDIS_ERROR_OOM
  | MSG_RSP_REDIS_ERROR_BUSY | MSG_RSP_REDIS_ERROR_NOAUTH | MSG_RSP_REDIS_ERROR_LOADING
  | MSG_RSP_REDIS_ERROR_BUSYKEY | MSG_RSP_REDIS_ERROR_MISCONF | MSG_RSP_REDIS_ERROR_NOSCRIPT
  | MSG_RSP_REDIS_ERROR_READONLY | MSG_RSP_REDIS_ERROR_WRONGTYPE | MSG_RSP_REDIS_ERROR_EXECABORT
  | MSG_RSP_REDIS_ERROR_MASTERDOWN | MSG_RSP_REDIS_ERROR_NOREPLICAS | MSG_RSP_REDIS_INTEGER
  | MSG_RSP_REDIS_BULK | MSG_RSP_REDIS_MULTIBULK

datatype redis_type =
    REDIS_UNKNOWN
  | Keys redis_keys_cmd | Strs redis_string_cmd | Hash redis_hash_cmd | Lst redis_list_cmd
  | Sets redis_set_cmd | Zset redis_zset_cmd | Ctl redis_ctl_cmd | Rsp redis_rsp

section \<open>The number of arguments\<close>

text \<open>\<open>redis_argz\<close> and \<open>redis_arg0\<close> to \<open>redis_argeval\<close>, \<open>redis_error\<close>, \<open>redis_failure\<close>.\<close>

definition redis_argz :: "redis_type \<Rightarrow> bool" where
  "redis_argz t \<longleftrightarrow> t \<in>
     {Ctl MSG_REQ_REDIS_PING, Ctl MSG_REQ_REDIS_QUIT}"

definition redis_arg0 :: "redis_type \<Rightarrow> bool" where
  "redis_arg0 t \<longleftrightarrow> t \<in>
     {Keys MSG_REQ_REDIS_EXISTS, Keys MSG_REQ_REDIS_PERSIST, Keys MSG_REQ_REDIS_PTTL, Keys MSG_REQ_REDIS_TTL
      , Keys MSG_REQ_REDIS_TYPE, Strs MSG_REQ_REDIS_DUMP, Strs MSG_REQ_REDIS_DECR, Strs MSG_REQ_REDIS_GET
      , Strs MSG_REQ_REDIS_INCR, Strs MSG_REQ_REDIS_STRLEN, Hash MSG_REQ_REDIS_HGETALL
      , Hash MSG_REQ_REDIS_HKEYS, Hash MSG_REQ_REDIS_HLEN, Hash MSG_REQ_REDIS_HVALS, Lst MSG_REQ_REDIS_LLEN
      , Lst MSG_REQ_REDIS_LPOP, Lst MSG_REQ_REDIS_RPOP, Sets MSG_REQ_REDIS_SCARD
      , Sets MSG_REQ_REDIS_SMEMBERS, Sets MSG_REQ_REDIS_SPOP, Zset MSG_REQ_REDIS_ZCARD
      , Lst MSG_REQ_REDIS_PFCOUNT, Ctl MSG_REQ_REDIS_AUTH, Ctl MSG_REQ_REDIS_SELECT_CLIENT
      , Ctl MSG_REQ_REDIS_SET_SLOW_THRESHOLD}"

definition redis_arg1 :: "redis_type \<Rightarrow> bool" where
  "redis_arg1 t \<longleftrightarrow> t \<in>
     {Keys MSG_REQ_REDIS_EXPIRE, Keys MSG_REQ_REDIS_EXPIREAT, Keys MSG_REQ_REDIS_PEXPIRE
      , Keys MSG_REQ_REDIS_PEXPIREAT, Strs MSG_REQ_REDIS_APPEND, Strs MSG_REQ_REDIS_DECRBY
      , Strs MSG_REQ_REDIS_GETBIT, Strs MSG_REQ_REDIS_GETSET, Strs MSG_REQ_REDIS_INCRBY
      , Strs MSG_REQ_REDIS_INCRBYFLOAT, Strs MSG_REQ_REDIS_SETNX, Hash MSG_REQ_REDIS_HEXISTS
      , Hash MSG_REQ_REDIS_HGET, Lst MSG_REQ_REDIS_LINDEX, Lst MSG_REQ_REDIS_LPUSHX
      , Lst MSG_REQ_REDIS_RPOPLPUSH, Lst MSG_REQ_REDIS_RPUSHX, Sets MSG_REQ_REDIS_SISMEMBER
      , Zset MSG_REQ_REDIS_ZRANK, Zset MSG_REQ_REDIS_ZREVRANK, Zset MSG_REQ_REDIS_ZSCORE}"

definition redis_arg2 :: "redis_type \<Rightarrow> bool" where
  "redis_arg2 t \<longleftrightarrow> t \<in>
     {Strs MSG_REQ_REDIS_GETRANGE, Strs MSG_REQ_REDIS_PSETEX, Strs MSG_REQ_REDIS_SETBIT
      , Strs MSG_REQ_REDIS_SETEX, Strs MSG_REQ_REDIS_SETRANGE, Hash MSG_REQ_REDIS_HINCRBY
      , Hash MSG_REQ_REDIS_HINCRBYFLOAT, Hash MSG_REQ_REDIS_HSET, Hash MSG_REQ_REDIS_HSETNX
      , Lst MSG_REQ_REDIS_LRANGE, Lst MSG_REQ_REDIS_LREM, Lst MSG_REQ_REDIS_LSET, Lst MSG_REQ_REDIS_LTRIM
      , Sets MSG_REQ_REDIS_SMOVE, Zset MSG_REQ_REDIS_ZCOUNT, Zset MSG_REQ_REDIS_ZLEXCOUNT
      , Zset MSG_REQ_REDIS_ZINCRBY, Zset MSG_REQ_REDIS_ZREMRANGEBYLEX, Zset MSG_REQ_REDIS_ZREMRANGEBYRANK
      , Zset MSG_REQ_REDIS_ZREMRANGEBYSCORE, Strs MSG_REQ_REDIS_RESTORE}"

definition redis_arg3 :: "redis_type \<Rightarrow> bool" where
  "redis_arg3 t \<longleftrightarrow> t \<in>
     {Lst MSG_REQ_REDIS_LINSERT}"

definition redis_argn :: "redis_type \<Rightarrow> bool" where
  "redis_argn t \<longleftrightarrow> t \<in>
     {Keys MSG_REQ_REDIS_SORT, Strs MSG_REQ_REDIS_BITCOUNT, Strs MSG_REQ_REDIS_BITPOS
      , Strs MSG_REQ_REDIS_SET, Hash MSG_REQ_REDIS_HDEL, Hash MSG_REQ_REDIS_HMGET, Hash MSG_REQ_REDIS_HMSET
      , Hash MSG_REQ_REDIS_HSCAN, Lst MSG_REQ_REDIS_LPUSH, Lst MSG_REQ_REDIS_RPUSH, Sets MSG_REQ_REDIS_SADD
      , Sets MSG_REQ_REDIS_SDIFF, Sets MSG_REQ_REDIS_SDIFFSTORE, Sets MSG_REQ_REDIS_SINTER
      , Sets MSG_REQ_REDIS_SINTERSTORE, Sets MSG_REQ_REDIS_SREM, Sets MSG_REQ_REDIS_SUNION
      , Sets MSG_REQ_REDIS_SUNIONSTORE, Sets MSG_REQ_REDIS_SRANDMEMBER, Sets MSG_REQ_REDIS_SSCAN
      , Lst MSG_REQ_REDIS_PFADD, Lst MSG_REQ_REDIS_PFMERGE, Zset MSG_REQ_REDIS_ZADD
      , Zset MSG_REQ_REDIS_ZINTERSTORE, Zset MSG_REQ_REDIS_ZRANGE, Zset MSG_REQ_REDIS_ZRANGEBYSCORE
      , Zset MSG_REQ_REDIS_ZREM, Zset MSG_REQ_REDIS_ZREVRANGE, Zset MSG_REQ_REDIS_ZRANGEBYLEX
      , Zset MSG_REQ_REDIS_ZREVRANGEBYSCORE, Zset MSG_REQ_REDIS_ZUNIONSTORE, Zset MSG_REQ_REDIS_ZSCAN}"

definition redis_argx :: "redis_type \<Rightarrow> bool" where
  "redis_argx t \<longleftrightarrow> t \<in>
     {Strs MSG_REQ_REDIS_MGET, Keys MSG_REQ_REDIS_DEL}"

definition redis_argkvx :: "redis_type \<Rightarrow> bool" where
  "redis_argkvx t \<longleftrightarrow> t \<in>
     {Strs MSG_REQ_REDIS_MSET}"

definition redis_argeval :: "redis_type \<Rightarrow> bool" where
  "redis_argeval t \<longleftrightarrow> t \<in>
     {Ctl MSG_REQ_REDIS_EVAL, Ctl MSG_REQ_REDIS_EVALSHA}"

definition redis_error :: "redis_type \<Rightarrow> bool" where
  "redis_error t \<longleftrightarrow> t \<in>
     {Rsp MSG_RSP_REDIS_ERROR, Rsp MSG_RSP_REDIS_ERROR_ERR, Rsp MSG_RSP_REDIS_ERROR_OOM
      , Rsp MSG_RSP_REDIS_ERROR_BUSY, Rsp MSG_RSP_REDIS_ERROR_NOAUTH, Rsp MSG_RSP_REDIS_ERROR_LOADING
      , Rsp MSG_RSP_REDIS_ERROR_BUSYKEY, Rsp MSG_RSP_REDIS_ERROR_MISCONF, Rsp MSG_RSP_REDIS_ERROR_NOSCRIPT
      , Rsp MSG_RSP_REDIS_ERROR_READONLY, Rsp MSG_RSP_REDIS_ERROR_WRONGTYPE
      , Rsp MSG_RSP_REDIS_ERROR_EXECABORT, Rsp MSG_RSP_REDIS_ERROR_MASTERDOWN
      , Rsp MSG_RSP_REDIS_ERROR_NOREPLICAS}"

definition redis_failure :: "redis_type \<Rightarrow> bool" where
  "redis_failure t \<longleftrightarrow> t \<in>
     {Rsp MSG_RSP_REDIS_ERROR_OOM, Rsp MSG_RSP_REDIS_ERROR_BUSY, Rsp MSG_RSP_REDIS_ERROR_LOADING}"

lemmas redis_arg_defs =
  redis_argz_def redis_arg0_def redis_arg1_def redis_arg2_def redis_arg3_def redis_argn_def
  redis_argx_def redis_argkvx_def redis_argeval_def

section \<open>The command words\<close>

text \<open>\<open>str3icmp\<close> to \<open>str16icmp\<close>: a byte matches a letter when it is the letter with or without bit 0x20.\<close>

definition icmp :: "bytes \<Rightarrow> string \<Rightarrow> bool" where
  "icmp m w \<longleftrightarrow> list_all2 (\<lambda>a c. a = c \<or> a = c XOR 0x20) m (bytes_of w)"

text \<open>One table per case of \<open>switch (p - m)\<close>.\<close>

definition redis_commands3 :: "(string \<times> redis_type) list" where
  "redis_commands3 =
     [(''get'', Strs MSG_REQ_REDIS_GET), (''set'', Strs MSG_REQ_REDIS_SET)
      , (''ttl'', Keys MSG_REQ_REDIS_TTL), (''del'', Keys MSG_REQ_REDIS_DEL)]"

definition redis_commands4 :: "(string \<times> redis_type) list" where
  "redis_commands4 =
     [(''pttl'', Keys MSG_REQ_REDIS_PTTL), (''decr'', Strs MSG_REQ_REDIS_DECR)
      , (''dump'', Strs MSG_REQ_REDIS_DUMP), (''hdel'', Hash MSG_REQ_REDIS_HDEL)
      , (''hget'', Hash MSG_REQ_REDIS_HGET), (''hlen'', Hash MSG_REQ_REDIS_HLEN)
      , (''hset'', Hash MSG_REQ_REDIS_HSET), (''incr'', Strs MSG_REQ_REDIS_INCR)
      , (''llen'', Lst MSG_REQ_REDIS_LLEN), (''lpop'', Lst MSG_REQ_REDIS_LPOP)
      , (''lrem'', Lst MSG_REQ_REDIS_LREM), (''lset'', Lst MSG_REQ_REDIS_LSET)
      , (''rpop'', Lst MSG_REQ_REDIS_RPOP), (''sadd'', Sets MSG_REQ_REDIS_SADD)
      , (''spop'', Sets MSG_REQ_REDIS_SPOP), (''srem'', Sets MSG_REQ_REDIS_SREM)
      , (''type'', Keys MSG_REQ_REDIS_TYPE), (''mget'', Strs MSG_REQ_REDIS_MGET)
      , (''mset'', Strs MSG_REQ_REDIS_MSET), (''zadd'', Zset MSG_REQ_REDIS_ZADD)
      , (''zrem'', Zset MSG_REQ_REDIS_ZREM), (''eval'', Ctl MSG_REQ_REDIS_EVAL)
      , (''sort'', Keys MSG_REQ_REDIS_SORT), (''ping'', Ctl MSG_REQ_REDIS_PING)
      , (''quit'', Ctl MSG_REQ_REDIS_QUIT), (''auth'', Ctl MSG_REQ_REDIS_AUTH)]"

definition redis_commands5 :: "(string \<times> redis_type) list" where
  "redis_commands5 =
     [(''hkeys'', Hash MSG_REQ_REDIS_HKEYS), (''hmget'', Hash MSG_REQ_REDIS_HMGET)
      , (''hmset'', Hash MSG_REQ_REDIS_HMSET), (''hvals'', Hash MSG_REQ_REDIS_HVALS)
      , (''hscan'', Hash MSG_REQ_REDIS_HSCAN), (''lpush'', Lst MSG_REQ_REDIS_LPUSH)
      , (''ltrim'', Lst MSG_REQ_REDIS_LTRIM), (''rpush'', Lst MSG_REQ_REDIS_RPUSH)
      , (''scard'', Sets MSG_REQ_REDIS_SCARD), (''sdiff'', Sets MSG_REQ_REDIS_SDIFF)
      , (''setex'', Strs MSG_REQ_REDIS_SETEX), (''setnx'', Strs MSG_REQ_REDIS_SETNX)
      , (''smove'', Sets MSG_REQ_REDIS_SMOVE), (''sscan'', Sets MSG_REQ_REDIS_SSCAN)
      , (''zcard'', Zset MSG_REQ_REDIS_ZCARD), (''zrank'', Zset MSG_REQ_REDIS_ZRANK)
      , (''zscan'', Zset MSG_REQ_REDIS_ZSCAN), (''pfadd'', Lst MSG_REQ_REDIS_PFADD)]"

definition redis_commands6 :: "(string \<times> redis_type) list" where
  "redis_commands6 =
     [(''append'', Strs MSG_REQ_REDIS_APPEND), (''bitpos'', Strs MSG_REQ_REDIS_BITPOS)
      , (''decrby'', Strs MSG_REQ_REDIS_DECRBY), (''exists'', Keys MSG_REQ_REDIS_EXISTS)
      , (''expire'', Keys MSG_REQ_REDIS_EXPIRE), (''getbit'', Strs MSG_REQ_REDIS_GETBIT)
      , (''getset'', Strs MSG_REQ_REDIS_GETSET), (''psetex'', Strs MSG_REQ_REDIS_PSETEX)
      , (''hsetnx'', Hash MSG_REQ_REDIS_HSETNX), (''incrby'', Strs MSG_REQ_REDIS_INCRBY)
      , (''lindex'', Lst MSG_REQ_REDIS_LINDEX), (''lpushx'', Lst MSG_REQ_REDIS_LPUSHX)
      , (''lrange'', Lst MSG_REQ_REDIS_LRANGE), (''rpushx'', Lst MSG_REQ_REDIS_RPUSHX)
      , (''select'', Ctl MSG_REQ_REDIS_SELECT_CLIENT), (''setbit'', Strs MSG_REQ_REDIS_SETBIT)
      , (''sinter'', Sets MSG_REQ_REDIS_SINTER), (''strlen'', Strs MSG_REQ_REDIS_STRLEN)
      , (''sunion'', Sets MSG_REQ_REDIS_SUNION), (''zcount'', Zset MSG_REQ_REDIS_ZCOUNT)
      , (''zrange'', Zset MSG_REQ_REDIS_ZRANGE), (''zscore'', Zset MSG_REQ_REDIS_ZSCORE)]"

definition redis_commands7 :: "(string \<times> redis_type) list" where
  "redis_commands7 =
     [(''persist'', Keys MSG_REQ_REDIS_PERSIST), (''pexpire'', Keys MSG_REQ_REDIS_PEXPIRE)
      , (''hexists'', Hash MSG_REQ_REDIS_HEXISTS), (''hgetall'', Hash MSG_REQ_REDIS_HGETALL)
      , (''hincrby'', Hash MSG_REQ_REDIS_HINCRBY), (''linsert'', Lst MSG_REQ_REDIS_LINSERT)
      , (''zincrby'', Zset MSG_REQ_REDIS_ZINCRBY), (''evalsha'', Ctl MSG_REQ_REDIS_EVALSHA)
      , (''restore'', Strs MSG_REQ_REDIS_RESTORE), (''pfcount'', Lst MSG_REQ_REDIS_PFCOUNT)
      , (''pfmerge'', Lst MSG_REQ_REDIS_PFMERGE)]"

definition redis_commands8 :: "(string \<times> redis_type) list" where
  "redis_commands8 =
     [(''expireat'', Keys MSG_REQ_REDIS_EXPIREAT), (''bitcount'', Strs MSG_REQ_REDIS_BITCOUNT)
      , (''getrange'', Strs MSG_REQ_REDIS_GETRANGE), (''setrange'', Strs MSG_REQ_REDIS_SETRANGE)
      , (''smembers'', Sets MSG_REQ_REDIS_SMEMBERS), (''zrevrank'', Zset MSG_REQ_REDIS_ZREVRANK)]"

definition redis_commands9 :: "(string \<times> redis_type) list" where
  "redis_commands9 =
     [(''pexpireat'', Keys MSG_REQ_REDIS_PEXPIREAT), (''rpoplpush'', Lst MSG_REQ_REDIS_RPOPLPUSH)
      , (''sismember'', Sets MSG_REQ_REDIS_SISMEMBER), (''zrevrange'', Zset MSG_REQ_REDIS_ZREVRANGE)
      , (''zlexcount'', Zset MSG_REQ_REDIS_ZLEXCOUNT), (''threshold'', Ctl MSG_REQ_REDIS_SET_SLOW_THRESHOLD)]"

definition redis_commands10 :: "(string \<times> redis_type) list" where
  "redis_commands10 =
     [(''sdiffstore'', Sets MSG_REQ_REDIS_SDIFFSTORE)]"

definition redis_commands11 :: "(string \<times> redis_type) list" where
  "redis_commands11 =
     [(''incrbyfloat'', Strs MSG_REQ_REDIS_INCRBYFLOAT), (''sinterstore'', Sets MSG_REQ_REDIS_SINTERSTORE)
      , (''srandmember'', Sets MSG_REQ_REDIS_SRANDMEMBER), (''sunionstore'', Sets MSG_REQ_REDIS_SUNIONSTORE)
      , (''zinterstore'', Zset MSG_REQ_REDIS_ZINTERSTORE), (''zunionstore'', Zset MSG_REQ_REDIS_ZUNIONSTORE)
      , (''zrangebylex'', Zset MSG_REQ_REDIS_ZRANGEBYLEX)]"

definition redis_commands12 :: "(string \<times> redis_type) list" where
  "redis_commands12 =
     [(''hincrbyfloat'', Hash MSG_REQ_REDIS_HINCRBYFLOAT)]"

definition redis_commands13 :: "(string \<times> redis_type) list" where
  "redis_commands13 =
     [(''zrangebyscore'', Zset MSG_REQ_REDIS_ZRANGEBYSCORE)]"

definition redis_commands14 :: "(string \<times> redis_type) list" where
  "redis_commands14 =
     [(''zremrangebylex'', Zset MSG_REQ_REDIS_ZREMRANGEBYLEX)]"

definition redis_commands15 :: "(string \<times> redis_type) list" where
  "redis_commands15 =
     [(''zremrangebyrank'', Zset MSG_REQ_REDIS_ZREMRANGEBYRANK)]"

definition redis_commands16 :: "(string \<times> redis_type) list" where
  "redis_commands16 =
     [(''zremrangebyscore'', Zset MSG_REQ_REDIS_ZREMRANGEBYSCORE)
      , (''zrevrangebyscore'', Zset MSG_REQ_REDIS_ZREVRANGEBYSCORE)]"
text \<open>The first word of a table that matches.\<close>

definition find_command :: "bytes \<Rightarrow> (string \<times> redis_type) list \<Rightarrow> redis_type" where
  "find_command m tab = (case find (\<lambda>(w, t). icmp m w) tab of Some (w, t) \<Rightarrow> t | None \<Rightarrow> REDIS_UNKNOWN)"

text \<open>
  \<open>switch (p - m)\<close>.  Case 10 has no \<open>break\<close> behind its comparison: a word of ten bytes that is not
  \<open>sdiffstore\<close> is compared, with the carriage return behind it, with the words of eleven letters.
\<close>

definition redis_command :: "bytes \<Rightarrow> redis_type" where
  "redis_command m =
     (if length m = 3 then find_command m redis_commands3
      else if length m = 4 then find_command m redis_commands4
      else if length m = 5 then find_command m redis_commands5
      else if length m = 6 then find_command m redis_commands6
      else if length m = 7 then find_command m redis_commands7
      else if length m = 8 then find_command m redis_commands8
      else if length m = 9 then find_command m redis_commands9
      else if length m = 10 then
        (if find_command m redis_commands10 \<noteq> REDIS_UNKNOWN then find_command m redis_commands10
         else find_command (m @ [CR]) redis_commands11)
      else if length m = 11 then find_command m redis_commands11
      else if length m = 12 then find_command m redis_commands12
      else if length m = 13 then find_command m redis_commands13
      else if length m = 14 then find_command m redis_commands14
      else if length m = 15 then find_command m redis_commands15
      else if length m = 16 then find_command m redis_commands16
      else REDIS_UNKNOWN)"

section \<open>Every command has one form\<close>

text \<open>The nine forms that a request can have, in the order the parser asks for them.\<close>

definition redis_forms :: "(redis_type \<Rightarrow> bool) list" where
  "redis_forms = [redis_argz, redis_arg0, redis_arg1, redis_arg2, redis_arg3, redis_argn, redis_argx, redis_argkvx, redis_argeval]"

definition one_form :: "redis_type \<Rightarrow> bool" where
  "one_form t \<longleftrightarrow> length (filter (\<lambda>form. form t) redis_forms) = 1"

lemmas redis_commands_defs =
  redis_commands3_def redis_commands4_def redis_commands5_def redis_commands6_def redis_commands7_def
  redis_commands8_def redis_commands9_def redis_commands10_def redis_commands11_def redis_commands12_def
  redis_commands13_def redis_commands14_def redis_commands15_def redis_commands16_def

definition all_commands :: "(string \<times> redis_type) list" where
  "all_commands =
     redis_commands3 @ redis_commands4 @ redis_commands5 @ redis_commands6 @ redis_commands7 @ redis_commands8 @
     redis_commands9 @ redis_commands10 @ redis_commands11 @ redis_commands12 @ redis_commands13 @
     redis_commands14 @ redis_commands15 @ redis_commands16"

lemma find_command_in: "find_command m tab = t \<Longrightarrow> t \<noteq> REDIS_UNKNOWN \<Longrightarrow> \<exists>w. (w, t) \<in> set tab \<and> icmp m w"
  by (auto simp: find_command_def find_Some_iff split: option.splits) (metis nth_mem)

lemma redis_command_in:
  assumes "redis_command m \<noteq> REDIS_UNKNOWN"
  shows "\<exists>w. (w, redis_command m) \<in> set all_commands"
proof -
  define known where "known t \<longleftrightarrow> t = REDIS_UNKNOWN \<or> (\<exists>w. (w, t) \<in> set all_commands)" for t
  have "known (find_command n tab)" if "set tab \<subseteq> set all_commands" for n tab
    using find_command_in [of n tab] that unfolding known_def by blast
  then have "known (find_command n tab)"
    if "tab \<in> {redis_commands3, redis_commands4, redis_commands5, redis_commands6, redis_commands7, redis_commands8,
      redis_commands9, redis_commands10, redis_commands11, redis_commands12, redis_commands13, redis_commands14,
      redis_commands15, redis_commands16}" for n tab
    using that unfolding all_commands_def by fastforce
  then have "known (redis_command m)" by (simp add: redis_command_def known_def [of REDIS_UNKNOWN])
  with assms show ?thesis by (simp add: known_def)
qed

lemma all_commands_one_form: "list_all (\<lambda>(w, t). one_form t) all_commands"
  by code_simp

text \<open>The form as a value; \<open>form_ok\<close> says that the predicates agree with it.\<close>

datatype form = FZ | F0 | F1 | F2 | F3 | FN | FX | FKV | FEVAL

definition form_of :: "redis_type \<Rightarrow> form" where
  "form_of t =
     (if redis_argz t then FZ else if redis_arg0 t then F0 else if redis_arg1 t then F1
      else if redis_arg2 t then F2 else if redis_arg3 t then F3 else if redis_argn t then FN
      else if redis_argx t then FX else if redis_argkvx t then FKV else FEVAL)"

definition form_ok :: "redis_type \<Rightarrow> bool" where
  "form_ok t \<longleftrightarrow>
     t \<noteq> REDIS_UNKNOWN \<and>
     redis_argz t = (form_of t = FZ) \<and> redis_arg0 t = (form_of t = F0) \<and> redis_arg1 t = (form_of t = F1) \<and>
     redis_arg2 t = (form_of t = F2) \<and> redis_arg3 t = (form_of t = F3) \<and> redis_argn t = (form_of t = FN) \<and>
     redis_argx t = (form_of t = FX) \<and> redis_argkvx t = (form_of t = FKV) \<and> redis_argeval t = (form_of t = FEVAL)"

lemma one_form_form_ok: "one_form t \<Longrightarrow> t \<noteq> REDIS_UNKNOWN \<Longrightarrow> form_ok t"
  by (simp add: one_form_def redis_forms_def form_ok_def form_of_def split: if_splits)

lemma redis_command_form_ok: "redis_command m \<noteq> REDIS_UNKNOWN \<Longrightarrow> form_ok (redis_command m)"
  using redis_command_in [of m] all_commands_one_form by (auto simp: list_all_iff intro: one_form_form_ok)

text \<open>
  C34: every command word that the parser knows has exactly one form, so exactly one branch of the
  parser decides how many arguments follow, and the branch for a command without a form is never
  taken.
\<close>

theorem redis_command_one_form:
  assumes "redis_command m \<noteq> REDIS_UNKNOWN"
  shows "one_form (redis_command m)"
  using redis_command_in [OF assms] all_commands_one_form by (auto simp: list_all_iff)

theorem redis_command_one_form_witness: "one_form (redis_command (bytes_of ''MgEt''))"
proof -
  have "redis_command (bytes_of ''MgEt'') = Strs MSG_REQ_REDIS_MGET" by code_simp
  with redis_command_one_form [of "bytes_of ''MgEt''"] show ?thesis by simp
qed

section \<open>Every command word is found\<close>

text \<open>A table that the search through it reads in the right way: lower case words of one length, all different.\<close>

definition lower_letter :: "u8 \<Rightarrow> bool" where
  "lower_letter c \<longleftrightarrow> c OR 0x20 = c \<and> (c XOR 0x20) OR 0x20 = c"

definition cmd_table_ok :: "nat \<Rightarrow> (string \<times> redis_type) list \<Rightarrow> bool" where
  "cmd_table_ok n tab \<longleftrightarrow>
     distinct (map (\<lambda>(w, t). bytes_of w) tab) \<and>
     list_all (\<lambda>(w, t). length w = n \<and> list_all lower_letter (bytes_of w) \<and> t \<noteq> REDIS_UNKNOWN) tab"

lemma cmd_tables_ok:
  "cmd_table_ok 3 redis_commands3" "cmd_table_ok 4 redis_commands4" "cmd_table_ok 5 redis_commands5" "cmd_table_ok 6 redis_commands6"
  "cmd_table_ok 7 redis_commands7" "cmd_table_ok 8 redis_commands8" "cmd_table_ok 9 redis_commands9" "cmd_table_ok 10 redis_commands10"
  "cmd_table_ok 11 redis_commands11" "cmd_table_ok 12 redis_commands12" "cmd_table_ok 13 redis_commands13"
  "cmd_table_ok 14 redis_commands14" "cmd_table_ok 15 redis_commands15" "cmd_table_ok 16 redis_commands16"
  by code_simp+

lemma icmp_lower:
  assumes "icmp m w" "list_all lower_letter (bytes_of w)"
  shows "bytes_of w = map (\<lambda>a. a OR 0x20) m"
proof (rule nth_equalityI)
  show "length (bytes_of w) = length (map (\<lambda>a. a OR 0x20) m)"
    using assms(1) by (simp add: icmp_def list_all2_lengthD)
next
  fix i assume i: "i < length (bytes_of w)"
  with assms have "m ! i = bytes_of w ! i \<or> m ! i = bytes_of w ! i XOR 0x20" "lower_letter (bytes_of w ! i)" "i < length m"
    by (auto simp: icmp_def list_all2_conv_all_nth list_all_length)
  then show "bytes_of w ! i = map (\<lambda>a. a OR 0x20) m ! i" by (auto simp: lower_letter_def)
qed

lemma find_command_unique:
  assumes tab: "cmd_table_ok n tab" and "(w, t) \<in> set tab" "icmp m w"
  shows "find_command m tab = t \<and> length m = n \<and> t \<noteq> REDIS_UNKNOWN"
proof -
  have ok: "length v = n" "list_all lower_letter (bytes_of v)" "u \<noteq> REDIS_UNKNOWN" if "(v, u) \<in> set tab" for v u
    using tab that by (auto simp: cmd_table_ok_def list_all_iff)
  have len: "length m = n"
    using assms(3) ok(1) [OF assms(2)] by (auto simp: icmp_def dest: list_all2_lengthD)
  have "\<exists>x \<in> set tab. (\<lambda>(w, t). icmp m w) x" using assms(2,3) by auto
  then obtain v u where find: "find (\<lambda>(w, t). icmp m w) tab = Some (v, u)"
    by (metis (mono_tags, lifting) find_None_iff not_None_eq surj_pair)
  then have vu: "(v, u) \<in> set tab" "icmp m v"
    by (auto simp: find_Some_iff) (metis nth_mem)
  have "bytes_of v = bytes_of w"
    using icmp_lower [OF vu(2) ok(2) [OF vu(1)]] icmp_lower [OF assms(3) ok(2) [OF assms(2)]] by simp
  then have "u = t"
    using tab vu(1) assms(2) by (force simp: cmd_table_ok_def distinct_map inj_on_def)
  with find len ok(3) [OF assms(2)] show ?thesis by (simp add: find_command_def)
qed



end
