(* ===== verification/NC_RedisReq.thy ===== *)
theory NC_RedisReq
  imports NC_RedisCmd
begin

text \<open>
  The redis request parser: \<open>redis_parse_req\<close> of src/src/proto/nc_redis.c, one definition per state
  of its machine.
\<close>

section \<open>The states\<close>

datatype rq_state =
    SW_START | SW_NARG | SW_NARG_LF | SW_REQ_TYPE_LEN | SW_REQ_TYPE_LEN_LF | SW_REQ_TYPE | SW_REQ_TYPE_LF
  | SW_KEY_LEN | SW_KEY_LEN_LF | SW_KEY | SW_KEY_LF
  | SW_ARG1_LEN | SW_ARG1_LEN_LF | SW_ARG1 | SW_ARG1_LF
  | SW_ARG2_LEN | SW_ARG2_LEN_LF | SW_ARG2 | SW_ARG2_LF
  | SW_ARG3_LEN | SW_ARG3_LEN_LF | SW_ARG3 | SW_ARG3_LF
  | SW_ARGN_LEN | SW_ARGN_LEN_LF | SW_ARGN | SW_ARGN_LF

type_synonym rq = "(rq_state, redis_type) parse"

text \<open>The surroundings of a run, with the value of \<open>mbuf_data_size()\<close>.\<close>

record redis_env = parse_env +
  data_size :: nat

text \<open>
  Both states of the first case.  The test for an asterisk is there but its \<open>goto error\<close> is
  commented out, so any byte starts a request.
\<close>

definition rq_narg :: "u8 \<Rightarrow> nat \<Rightarrow> rq \<Rightarrow> rq \<times> ctl" where
  "rq_narg ch p r =
     (if token r = None
      then (r\<lparr>token := Some p, narg_start := Some p, rnarg := 0, state := SW_NARG\<rparr>, Next (p + 1))
      else if isdigit ch then (r\<lparr>rnarg := rnarg r * 10 + digit ch\<rparr>, Next (p + 1))
      else if ch = CR then
        if rnarg r = 0 then (r, Fail)
        else (r\<lparr>narg := rnarg r, narg_end := Some p, token := None, state := SW_NARG_LF\<rparr>, Next (p + 1))
      else (r, Fail))"

text \<open>The states that wait for a line feed.\<close>

definition rq_lf :: "rq_state \<Rightarrow> u8 \<Rightarrow> nat \<Rightarrow> rq \<Rightarrow> rq \<times> ctl" where
  "rq_lf next_state ch p r = (if ch = LF then (r\<lparr>state := next_state\<rparr>, Next (p + 1)) else (r, Fail))"

definition rq_narg_lf :: "u8 \<Rightarrow> nat \<Rightarrow> rq \<Rightarrow> rq \<times> ctl" where
  "rq_narg_lf = rq_lf SW_REQ_TYPE_LEN"

text \<open>
  The length of a bulk.  \<open>ok\<close> is the test that a state makes at the carriage return, given the
  offset of the dollar sign.
\<close>

definition rq_len :: "(nat \<Rightarrow> bool) \<Rightarrow> rq_state \<Rightarrow> u8 \<Rightarrow> nat \<Rightarrow> rq \<Rightarrow> rq \<times> ctl" where
  "rq_len ok next_state ch p r =
     (case token r of
        None \<Rightarrow> if ch \<noteq> 36 then (r, Fail) else (r\<lparr>token := Some p, rlen := 0\<rparr>, Next (p + 1))
      | Some t \<Rightarrow>
          if isdigit ch then (r\<lparr>rlen := rlen r * 10 + digit ch\<rparr>, Next (p + 1))
          else if ch = CR then
            if \<not> ok t \<or> rnarg r = 0 then (r, Fail)
            else (r\<lparr>rnarg := rnarg r - 1, token := None, state := next_state\<rparr>, Next (p + 1))
          else (r, Fail))"

definition rq_req_type_len :: "u8 \<Rightarrow> nat \<Rightarrow> rq \<Rightarrow> rq \<times> ctl" where
  "rq_req_type_len ch p r = rq_len (\<lambda>t. rlen r \<noteq> 0) SW_REQ_TYPE_LEN_LF ch p r"

definition rq_req_type_len_lf :: "u8 \<Rightarrow> nat \<Rightarrow> rq \<Rightarrow> rq \<times> ctl" where
  "rq_req_type_len_lf = rq_lf SW_REQ_TYPE"

text \<open>What a recognised command sets besides the type.\<close>

definition rq_flags :: "redis_type \<Rightarrow> rq \<Rightarrow> rq" where
  "rq_flags t r =
     r\<lparr>noforward := (if t \<in> {Ctl MSG_REQ_REDIS_PING, Ctl MSG_REQ_REDIS_AUTH, Ctl MSG_REQ_REDIS_SELECT_CLIENT,
                               Ctl MSG_REQ_REDIS_SET_SLOW_THRESHOLD} then True else noforward r),
       quit := (if t = Ctl MSG_REQ_REDIS_QUIT then True else quit r)\<rparr>"

definition rq_req_type :: "bytes \<Rightarrow> nat \<Rightarrow> rq \<Rightarrow> rq \<times> ctl" where
  "rq_req_type buf p r =
     (let r = mark_token p r;
          start = (case token r of Some t \<Rightarrow> t | None \<Rightarrow> p);
          m = start + unat (rlen r)
      in
      if length buf \<le> m then (r, Next (length buf))
      else if buf ! m \<noteq> CR then (r, Fail)
      else
        let t = redis_command (slice buf start m);
            r = rq_flags t (r\<lparr>rlen := 0, token := None, mtype := t\<rparr>)
        in if t = REDIS_UNKNOWN then (r, Fail) else (r\<lparr>state := SW_REQ_TYPE_LF\<rparr>, Next (m + 1)))"

definition rq_req_type_lf :: "u8 \<Rightarrow> nat \<Rightarrow> rq \<Rightarrow> rq \<times> ctl" where
  "rq_req_type_lf ch p r =
     (if ch \<noteq> LF then (r, Fail)
      else if redis_argz (mtype r) then (r, Done p)
      else if narg r = 1 then (r, Fail)
      else if redis_argeval (mtype r) then (r\<lparr>state := SW_ARG1_LEN\<rparr>, Next (p + 1))
      else (r\<lparr>state := SW_KEY_LEN\<rparr>, Next (p + 1)))"

definition rq_key_len :: "redis_env \<Rightarrow> u8 \<Rightarrow> nat \<Rightarrow> rq \<Rightarrow> rq \<times> ctl" where
  "rq_key_len env ch p r = rq_len (\<lambda>t. unat (rlen r) < data_size env) SW_KEY_LEN_LF ch p r"

definition rq_key_len_lf :: "u8 \<Rightarrow> nat \<Rightarrow> rq \<Rightarrow> rq \<times> ctl" where
  "rq_key_len_lf = rq_lf SW_KEY"

definition rq_key :: "redis_env \<Rightarrow> bytes \<Rightarrow> nat \<Rightarrow> rq \<Rightarrow> rq \<times> ctl" where
  "rq_key env buf p r =
     (let r = mark_token p r;
          start = (case token r of Some t \<Rightarrow> t | None \<Rightarrow> p);
          m = start + unat (rlen r)
      in
      if length buf \<le> m then (r, Next (length buf))
      else if buf ! m \<noteq> CR then (r, Fail)
      else
        let r = r\<lparr>rlen := 0, token := None\<rparr> in
        if \<not> push_ok env then (r, Enomem)
        else (r\<lparr>keys := keys r @ [\<lparr>kp_mbuf = mbuf_id env, kp_start = start, kp_end = m\<rparr>], state := SW_KEY_LF\<rparr>,
              Next (m + 1)))"

text \<open>How a state that has seen the line feed behind an argument goes on.\<close>

definition goto_if :: "bool \<Rightarrow> rq_state \<Rightarrow> nat \<Rightarrow> rq \<Rightarrow> rq \<times> ctl" where
  "goto_if ok next_state p r = (if ok then (r\<lparr>state := next_state\<rparr>, Next (p + 1)) else (r, Fail))"

definition done_or :: "rq_state \<Rightarrow> nat \<Rightarrow> rq \<Rightarrow> rq \<times> ctl" where
  "done_or next_state p r = (if rnarg r = 0 then (r, Done p) else (r\<lparr>state := next_state\<rparr>, Next (p + 1)))"

definition done_if :: "bool \<Rightarrow> nat \<Rightarrow> rq \<Rightarrow> rq \<times> ctl" where
  "done_if ok p r = (if ok then (r, Done p) else (r, Fail))"

definition rq_key_lf :: "u8 \<Rightarrow> nat \<Rightarrow> rq \<Rightarrow> rq \<times> ctl" where
  "rq_key_lf ch p r =
     (let t = mtype r; n = rnarg r in
      if ch \<noteq> LF then (r, Fail)
      else if redis_arg0 t then done_if (n = 0) p r
      else if redis_arg1 t then goto_if (n = 1) SW_ARG1_LEN p r
      else if redis_arg2 t then goto_if (n = 2) SW_ARG1_LEN p r
      else if redis_arg3 t then goto_if (n = 3) SW_ARG1_LEN p r
      else if redis_argn t then done_or SW_ARG1_LEN p r
      else if redis_argx t then done_or SW_KEY_LEN p r
      else if redis_argkvx t then goto_if (narg r mod 2 \<noteq> 0) SW_ARG1_LEN p r
      else if redis_argeval t then done_or SW_ARGN_LEN p r
      else (r, Fail))"

text \<open>\<open>(p - r->token) <= 1\<close>: a length without a digit is an error.\<close>

definition rq_arg1_len :: "u8 \<Rightarrow> nat \<Rightarrow> rq \<Rightarrow> rq \<times> ctl" where
  "rq_arg1_len ch p r = rq_len (\<lambda>t. 1 < p - t) SW_ARG1_LEN_LF ch p r"

definition rq_arg1_len_lf :: "u8 \<Rightarrow> nat \<Rightarrow> rq \<Rightarrow> rq \<times> ctl" where
  "rq_arg1_len_lf = rq_lf SW_ARG1"

text \<open>An argument is skipped; what is missing of it is remembered in \<open>rlen\<close>.\<close>

definition rq_skip :: "rq_state \<Rightarrow> bytes \<Rightarrow> nat \<Rightarrow> rq \<Rightarrow> rq \<times> ctl" where
  "rq_skip next_state buf p r =
     (let m = p + unat (rlen r) in
      if length buf \<le> m then (r\<lparr>rlen := rlen r - word_of_nat (length buf - p)\<rparr>, Next (length buf))
      else if buf ! m \<noteq> CR then (r, Fail)
      else (r\<lparr>rlen := 0, state := next_state\<rparr>, Next (m + 1)))"

definition rq_arg1 :: "bytes \<Rightarrow> nat \<Rightarrow> rq \<Rightarrow> rq \<times> ctl" where
  "rq_arg1 = rq_skip SW_ARG1_LF"

definition rq_arg1_lf :: "u8 \<Rightarrow> nat \<Rightarrow> rq \<Rightarrow> rq \<times> ctl" where
  "rq_arg1_lf ch p r =
     (let t = mtype r; n = rnarg r in
      if ch \<noteq> LF then (r, Fail)
      else if redis_arg1 t then done_if (n = 0) p r
      else if redis_arg2 t then goto_if (n = 1) SW_ARG2_LEN p r
      else if redis_arg3 t then goto_if (n = 2) SW_ARG2_LEN p r
      else if redis_argn t then done_or SW_ARGN_LEN p r
      else if redis_argeval t then goto_if (\<not> n < 2) SW_ARG2_LEN p r
      else if redis_argkvx t then done_or SW_KEY_LEN p r
      else (r, Fail))"

definition rq_arg2_len :: "u8 \<Rightarrow> nat \<Rightarrow> rq \<Rightarrow> rq \<times> ctl" where
  "rq_arg2_len ch p r = rq_len (\<lambda>t. 1 < p - t) SW_ARG2_LEN_LF ch p r"

definition rq_arg2_len_lf :: "u8 \<Rightarrow> nat \<Rightarrow> rq \<Rightarrow> rq \<times> ctl" where
  "rq_arg2_len_lf = rq_lf SW_ARG2"

text \<open>The number of keys of \<open>EVAL\<close>; \<open>None\<close> when a byte is not a digit.\<close>

fun nkey_of :: "u32 \<Rightarrow> bytes \<Rightarrow> u32 option" where
  "nkey_of n [] = Some n"
| "nkey_of n (c # cs) = (if isdigit c then nkey_of (n * 10 + digit c) cs else None)"

definition rq_arg2 :: "bytes \<Rightarrow> nat \<Rightarrow> rq \<Rightarrow> rq \<times> ctl" where
  "rq_arg2 buf p r =
     (let r = (if redis_argeval (mtype r) then mark_token p r else r);
          m = p + unat (rlen r)
      in
      if length buf \<le> m then (r\<lparr>rlen := rlen r - word_of_nat (length buf - p)\<rparr>, Next (length buf))
      else if buf ! m \<noteq> CR then (r, Fail)
      else
        let r = r\<lparr>rlen := 0\<rparr> in
        if redis_argeval (mtype r) then
          let start = (case token r of Some t \<Rightarrow> t | None \<Rightarrow> p) in
          if m - start < 1 then (r, Fail)
          else case nkey_of 0 (slice buf start m) of
              None \<Rightarrow> (r, Fail)
            | Some n \<Rightarrow> if n = 0 then (r, Fail) else (r\<lparr>token := None, state := SW_ARG2_LF\<rparr>, Next (m + 1))
        else (r\<lparr>state := SW_ARG2_LF\<rparr>, Next (m + 1)))"

definition rq_arg2_lf :: "u8 \<Rightarrow> nat \<Rightarrow> rq \<Rightarrow> rq \<times> ctl" where
  "rq_arg2_lf ch p r =
     (let t = mtype r; n = rnarg r in
      if ch \<noteq> LF then (r, Fail)
      else if redis_arg2 t then done_if (n = 0) p r
      else if redis_arg3 t then goto_if (n = 1) SW_ARG3_LEN p r
      else if redis_argn t then done_or SW_ARGN_LEN p r
      else if redis_argeval t then goto_if (\<not> n < 1) SW_KEY_LEN p r
      else (r, Fail))"

definition rq_arg3_len :: "u8 \<Rightarrow> nat \<Rightarrow> rq \<Rightarrow> rq \<times> ctl" where
  "rq_arg3_len ch p r = rq_len (\<lambda>t. 1 < p - t) SW_ARG3_LEN_LF ch p r"

definition rq_arg3_len_lf :: "u8 \<Rightarrow> nat \<Rightarrow> rq \<Rightarrow> rq \<times> ctl" where
  "rq_arg3_len_lf = rq_lf SW_ARG3"

definition rq_arg3 :: "bytes \<Rightarrow> nat \<Rightarrow> rq \<Rightarrow> rq \<times> ctl" where
  "rq_arg3 = rq_skip SW_ARG3_LF"

definition rq_arg3_lf :: "u8 \<Rightarrow> nat \<Rightarrow> rq \<Rightarrow> rq \<times> ctl" where
  "rq_arg3_lf ch p r =
     (let t = mtype r; n = rnarg r in
      if ch \<noteq> LF then (r, Fail)
      else if redis_arg3 t then done_if (n = 0) p r
      else if redis_argn t then done_or SW_ARGN_LEN p r
      else (r, Fail))"

definition rq_argn_len :: "u8 \<Rightarrow> nat \<Rightarrow> rq \<Rightarrow> rq \<times> ctl" where
  "rq_argn_len ch p r = rq_len (\<lambda>t. 1 < p - t) SW_ARGN_LEN_LF ch p r"

definition rq_argn_len_lf :: "u8 \<Rightarrow> nat \<Rightarrow> rq \<Rightarrow> rq \<times> ctl" where
  "rq_argn_len_lf = rq_lf SW_ARGN"

definition rq_argn :: "bytes \<Rightarrow> nat \<Rightarrow> rq \<Rightarrow> rq \<times> ctl" where
  "rq_argn = rq_skip SW_ARGN_LF"

definition rq_argn_lf :: "u8 \<Rightarrow> nat \<Rightarrow> rq \<Rightarrow> rq \<times> ctl" where
  "rq_argn_lf ch p r =
     (if ch \<noteq> LF then (r, Fail)
      else if redis_argn (mtype r) \<or> redis_argeval (mtype r) then done_or SW_ARGN_LEN p r
      else (r, Fail))"

definition rq_step :: "redis_env \<Rightarrow> bytes \<Rightarrow> nat \<Rightarrow> rq \<Rightarrow> rq \<times> ctl" where
  "rq_step env buf p r =
     (let ch = buf ! p in
      case state r of
        SW_START \<Rightarrow> rq_narg ch p r
      | SW_NARG \<Rightarrow> rq_narg ch p r
      | SW_NARG_LF \<Rightarrow> rq_narg_lf ch p r
      | SW_REQ_TYPE_LEN \<Rightarrow> rq_req_type_len ch p r
      | SW_REQ_TYPE_LEN_LF \<Rightarrow> rq_req_type_len_lf ch p r
      | SW_REQ_TYPE \<Rightarrow> rq_req_type buf p r
      | SW_REQ_TYPE_LF \<Rightarrow> rq_req_type_lf ch p r
      | SW_KEY_LEN \<Rightarrow> rq_key_len env ch p r
      | SW_KEY_LEN_LF \<Rightarrow> rq_key_len_lf ch p r
      | SW_KEY \<Rightarrow> rq_key env buf p r
      | SW_KEY_LF \<Rightarrow> rq_key_lf ch p r
      | SW_ARG1_LEN \<Rightarrow> rq_arg1_len ch p r
      | SW_ARG1_LEN_LF \<Rightarrow> rq_arg1_len_lf ch p r
      | SW_ARG1 \<Rightarrow> rq_arg1 buf p r
      | SW_ARG1_LF \<Rightarrow> rq_arg1_lf ch p r
      | SW_ARG2_LEN \<Rightarrow> rq_arg2_len ch p r
      | SW_ARG2_LEN_LF \<Rightarrow> rq_arg2_len_lf ch p r
      | SW_ARG2 \<Rightarrow> rq_arg2 buf p r
      | SW_ARG2_LF \<Rightarrow> rq_arg2_lf ch p r
      | SW_ARG3_LEN \<Rightarrow> rq_arg3_len ch p r
      | SW_ARG3_LEN_LF \<Rightarrow> rq_arg3_len_lf ch p r
      | SW_ARG3 \<Rightarrow> rq_arg3 buf p r
      | SW_ARG3_LF \<Rightarrow> rq_arg3_lf ch p r
      | SW_ARGN_LEN \<Rightarrow> rq_argn_len ch p r
      | SW_ARGN_LEN_LF \<Rightarrow> rq_argn_len_lf ch p r
      | SW_ARGN \<Rightarrow> rq_argn buf p r
      | SW_ARGN_LF \<Rightarrow> rq_argn_lf ch p r)"

section \<open>The parser\<close>

definition rq_finish :: "bool \<Rightarrow> rq \<Rightarrow> ctl \<Rightarrow> rq" where
  "rq_finish full r c =
     (case c of
        Next p \<Rightarrow>
          (case token r of
             Some t \<Rightarrow>
               if full then r\<lparr>pos := t, token := None, result := MSG_PARSE_REPAIR\<rparr>
               else r\<lparr>pos := p, result := MSG_PARSE_AGAIN\<rparr>
           | None \<Rightarrow> r\<lparr>pos := p, result := MSG_PARSE_AGAIN\<rparr>)
      | Done p \<Rightarrow> r\<lparr>pos := p + 1, state := SW_START, token := None, result := MSG_PARSE_OK\<rparr>
      | Fail \<Rightarrow> r\<lparr>result := MSG_PARSE_ERROR\<rparr>
      | Enomem \<Rightarrow> r\<lparr>result := MSG_PARSE_ERROR\<rparr>)"

definition redis_parse_req :: "redis_env \<Rightarrow> bytes \<Rightarrow> bool \<Rightarrow> rq \<Rightarrow> rq option" where
  "redis_parse_req env buf full r =
     map_option (\<lambda>(r, c). rq_finish full r c) (parse_loop (rq_step env) buf (pos r) r)"

lemmas rq_generic_defs = rq_lf_def rq_len_def rq_skip_def goto_if_def done_or_def done_if_def Let_def

lemmas rq_state_defs =
  rq_narg_def rq_narg_lf_def rq_req_type_len_def rq_req_type_len_lf_def rq_req_type_def rq_req_type_lf_def
  rq_key_len_def rq_key_len_lf_def rq_key_def rq_key_lf_def
  rq_arg1_len_def rq_arg1_len_lf_def rq_arg1_def rq_arg1_lf_def
  rq_arg2_len_def rq_arg2_len_lf_def rq_arg2_def rq_arg2_lf_def
  rq_arg3_len_def rq_arg3_len_lf_def rq_arg3_def rq_arg3_lf_def
  rq_argn_len_def rq_argn_len_lf_def rq_argn_def rq_argn_lf_def

section \<open>Termination\<close>

text \<open>
  In the two states that look for the end of a token, the end is never before the byte the machine
  is at.  It holds whenever the machine gets there, and makes every turn move forward.
\<close>

definition rq_sane :: "nat \<Rightarrow> rq \<Rightarrow> bool" where
  "rq_sane p r \<longleftrightarrow>
     (state r \<in> {SW_REQ_TYPE_LEN_LF, SW_KEY_LEN_LF} \<longrightarrow> token r = None) \<and>
     (state r \<in> {SW_REQ_TYPE, SW_KEY} \<longrightarrow> (\<forall>t. token r = Some t \<longrightarrow> t \<le> p \<and> p \<le> t + unat (rlen r)))"

definition rq_gstep :: "redis_env \<Rightarrow> bytes \<Rightarrow> nat \<Rightarrow> rq \<Rightarrow> rq \<times> ctl" where
  "rq_gstep env buf p r = (if rq_sane p r then rq_step env buf p r else (r, Fail))"

lemma rq_step_forward:
  assumes "p < length buf" "rq_sane p r" "rq_step env buf p r = (r', Next q)"
  shows "p < q \<and> q \<le> length buf"
  using assms
  by (cases "state r";
      auto simp: rq_step_def rq_state_defs rq_generic_defs rq_sane_def split: if_splits option.splits)

lemma rq_step_Done_pos: "rq_step env buf p r = (r', Done q) \<Longrightarrow> q = p"
  by (cases "state r";
      auto simp: rq_step_def rq_state_defs rq_generic_defs split: if_splits option.splits)

interpretation rq: parser_step "rq_gstep env" "\<lambda>_ _. 0" for env
  by unfold_locales (auto simp: rq_gstep_def dest: rq_step_forward rq_step_Done_pos split: if_splits)

lemma rq_flags_simps [simp]:
  "state (rq_flags t r) = state r" "token (rq_flags t r) = token r" "keys (rq_flags t r) = keys r"
  "rlen (rq_flags t r) = rlen r" "rnarg (rq_flags t r) = rnarg r" "narg (rq_flags t r) = narg r"
  "mtype (rq_flags t r) = mtype r" "pos (rq_flags t r) = pos r"
  by (simp_all add: rq_flags_def)

lemma rq_sane_step:
  assumes "p < length buf" "rq_sane p r" "rq_step env buf p r = (r', Next q)"
  shows "rq_sane q r'"
  using assms
  by (cases "state r";
      auto simp: rq_step_def rq_state_defs rq_generic_defs rq_sane_def split: if_splits option.splits)

text \<open>On the messages that occur, the guard changes nothing.\<close>

lemma rq_loop_guard:
  "rq_sane p r \<Longrightarrow> parse_loop (rq_step env) buf p r = parse_loop (rq_gstep env) buf p r"
proof (induction p r rule: rq.loop_induct [of buf env])
  case (step p r)
  show ?case
  proof (cases "p < length buf")
    case True
    obtain r' c where rc: "rq_step env buf p r = (r', c)" by force
    with step.prems have g: "rq_gstep env buf p r = (r', c)" by (simp add: rq_gstep_def)
    show ?thesis
    proof (cases c)
      case (Next q)
      with step.IH [OF True g [unfolded Next]] rq_sane_step [OF True step.prems rc [unfolded Next]] True rc g
      show ?thesis by (simp add: parse_loop.simps [of _ buf p])
    qed (use True rc g in \<open>simp_all add: parse_loop.simps [of _ buf p]\<close>)
  qed (simp add: parse_loop.simps [of _ buf p])
qed

end
