(* ===== verification/NC_RedisChunk.thy ===== *)
theory NC_RedisChunk
  imports NC_RedisReq
begin

text \<open>
  The way the bytes of a redis request arrive: in pieces appended to an mbuf.
\<close>

section \<open>Turns on a part of the bytes\<close>

text \<open>\<open>rlen\<close> counts down what is missing of an argument, which shows when the argument is malformed.\<close>

definition rq_obs :: "rq \<times> ctl \<Rightarrow> rq \<times> ctl" where
  "rq_obs = (\<lambda>(r, c). (if c = Fail then r\<lparr>rlen := 0\<rparr> else r, c))"

text \<open>Where the bulk ends that the state looks for.\<close>

definition rq_target :: "nat \<Rightarrow> rq \<Rightarrow> nat" where
  "rq_target p r =
     (if state r \<in> {SW_REQ_TYPE, SW_KEY} then (case token r of Some t \<Rightarrow> t | None \<Rightarrow> p) else p) + unat (rlen r)"

definition rq_bulk :: "rq \<Rightarrow> bool" where
  "rq_bulk r \<longleftrightarrow> state r \<in> {SW_REQ_TYPE, SW_KEY, SW_ARG1, SW_ARG2, SW_ARG3, SW_ARGN}"

lemma rq_bulk_cases:
  assumes "rq_bulk r"
  obtains "state r = SW_REQ_TYPE" | "state r = SW_KEY" | "state r = SW_ARG1" | "state r = SW_ARG2" | "state r = SW_ARG3"
    | "state r = SW_ARGN"
  using assms unfolding rq_bulk_def by blast

lemma rq_skip_append:
  "p + unat (rlen r) < length b1 \<Longrightarrow> rq_skip st (b1 @ b2) p r = rq_skip st b1 p r"
  by (simp add: rq_skip_def nth_append Let_def)

lemma rq_step_append:
  assumes "p < length b1" "rq_bulk r \<Longrightarrow> rq_target p r < length b1"
  shows "rq_step env (b1 @ b2) p r = rq_step env b1 p r"
proof (cases "rq_bulk r")
  case True
  then have m: "rq_target p r < length b1" using assms(2) by simp
  from True show ?thesis
  proof (cases rule: rq_bulk_cases)
    case 1
    with m show ?thesis by (cases "token r") (simp_all add: rq_step_def rq_req_type_def rq_target_def Let_def nth_append)
  next
    case 2
    with m show ?thesis by (cases "token r") (simp_all add: rq_step_def rq_key_def rq_target_def Let_def nth_append)
  next
    case 4
    with m show ?thesis
      by (cases "token r"; cases "redis_argeval (mtype r)") (simp_all add: rq_step_def rq_arg2_def rq_target_def Let_def nth_append)
  qed (use m in \<open>simp_all add: rq_step_def rq_arg1_def rq_arg3_def rq_argn_def rq_target_def rq_skip_append\<close>)
next
  case False
  with assms(1) show ?thesis by (cases "state r") (simp_all add: rq_step_def rq_bulk_def nth_append)
qed

text \<open>The turn that runs out of bytes inside a bulk, and the turn that goes on where it stopped.\<close>

definition rq_wait :: "bytes \<Rightarrow> nat \<Rightarrow> rq \<Rightarrow> rq" where
  "rq_wait buf p r =
     (if state r \<in> {SW_REQ_TYPE, SW_KEY} then mark_token p r
      else (if state r = SW_ARG2 \<and> redis_argeval (mtype r) then mark_token p r else r)
        \<lparr>rlen := rlen r - word_of_nat (length buf - p)\<rparr>)"

lemma rq_step_wait:
  assumes "rq_bulk r" "length buf \<le> rq_target p r"
  shows "rq_step env buf p r = (rq_wait buf p r, Next (length buf))"
  using assms(1)
proof (cases rule: rq_bulk_cases)
  case 1
  with assms(2) show ?thesis
    by (cases "token r") (simp_all add: rq_step_def rq_req_type_def rq_target_def rq_wait_def Let_def)
next
  case 2
  with assms(2) show ?thesis
    by (cases "token r") (simp_all add: rq_step_def rq_key_def rq_target_def rq_wait_def Let_def)
next
  case 4
  with assms(2) show ?thesis
    by (cases "token r"; cases "redis_argeval (mtype r)")
      (simp_all add: rq_step_def rq_arg2_def rq_target_def rq_wait_def mark_token_def Let_def)
qed (use assms(2) in \<open>simp_all add: rq_step_def rq_arg1_def rq_arg3_def rq_argn_def rq_skip_def rq_target_def
  rq_wait_def Let_def\<close>)

lemma mark_token_twice [simp]: "mark_token q (mark_token p r) = mark_token p r"
  by (simp add: mark_token_def)

lemma mark_token_rlen: "mark_token p (r\<lparr>rlen := x\<rparr>) = (mark_token p r)\<lparr>rlen := x\<rparr>"
  by (simp add: mark_token_def)

lemma rq_token_resume:
  assumes "state r \<in> {SW_REQ_TYPE, SW_KEY}"
  shows "rq_step env buf (length b1) (rq_wait b1 p r) = rq_step env buf p r"
  using assms by (cases "token r") (auto simp: rq_step_def rq_req_type_def rq_key_def rq_wait_def Let_def)

lemma rlen_rest:
  assumes "p < length b1" "length b1 \<le> p + unat (rlen r)"
  shows "length b1 + unat (rlen r - word_of_nat (length b1 - p)) = p + unat (rlen r)"
  using assms unat_sub_of_nat [of "length b1 - p" "rlen r"] by simp

lemma rlen_twice:
  "p < length b1 \<Longrightarrow> rlen r - word_of_nat (length b1 - p) - word_of_nat (length b2) =
     rlen r - word_of_nat (length b1 + length b2 - p)"
  by (simp add: of_nat_diff)

lemma rq_skip_resume:
  assumes "p < length b1" "length b1 \<le> p + unat (rlen r)"
  shows "rq_obs (rq_skip st (b1 @ b2) (length b1) (r\<lparr>rlen := rlen r - word_of_nat (length b1 - p)\<rparr>)) =
    rq_obs (rq_skip st (b1 @ b2) p r)"
  using rlen_rest [OF assms] rlen_twice [OF assms(1), of r b2]
  by (simp add: rq_skip_def rq_obs_def Let_def)

lemma rq_resume:
  assumes "rq_bulk r" "p < length b1" "length b1 \<le> rq_target p r"
  shows "rq_obs (rq_step env (b1 @ b2) (length b1) (rq_wait b1 p r)) = rq_obs (rq_step env (b1 @ b2) p r)"
  using assms(1)
proof (cases rule: rq_bulk_cases)
  case 1
  then show ?thesis by (simp add: rq_token_resume)
next
  case 2
  then show ?thesis by (simp add: rq_token_resume)
next
  case 4
  have "rq_obs (rq_arg2 (b1 @ b2) (length b1) (rq_wait b1 p r)) = rq_obs (rq_arg2 (b1 @ b2) p r)"
    using 4 assms(3) rlen_rest [OF assms(2), of r] rlen_twice [OF assms(2), of r b2]
    by (cases "token r"; cases "redis_argeval (mtype r)")
      (simp_all add: rq_arg2_def rq_wait_def rq_obs_def rq_target_def mark_token_def Let_def split: option.split)
  moreover have "state (rq_wait b1 p r) = SW_ARG2" using 4 by (simp add: rq_wait_def)
  ultimately show ?thesis using 4 by (simp add: rq_step_def)
qed (use assms(2,3) in \<open>simp_all add: rq_step_def rq_arg1_def rq_arg3_def rq_argn_def rq_wait_def rq_target_def rq_skip_resume
  del: of_nat_diff\<close>)

lemma rq_obs_loop:
  assumes "p < length buf" "q < length buf" "rq_obs (rq_gstep env buf p r) = rq_obs (rq_gstep env buf q s)"
  shows "map_option rq_obs (parse_loop (rq_gstep env) buf p r) = map_option rq_obs (parse_loop (rq_gstep env) buf q s)"
proof -
  obtain r' c where r': "rq_gstep env buf p r = (r', c)" by force
  obtain s' d where s': "rq_gstep env buf q s = (s', d)" by force
  have "d = c" "c \<noteq> Fail \<Longrightarrow> s' = r'" "r'\<lparr>rlen := 0\<rparr> = s'\<lparr>rlen := 0\<rparr> \<or> c \<noteq> Fail"
    using assms(3) r' s' by (auto simp: rq_obs_def split: if_splits)
  with assms(1,2) r' s' show ?thesis
    by (cases c) (simp_all add: rq.loop_Next rq.loop_stop, simp_all add: rq_obs_def)
qed

interpretation rq: chunked_step "rq_gstep env" "\<lambda>_ _. 0" rq_obs for env
proof unfold_locales
  fix p b1 b2 r r1 c
  assume p: "p < length b1" and step: "rq_gstep env b1 p r = (r1, c)"
  show "rq_gstep env (b1 @ b2) p r = (r1, c) \<or>
    c = Next (length b1) \<and>
    map_option rq_obs (parse_loop (rq_gstep env) (b1 @ b2) p r) =
    map_option rq_obs (parse_loop (rq_gstep env) (b1 @ b2) (length b1) r1)"
  proof (cases "rq_sane p r \<and> rq_bulk r \<and> length b1 \<le> rq_target p r")
    case True
    then have s1: "r1 = rq_wait b1 p r" "c = Next (length b1)"
      using step rq_step_wait [of r b1 p env] by (auto simp: rq_gstep_def)
    then have sane: "rq_sane (length b1) r1"
      using step True p by (auto simp: rq_gstep_def intro: rq_sane_step)
    have "map_option rq_obs (parse_loop (rq_gstep env) (b1 @ b2) p r) =
      map_option rq_obs (parse_loop (rq_gstep env) (b1 @ b2) (length b1) r1)"
    proof (cases "b2 = []")
      case True
      with p step s1 show ?thesis by (simp add: rq.loop_Next)
    next
      case False
      then show ?thesis
        using True sane p rq_resume [of r p b1 env b2] s1
        by (intro rq_obs_loop) (simp_all add: rq_gstep_def)
    qed
    with s1 show ?thesis by simp
  next
    case False
    with step p have "rq_gstep env (b1 @ b2) p r = (r1, c)"
      using rq_step_append [of p b1 r env b2] by (auto simp: rq_gstep_def split: if_splits)
    then show ?thesis ..
  qed
qed

section \<open>Parsing piece by piece\<close>

text \<open>The position and the length that is missing mean nothing in a message that is in error.\<close>

definition rq_view :: "rq \<Rightarrow> rq" where
  "rq_view r = (if result r = MSG_PARSE_ERROR then r\<lparr>rlen := 0, pos := 0\<rparr> else r)"

lemma rq_step_frame:
  "rq_step env buf p (r\<lparr>pos := x, result := y\<rparr>) = map_prod (\<lambda>r. r\<lparr>pos := x, result := y\<rparr>) id (rq_step env buf p r)"
  by (cases "state r"; cases "token r";
      simp add: rq_step_def rq_state_defs rq_generic_defs mark_token_def rq_flags_def split: option.split)

lemma rq_gstep_frame:
  "rq_gstep env buf p (r\<lparr>pos := x, result := y\<rparr>) = map_prod (\<lambda>r. r\<lparr>pos := x, result := y\<rparr>) id (rq_gstep env buf p r)"
proof -
  have "rq_sane p (r\<lparr>pos := x, result := y\<rparr>) = rq_sane p r" by (simp add: rq_sane_def)
  then show ?thesis using rq_step_frame [of env buf p y x r] by (simp add: rq_gstep_def)
qed

lemma rq_view_finish:
  "rq_view (rq_finish full (r\<lparr>pos := x, result := y\<rparr>) c) = rq_view (rq_finish full (fst (rq_obs (r, c))) c)"
  by (cases c) (auto simp: rq_view_def rq_finish_def rq_obs_def split: option.split)

lemma rq_parse_view:
  assumes "rq_sane p r"
  shows "map_option rq_view (redis_parse_req env buf full (r\<lparr>pos := p, result := y\<rparr>)) =
    map_option (\<lambda>(s, c). rq_view (rq_finish full s c)) (map_option rq_obs (parse_loop (rq_gstep env) buf p r))"
proof -
  have sane: "rq_sane p (r\<lparr>pos := p, result := y\<rparr>)" using assms by (simp add: rq_sane_def)
  show ?thesis
    using rq.loop_commute [where f = "\<lambda>r. r\<lparr>pos := p, result := y\<rparr>", OF rq_gstep_frame, of env buf p r]
    by (simp add: redis_parse_req_def option.map_comp rq_loop_guard [OF sane])
      (simp add: comp_def split_def map_prod_def rq_view_finish rq_obs_def)
qed

text \<open>
  C13: it does not matter in which pieces a redis request arrives in an mbuf.  When the parser has
  asked for more bytes, running it again after more bytes were appended gives what one run over all
  the bytes gives; when it has answered, the bytes behind do not change the answer.
\<close>

theorem redis_parse_req_chunks:
  assumes "redis_parse_req env b1 False r = Some r1" "rq_sane (pos r) r" "pos r \<le> length b1"
  shows "if result r1 = MSG_PARSE_AGAIN
    then map_option rq_view (redis_parse_req env (b1 @ b2) full r1) =
         map_option rq_view (redis_parse_req env (b1 @ b2) full r)
    else redis_parse_req env (b1 @ b2) full r = Some r1"
proof -
  obtain s c where loop: "parse_loop (rq_gstep env) b1 (pos r) r = Some (s, c)"
    using rq.loop_terminates by blast
  with assms have r1: "r1 = rq_finish False s c" by (simp add: redis_parse_req_def rq_loop_guard)
  show ?thesis
  proof (cases c)
    case (Next q)
    have r1': "r1 = s\<lparr>pos := q, result := MSG_PARSE_AGAIN\<rparr>"
      using r1 Next by (simp add: rq_finish_def split: option.split)
    have "ends_with (rq_gstep env) b1 rq_sane (pos r) s c"
      using loop assms(2,3)
      by (rule rq.loop_post) (auto simp: rq_gstep_def intro: rq_sane_step split: if_splits)
    then have "rq_sane q s" unfolding Next ends_with_def by auto
    then have "map_option rq_view (redis_parse_req env (b1 @ b2) full r1) =
      map_option rq_view (redis_parse_req env (b1 @ b2) full (r\<lparr>pos := pos r, result := result r\<rparr>))"
      using rq.loop_chunk [OF loop [unfolded Next] assms(3), of b2] assms(2)
      by (simp only: r1' rq_parse_view)
    then show ?thesis using r1' by simp
  qed (use r1 assms(2) rq.loop_chunk_stop [OF loop _ assms(3), of b2] in
    \<open>simp_all add: rq_finish_def redis_parse_req_def rq_loop_guard\<close>)
qed

definition chunk_env :: redis_env where
  "chunk_env = \<lparr>mbuf_id = 1, push_ok = True, data_size = 100\<rparr>"

definition chunk_get :: bytes where
  "chunk_get = bytes_of ''*2'' @ [CR, LF] @ bytes_of ''$3'' @ [CR, LF] @ bytes_of ''get'' @ [CR, LF] @ bytes_of ''$5'' @ [CR, LF]"

theorem redis_parse_req_chunks_witness:
  "\<exists>r1. redis_parse_req chunk_env (chunk_get @ bytes_of ''ab'') False (msg_fresh SW_START REDIS_UNKNOWN) = Some r1 \<and>
     result r1 = MSG_PARSE_AGAIN \<and>
     map_option rq_view (redis_parse_req chunk_env ((chunk_get @ bytes_of ''ab'') @ bytes_of ''cde'' @ [CR, LF]) False r1) =
     map_option rq_view (redis_parse_req chunk_env ((chunk_get @ bytes_of ''ab'') @ bytes_of ''cde'' @ [CR, LF]) False
       (msg_fresh SW_START REDIS_UNKNOWN))"
proof -
  have "map_option result (redis_parse_req chunk_env (chunk_get @ bytes_of ''ab'') False (msg_fresh SW_START REDIS_UNKNOWN)) =
      Some MSG_PARSE_AGAIN"
    by code_simp
  then obtain r1 where r1: "redis_parse_req chunk_env (chunk_get @ bytes_of ''ab'') False (msg_fresh SW_START REDIS_UNKNOWN) = Some r1"
    "result r1 = MSG_PARSE_AGAIN"
    by auto
  have "rq_sane (pos (msg_fresh SW_START REDIS_UNKNOWN)) (msg_fresh SW_START REDIS_UNKNOWN)"
    "pos (msg_fresh SW_START REDIS_UNKNOWN) \<le> length (chunk_get @ bytes_of ''ab'')"
    by (simp_all add: msg_fresh_def rq_sane_def)
  note chunks = redis_parse_req_chunks [OF r1(1) this, of "bytes_of ''cde'' @ [CR, LF]" False]
  from r1 chunks [unfolded if_P [OF r1(2)]] show ?thesis by blast
qed

end
