(* ===== verification/NC_RedisRepair.thy ===== *)
theory NC_RedisRepair
  imports NC_RedisChunk
begin

text \<open>
  A redis request whose token is cut by the end of a full mbuf: the parser answers
  \<open>MSG_PARSE_REPAIR\<close>, \<open>msg_repair\<close> moves the token to a new mbuf and the parser starts again there.
\<close>

section \<open>What has been read of a token\<close>

definition rq_len_state :: "rq_state \<Rightarrow> bool" where
  "rq_len_state st \<longleftrightarrow>
     st \<in> {SW_REQ_TYPE_LEN, SW_KEY_LEN, SW_ARG1_LEN, SW_ARG2_LEN, SW_ARG3_LEN, SW_ARGN_LEN}"

text \<open>The token and the number that has been read belong to the bytes from the token to \<open>p\<close>.\<close>

definition rq_tok :: "bytes \<Rightarrow> nat \<Rightarrow> rq \<Rightarrow> bool" where
  "rq_tok buf p r \<longleftrightarrow>
     p \<le> length buf \<and>
     (case token r of
        None \<Rightarrow> True
      | Some t \<Rightarrow>
          t < p \<and>
          (if state r = SW_NARG then narg_start r = Some t \<and> list_all isdigit (slice buf (Suc t) p) \<and> rnarg r = number (slice buf (Suc t) p)
           else if rq_len_state (state r) then
             buf ! t = 36 \<and> list_all isdigit (slice buf (Suc t) p) \<and> rlen r = number (slice buf (Suc t) p)
           else state r \<in> {SW_REQ_TYPE, SW_KEY} \<or> state r = SW_ARG2 \<and> redis_argeval (mtype r)))"

lemma rq_len_step:
  assumes "rq_len_state (state r)"
  obtains ok st where "rq_step env buf p r = rq_len ok st (buf ! p) p r"
proof -
  from assms consider "state r = SW_REQ_TYPE_LEN" | "state r = SW_KEY_LEN" | "state r = SW_ARG1_LEN"
    | "state r = SW_ARG2_LEN" | "state r = SW_ARG3_LEN" | "state r = SW_ARGN_LEN"
    unfolding rq_len_state_def by blast
  then show ?thesis
    by cases (rule that, simp add: rq_step_def rq_req_type_len_def rq_key_len_def rq_arg1_len_def rq_arg2_len_def
      rq_arg3_len_def rq_argn_len_def)+
qed

lemma rq_lf_states_token:
  assumes "rq_step env buf p r = (r', Next q)" "\<not> rq_len_state (state r)" "\<not> rq_bulk r" "state r \<notin> {SW_START, SW_NARG}"
  shows "token r' = token r"
  using assms
  by (cases "state r")
    (simp_all add: rq_len_state_def rq_bulk_def,
     auto simp: rq_step_def rq_state_defs rq_generic_defs split: if_splits)

lemma rq_tok_step:
  assumes "p < length buf" "rq_sane p r" "rq_tok buf p r" "rq_step env buf p r = (r', Next q)"
  shows "rq_tok buf q r'"
proof -
  have q: "q \<le> length buf" "p < q" using rq_step_forward [OF assms(1,2,4)] by simp_all
  consider (len) "rq_len_state (state r)" | (narg) "state r \<in> {SW_START, SW_NARG}"
    | (token) "state r \<in> {SW_REQ_TYPE, SW_KEY}" | (arg2) "state r = SW_ARG2"
    | (skip) "state r \<in> {SW_ARG1, SW_ARG3, SW_ARGN}"
    | (lf) "\<not> rq_len_state (state r)" "\<not> rq_bulk r" "state r \<notin> {SW_START, SW_NARG}"
    unfolding rq_bulk_def by blast
  then show ?thesis
  proof cases
    case len
    then obtain ok st where "rq_step env buf p r = rq_len ok st (buf ! p) p r" by (rule rq_len_step)
    moreover have "state r \<noteq> SW_NARG" using len by (auto simp: rq_len_state_def)
    ultimately show ?thesis
      using assms q(1) len
      by (cases "token r") (auto simp: rq_tok_def rq_len_def slice_snoc split: if_splits)
  next
    case narg
    with assms q(1) show ?thesis
      by (cases "token r")
        (auto simp: rq_step_def rq_narg_def rq_tok_def rq_len_state_def slice_snoc Let_def split: if_splits)
  next
    case token
    with assms q show ?thesis
      by (cases "token r")
        (auto simp: rq_step_def rq_req_type_def rq_key_def rq_tok_def rq_len_state_def Let_def split: if_splits)
  next
    case arg2
    with assms q show ?thesis
      by (cases "token r"; cases "redis_argeval (mtype r)")
        (auto simp: rq_step_def rq_arg2_def rq_tok_def rq_len_state_def Let_def split: if_splits option.splits)
  next
    case skip
    then obtain st where "rq_step env buf p r = rq_skip st buf p r"
      by (auto simp: rq_step_def rq_arg1_def rq_arg3_def rq_argn_def)
    with assms(4) have "token r' = token r" by (auto simp: rq_skip_def Let_def split: if_splits)
    moreover have "token r = None"
      using skip assms(3) by (auto simp: rq_tok_def rq_len_state_def split: option.splits)
    ultimately show ?thesis using q(1) by (simp add: rq_tok_def)
  next
    case lf
    with rq_lf_states_token [OF assms(4)] assms(3) q(1) show ?thesis
      by (auto simp: rq_tok_def rq_bulk_def split: if_splits option.splits)
  qed
qed

section \<open>Reading a token again\<close>

lemma rq_len_start:
  assumes "rq_len_state (state r)" "token r = None" "buf ! p = 36"
  shows "rq_gstep env buf p r = (r\<lparr>token := Some p, rlen := 0\<rparr>, Next (Suc p))"
proof -
  obtain ok st where "rq_step env buf p r = rq_len ok st (buf ! p) p r"
    using assms(1) by (rule rq_len_step)
  with assms show ?thesis by (auto simp: rq_gstep_def rq_sane_def rq_len_def rq_len_state_def)
qed

lemma rq_len_digit:
  assumes "rq_len_state (state r)" "token r = Some t" "isdigit (buf ! p)"
  shows "rq_gstep env buf p r = (r\<lparr>rlen := rlen r * 10 + digit (buf ! p)\<rparr>, Next (Suc p))"
proof -
  obtain ok st where "rq_step env buf p r = rq_len ok st (buf ! p) p r"
    using assms(1) by (rule rq_len_step)
  with assms show ?thesis by (auto simp: rq_gstep_def rq_sane_def rq_len_def rq_len_state_def)
qed

lemma rq_replay_len:
  assumes "rq_tok b1 (length b1) s" "token s = Some t" "rq_len_state (state s)"
  shows "parse_loop (rq_gstep env) (b1 @ b2) t (s\<lparr>token := None\<rparr>) = parse_loop (rq_gstep env) (b1 @ b2) (length b1) s"
proof -
  define w where "w = slice b1 (Suc t) (length b1)"
  have t: "t < length b1" "b1 ! t = 36" "list_all isdigit w" "rlen s = number w" "state s \<noteq> SW_NARG"
    using assms by (auto simp: rq_tok_def rq_len_state_def w_def)
  let ?s = "s\<lparr>token := Some t, rlen := 0\<rparr>"
  have "parse_loop (rq_gstep env) (b1 @ b2) t (s\<lparr>token := None\<rparr>) = parse_loop (rq_gstep env) (b1 @ b2) (Suc t) ?s"
    using t rq_len_start [of "s\<lparr>token := None\<rparr>" "b1 @ b2" t env] assms(3)
    by (simp add: rq.loop_Next nth_append)
  also have "\<dots> = parse_loop (rq_gstep env) (b1 @ b2) (Suc t + length w) (foldl (\<lambda>r c. r\<lparr>rlen := rlen r * 10 + digit c\<rparr>) ?s w)"
  proof (rule rq.loop_fold [where P = "\<lambda>r. rq_len_state (state r) \<and> token r = Some t"])
    show "text_at (b1 @ b2) (Suc t) w" by (simp add: w_def text_at_slice_prefix)
  qed (use assms(3) t(3) in \<open>auto simp: list_all_iff intro!: rq_len_digit\<close>)
  also have "Suc t + length w = length b1" using t(1) by (simp add: w_def)
  also have "foldl (\<lambda>r c. r\<lparr>rlen := rlen r * 10 + digit c\<rparr>) ?s w = s"
    using assms(2) t(4) unfolding foldl_rlen number_def by (cases s) simp
  finally show ?thesis .
qed

lemma rq_replay_narg:
  assumes "rq_tok b1 (length b1) s" "token s = Some t" "state s = SW_NARG"
  shows "parse_loop (rq_gstep env) (b1 @ b2) t (s\<lparr>token := None\<rparr>) =
    parse_loop (rq_gstep env) (b1 @ b2) (length b1) s"
proof -
  define w where "w = slice b1 (Suc t) (length b1)"
  have t: "t < length b1" "list_all isdigit w" "rnarg s = number w" "narg_start s = Some t"
    using assms by (auto simp: rq_tok_def w_def)
  let ?s = "s\<lparr>token := Some t, narg_start := Some t, rnarg := 0, state := SW_NARG\<rparr>"
  have "parse_loop (rq_gstep env) (b1 @ b2) t (s\<lparr>token := None\<rparr>) = parse_loop (rq_gstep env) (b1 @ b2) (Suc t) ?s"
    using t assms(3) by (intro rq.loop_Next) (simp_all add: rq_gstep_def rq_sane_def rq_step_def rq_narg_def)
  also have "\<dots> = parse_loop (rq_gstep env) (b1 @ b2) (Suc t + length w) (foldl (\<lambda>r c. r\<lparr>rnarg := rnarg r * 10 + digit c\<rparr>) ?s w)"
  proof (rule rq.loop_fold [where P = "\<lambda>r. state r = SW_NARG \<and> token r = Some t"])
    show "text_at (b1 @ b2) (Suc t) w" by (simp add: w_def text_at_slice_prefix)
  qed (use t(2) in \<open>auto simp: list_all_iff rq_gstep_def rq_sane_def rq_step_def rq_narg_def\<close>)
  also have "Suc t + length w = length b1" using t(1) by (simp add: w_def)
  also have "foldl (\<lambda>r c. r\<lparr>rnarg := rnarg r * 10 + digit c\<rparr>) ?s w = s"
    using assms(2,3) t(3,4) unfolding foldl_rnarg number_def by (cases s) simp
  finally show ?thesis .
qed

lemma rq_replay_token:
  assumes "rq_sane (length b1) s" "token s = Some t" "state s \<in> {SW_REQ_TYPE, SW_KEY}" "t < length b1"
  shows "parse_loop (rq_gstep env) (b1 @ b2) t (s\<lparr>token := None\<rparr>) = parse_loop (rq_gstep env) (b1 @ b2) (length b1) s"
proof -
  have mark: "mark_token t (s\<lparr>token := None\<rparr>) = s" using assms(2) by (cases s) (simp add: mark_token_def)
  have same: "rq_gstep env buf t (s\<lparr>token := None\<rparr>) = rq_gstep env buf (length b1) s" for buf
    using assms(1,2,3) mark
    by (auto simp: rq_gstep_def rq_step_def rq_req_type_def rq_key_def rq_sane_def mark_token_def Let_def)
  have le: "length b1 \<le> t + unat (rlen s)" using assms(1-3) by (auto simp: rq_sane_def)
  show ?thesis
  proof (cases "b2 = []")
    case True
    have "rq_gstep env b1 t (s\<lparr>token := None\<rparr>) = (s, Next (length b1))"
      using assms(1-3) le mark by (auto simp: rq_gstep_def rq_step_def rq_req_type_def rq_key_def rq_sane_def Let_def)
    with True assms(4) show ?thesis by (simp add: rq.loop_Next)
  next
    case False
    with assms(4) same [of "b1 @ b2"] show ?thesis
      by (simp add: parse_loop.simps [of _ "b1 @ b2" t] parse_loop.simps [of _ "b1 @ b2" "length b1"])
  qed
qed

section \<open>Moving to the new mbuf\<close>

definition shift_key :: "nat \<Rightarrow> nat \<Rightarrow> keypos \<Rightarrow> keypos" where
  "shift_key i t k = \<lparr>kp_mbuf = i, kp_start = kp_start k + t, kp_end = kp_end k + t\<rparr>"

text \<open>
  The message \<open>r\<close>, parsed from the start of the new mbuf, against \<open>s\<close>, parsed from offset \<open>t\<close> of an
  mbuf \<open>i\<close> that holds all the bytes: they differ in the pointers.  The keys before the repair are \<open>ks\<close>
  in both.
\<close>

definition rq_moved :: "nat \<Rightarrow> nat \<Rightarrow> keypos list \<Rightarrow> rq \<Rightarrow> rq \<Rightarrow> bool" where
  "rq_moved i t ks r s \<longleftrightarrow>
     state s = state r \<and> mtype s = mtype r \<and> token s = map_option (\<lambda>q. q + t) (token r) \<and>
     narg s = narg r \<and> rnarg s = rnarg r \<and> rlen s = rlen r \<and> quit s = quit r \<and> noforward s = noforward r \<and>
     (\<exists>new. keys r = ks @ new \<and> keys s = ks @ map (shift_key i t) new)"

lemma rq_moved_fields:
  assumes "rq_moved i t ks r s"
  shows "state s = state r" "mtype s = mtype r" "narg s = narg r" "rnarg s = rnarg r" "rlen s = rlen r"
    "token s = map_option (\<lambda>q. q + t) (token r)"
  using assms by (simp_all add: rq_moved_def)

lemma rq_moved_update [simp]:
  assumes "rq_moved i t ks r s"
  shows "rq_moved i t ks (r\<lparr>state := a\<rparr>) (s\<lparr>state := a\<rparr>)" "rq_moved i t ks (r\<lparr>rlen := b\<rparr>) (s\<lparr>rlen := b\<rparr>)"
    "rq_moved i t ks (r\<lparr>rnarg := b\<rparr>) (s\<lparr>rnarg := b\<rparr>)" "rq_moved i t ks (r\<lparr>narg := b\<rparr>) (s\<lparr>narg := b\<rparr>)"
    "rq_moved i t ks (r\<lparr>narg_start := c\<rparr>) (s\<lparr>narg_start := d\<rparr>)" "rq_moved i t ks (r\<lparr>narg_end := c\<rparr>) (s\<lparr>narg_end := d\<rparr>)"
    "rq_moved i t ks (r\<lparr>token := None\<rparr>) (s\<lparr>token := None\<rparr>)" "rq_moved i t ks (r\<lparr>token := Some q\<rparr>) (s\<lparr>token := Some (q + t)\<rparr>)"
    "rq_moved i t ks (r\<lparr>mtype := e\<rparr>) (s\<lparr>mtype := e\<rparr>)" "rq_moved i t ks (rq_flags e r) (rq_flags e s)"
  using assms by (simp_all add: rq_moved_def rq_flags_def)

lemma rq_moved_mark [simp]: "rq_moved i t ks r s \<Longrightarrow> rq_moved i t ks (mark_token p r) (mark_token (p + t) s)"
  by (cases "token r") (simp_all add: mark_token_def rq_moved_fields)

lemma rq_moved_key:
  assumes "rq_moved i t ks r s"
  shows "rq_moved i t ks (r\<lparr>keys := keys r @ [\<lparr>kp_mbuf = j, kp_start = a, kp_end = b\<rparr>]\<rparr>)
    (s\<lparr>keys := keys s @ [\<lparr>kp_mbuf = i, kp_start = a + t, kp_end = b + t\<rparr>]\<rparr>)"
  using assms by (auto simp: rq_moved_def shift_key_def)

lemma rq_moved_sane: "rq_moved i t ks r s \<Longrightarrow> rq_sane (p + t) s = rq_sane p r"
  by (auto simp: rq_moved_def rq_sane_def)

text \<open>Two turns that go the same way.\<close>

definition rq_sim :: "nat \<Rightarrow> nat \<Rightarrow> keypos list \<Rightarrow> rq \<times> ctl \<Rightarrow> rq \<times> ctl \<Rightarrow> bool" where
  "rq_sim i t ks = rel_prod (rq_moved i t ks) (\<lambda>c d. d = shift_ctl t c)"

lemma rq_sim_if:
  assumes "b \<longleftrightarrow> b'" "b \<Longrightarrow> rq_sim i t ks x x'" "\<not> b \<Longrightarrow> rq_sim i t ks y y'"
  shows "rq_sim i t ks (if b then x else y) (if b' then x' else y')"
  using assms by simp

lemma rq_sim_pair [simp]:
  "rq_sim i t ks (r, Fail) (s, Fail) \<longleftrightarrow> rq_moved i t ks r s"
  "rq_sim i t ks (r, Enomem) (s, Enomem) \<longleftrightarrow> rq_moved i t ks r s"
  "rq_sim i t ks (r, Next p) (s, Next q) \<longleftrightarrow> rq_moved i t ks r s \<and> q = p + t"
  "rq_sim i t ks (r, Done p) (s, Done q) \<longleftrightarrow> rq_moved i t ks r s \<and> q = p + t"
  by (auto simp: rq_sim_def shift_ctl_def)

lemma rq_sim_generic:
  assumes "rq_moved i t ks r s"
  shows "rq_sim i t ks (rq_lf st ch p r) (rq_lf st ch (p + t) s)"
    "rq_sim i t ks (goto_if b st p r) (goto_if b st (p + t) s)"
    "rq_sim i t ks (done_or st p r) (done_or st (p + t) s)"
    "rq_sim i t ks (done_if b p r) (done_if b (p + t) s)"
  using assms by (auto simp: rq_lf_def goto_if_def done_or_def done_if_def rq_moved_fields [OF assms])

lemma rq_sim_len:
  assumes "rq_moved i t ks r s" "\<And>q. token r = Some q \<Longrightarrow> ok' (q + t) = ok q"
  shows "rq_sim i t ks (rq_len ok st ch p r) (rq_len ok' st ch (p + t) s)"
  using assms(1) assms(2)
  by (cases "token r") (auto simp: rq_len_def rq_moved_fields [OF assms(1)] intro!: rq_sim_if)

lemma rq_sim_skip:
  assumes "rq_moved i t ks r s" "t \<le> length buf"
  shows "rq_sim i t ks (rq_skip st (drop t buf) p r) (rq_skip st buf (p + t) s)"
proof -
  define m where "m = p + unat (rlen r)"
  have m: "p + t + unat (rlen r) = m + t" by (simp add: m_def)
  have at: "length buf \<le> m + t \<longleftrightarrow> length (drop t buf) \<le> m" "buf ! (m + t) = drop t buf ! m"
    "length (drop t buf) - p = length buf - (p + t)"
    using assms(2) by (auto simp: add.commute)
  show ?thesis
    unfolding rq_skip_def Let_def rq_moved_fields [OF assms(1)] m m_def [symmetric] at
    using assms by (intro rq_sim_if) simp_all
qed

lemma rq_sim_narg:
  assumes "rq_moved i t ks r s"
  shows "rq_sim i t ks (rq_narg ch p r) (rq_narg ch (p + t) s)"
  using assms
  by (cases "token r") (auto simp: rq_narg_def rq_moved_fields [OF assms] intro!: rq_sim_if)

lemma token_start_moved:
  assumes "rq_moved i t ks r s"
  shows "(case token (mark_token (p + t) s) of Some q \<Rightarrow> q | None \<Rightarrow> p + t) = (case token (mark_token p r) of Some q \<Rightarrow> q | None \<Rightarrow> p) + t"
  by (cases "token r") (simp_all add: rq_moved_fields [OF assms])

lemma rq_sim_req_type:
  assumes "rq_moved i t ks r s" "t \<le> length buf"
  shows "rq_sim i t ks (rq_req_type (drop t buf) p r) (rq_req_type buf (p + t) s)"
proof -
  define a where "a = (case token (mark_token p r) of Some q \<Rightarrow> q | None \<Rightarrow> p)"
  define m where "m = a + unat (rlen r)"
  have m: "a + t + unat (rlen r) = m + t" by (simp add: m_def)
  have at: "length buf \<le> m + t \<longleftrightarrow> length (drop t buf) \<le> m" "buf ! (m + t) = drop t buf ! m"
    using assms(2) by (auto simp: add.commute)
  have rl: "rlen (mark_token (p + t) s) = rlen r" "rlen (mark_token p r) = rlen r"
    by (simp_all add: rq_moved_fields [OF assms(1)])
  show ?thesis
    unfolding rq_req_type_def Let_def token_start_moved [OF assms(1)] a_def [symmetric] rl m m_def [symmetric] at slice_drop
    using assms by (intro rq_sim_if) simp_all
qed

lemma rq_sim_key:
  assumes "rq_moved i t ks r s" "t \<le> length buf" "mbuf_id env = i" "push_ok env' = push_ok env"
  shows "rq_sim i t ks (rq_key env' (drop t buf) p r) (rq_key env buf (p + t) s)"
proof -
  define a where "a = (case token (mark_token p r) of Some q \<Rightarrow> q | None \<Rightarrow> p)"
  define m where "m = a + unat (rlen r)"
  have m: "a + t + unat (rlen r) = m + t" by (simp add: m_def)
  have at: "length buf \<le> m + t \<longleftrightarrow> length (drop t buf) \<le> m" "buf ! (m + t) = drop t buf ! m"
    using assms(2) by (auto simp: add.commute)
  have rl: "rlen (mark_token (p + t) s) = rlen r" "rlen (mark_token p r) = rlen r"
    by (simp_all add: rq_moved_fields [OF assms(1)])
  define r1 where "r1 = (mark_token p r)\<lparr>rlen := 0, token := None\<rparr>"
  define s1 where "s1 = (mark_token (p + t) s)\<lparr>rlen := 0, token := None\<rparr>"
  have "rq_moved i t ks r1 s1" using assms(1) by (simp add: r1_def s1_def)
  then show ?thesis
    unfolding rq_key_def Let_def token_start_moved [OF assms(1)] a_def [symmetric] rl m m_def [symmetric] at
      r1_def [symmetric] s1_def [symmetric] assms(3,4)
    using assms rq_moved_key [of i t ks r1 s1 "mbuf_id env'" a m] by (intro rq_sim_if) simp_all
qed

lemma rq_sim_arg2:
  assumes "rq_moved i t ks r s" "t \<le> length buf"
  shows "rq_sim i t ks (rq_arg2 (drop t buf) p r) (rq_arg2 buf (p + t) s)"
proof (cases "redis_argeval (mtype r)")
  case False
  then have "rq_arg2 (drop t buf) p r = rq_skip SW_ARG2_LF (drop t buf) p r" "rq_arg2 buf (p + t) s = rq_skip SW_ARG2_LF buf (p + t) s"
    by (simp_all add: rq_arg2_def rq_skip_def rq_moved_fields [OF assms(1)] Let_def)
  with rq_sim_skip [OF assms] show ?thesis by simp
next
  case True
  define a where "a = (case token (mark_token p r) of Some q \<Rightarrow> q | None \<Rightarrow> p)"
  define m where "m = p + unat (rlen r)"
  have m: "p + t + unat (rlen r) = m + t" by (simp add: m_def)
  have at: "length buf \<le> m + t \<longleftrightarrow> length (drop t buf) \<le> m" "buf ! (m + t) = drop t buf ! m"
    "m + t - (a + t) = m - a" "length (drop t buf) - p = length buf - (p + t)"
    using assms(2) by (auto simp: add.commute)
  have rl: "rlen (mark_token (p + t) s) = rlen r" "rlen (mark_token p r) = rlen r" "mtype s = mtype r"
    "mtype (mark_token (p + t) s) = mtype r" "mtype (mark_token p r) = mtype r"
    by (simp_all add: rq_moved_fields [OF assms(1)])
  have st: "(case token ((mark_token (p + t) s)\<lparr>rlen := 0\<rparr>) of Some q \<Rightarrow> q | None \<Rightarrow> p + t) = a + t"
    "(case token ((mark_token p r)\<lparr>rlen := 0\<rparr>) of Some q \<Rightarrow> q | None \<Rightarrow> p) = a"
    using token_start_moved [OF assms(1)] by (simp_all add: a_def)
  show ?thesis
    unfolding rq_arg2_def Let_def rl if_P [OF True] m m_def [symmetric] at st parse.simps slice_drop [symmetric]
    using assms by (intro rq_sim_if) (simp_all add: True rl(3) split: option.split)
qed

lemmas rq_sim_rules = rq_sim_if rq_sim_generic rq_sim_len rq_sim_skip rq_sim_narg rq_sim_req_type rq_sim_key rq_sim_arg2

lemma rq_sim_step:
  assumes moved: "rq_moved (mbuf_id env) t ks r s" and p: "p + t < length buf"
    and env: "push_ok env' = push_ok env" "data_size env' = data_size env"
  shows "rq_sim (mbuf_id env) t ks (rq_step env' (drop t buf) p r) (rq_step env buf (p + t) s)"
proof -
  have ch: "drop t buf ! p = buf ! (p + t)" using p by (simp add: add.commute)
  note fields = rq_moved_fields [OF moved]
  show ?thesis
    unfolding rq_step_def Let_def ch fields
    by (cases "state r")
      (simp_all only: rq_state.case rq_narg_lf_def rq_req_type_len_def rq_req_type_len_lf_def rq_req_type_lf_def
        rq_key_len_def rq_key_len_lf_def rq_key_lf_def rq_arg1_len_def rq_arg1_len_lf_def rq_arg1_def rq_arg1_lf_def
        rq_arg2_len_def rq_arg2_len_lf_def rq_arg2_lf_def rq_arg3_len_def rq_arg3_len_lf_def rq_arg3_def rq_arg3_lf_def
        rq_argn_len_def rq_argn_len_lf_def rq_argn_def rq_argn_lf_def fields Let_def env,
       (intro rq_sim_rules moved; use moved p env in simp)+)
qed

lemma rq_replay:
  assumes "rq_sane (length b1) s" "rq_tok b1 (length b1) s" "token s = Some t" "state s \<noteq> SW_ARG2"
  shows "parse_loop (rq_gstep env) (b1 @ b2) t (s\<lparr>token := None\<rparr>) = parse_loop (rq_gstep env) (b1 @ b2) (length b1) s"
proof -
  from assms(2-4) consider "state s = SW_NARG" | "rq_len_state (state s)" | "state s \<in> {SW_REQ_TYPE, SW_KEY}" "t < length b1"
    by (auto simp: rq_tok_def split: if_splits)
  then show ?thesis
    by cases (use assms in \<open>simp_all add: rq_replay_narg rq_replay_len rq_replay_token\<close>)
qed

lemma rq_repair_loop:
  assumes "rq_sane (length b1) s" "rq_tok b1 (length b1) s" "token s = Some t" "state s \<noteq> SW_ARG2"
    and env: "push_ok env' = push_ok env" "data_size env' = data_size env"
  shows "rel_option (rq_sim (mbuf_id env) t (keys s))
    (parse_loop (rq_gstep env') (drop t b1 @ b2) 0 (s\<lparr>token := None\<rparr>))
    (parse_loop (rq_gstep env) (b1 @ b2) (length b1) s)"
proof -
  have t: "t < length b1" using assms(2,3) by (simp add: rq_tok_def)
  have "rel_option (rel_prod (rq_moved (mbuf_id env) t (keys s)) (\<lambda>c d. d = shift_ctl t c))
    (parse_loop (rq_gstep env') (drop t (b1 @ b2)) 0 (s\<lparr>token := None\<rparr>))
    (parse_loop (rq_gstep env) (b1 @ b2) (0 + t) (s\<lparr>token := None\<rparr>))"
  proof (rule rq.loop_related)
    show "rel_prod (rq_moved (mbuf_id env) t (keys s)) (\<lambda>c d. d = shift_ctl t c)
        (rq_gstep env' (drop t (b1 @ b2)) p x) (rq_gstep env (b1 @ b2) (p + t) y)"
      if "p + t < length (b1 @ b2)" "rq_moved (mbuf_id env) t (keys s) x y" for p x y
      using rq_sim_step [OF that(2,1) env] rq_moved_sane [OF that(2), of p] that(2)
      by (simp add: rq_gstep_def rq_sim_def shift_ctl_def)
  qed (use t in \<open>simp_all add: rq_moved_def\<close>)
  then show ?thesis
    using t rq_replay [OF assms(1-4), of env b2] by (simp add: rq_sim_def)
qed

lemma rq_restart:
  assumes "parse_loop (rq_gstep env) buf 0 (s\<lparr>token := None\<rparr>) = Some (x, c)"
    and r: "r = s\<lparr>pos := t, token := None, result := y\<rparr>"
  shows "redis_parse_req env buf full (r\<lparr>pos := 0\<rparr>) =
    Some (rq_finish full (x\<lparr>pos := 0, result := y\<rparr>) c)"
proof -
  let ?s = "s\<lparr>token := None, pos := 0, result := y\<rparr>"
  have "parse_loop (rq_gstep env) buf 0 ?s = Some (x\<lparr>pos := 0, result := y\<rparr>, c)"
    using rq.loop_commute [where f = "\<lambda>r. r\<lparr>pos := 0, result := y\<rparr>", OF rq_gstep_frame, of env buf 0 "s\<lparr>token := None\<rparr>"] assms(1)
    by simp
  moreover have "r\<lparr>pos := 0\<rparr> = ?s" unfolding r by simp
  moreover have "rq_sane 0 ?s" by (simp add: rq_sane_def)
  ultimately show ?thesis by (simp add: redis_parse_req_def rq_loop_guard)
qed


definition rq_start :: rq where
  "rq_start = msg_fresh SW_START REDIS_UNKNOWN"


section \<open>The number of keys of EVAL\<close>

text \<open>
  C35: in the state that reads the number of keys of \<open>EVAL\<close>, \<open>rlen\<close> has already been reduced by the
  digits that are then moved to the new mbuf.  So there the parser looks for the carriage return
  among the digits, and rejects the request, however it goes on.
\<close>

theorem redis_eval_repair_fails:
  assumes "redis_parse_req env b1 True r = Some r1" "result r1 = MSG_PARSE_REPAIR" "state r1 = SW_ARG2"
    and "rq_sane (pos r) r" "rq_tok b1 (pos r) r"
    and moved: "drop (pos r1) b1 @ b2 = d @ rest" "list_all isdigit d" "length d = unat (rlen r1) + (length b1 - pos r1)"
  shows "\<exists>r3. redis_parse_req env' (drop (pos r1) b1 @ b2) False (r1\<lparr>pos := 0\<rparr>) = Some r3 \<and> result r3 = MSG_PARSE_ERROR"
proof -
  obtain s c where loop: "parse_loop (rq_gstep env) b1 (pos r) r = Some (s, c)"
    using rq.loop_terminates by blast
  have "r1 = rq_finish True s c" using loop assms(1,4) by (simp add: redis_parse_req_def rq_loop_guard)
  with assms(2) obtain q t where c: "c = Next q" and t: "token s = Some t"
    and r1: "r1 = s\<lparr>pos := t, token := None, result := MSG_PARSE_REPAIR\<rparr>"
    by (auto simp: rq_finish_def split: ctl.splits option.splits)
  have "ends_with (rq_gstep env) b1 (\<lambda>p r. rq_sane p r \<and> rq_tok b1 p r) (pos r) s c"
    by (rule rq.loop_post [OF loop])
      (use assms(4,5) in \<open>auto simp: rq_gstep_def rq_tok_def [of b1 "pos r"] intro: rq_sane_step rq_tok_step split: if_splits\<close>)
  then have "rq_tok b1 (length b1) s" unfolding c ends_with_def by auto
  with t have "t < length b1" by (simp add: rq_tok_def)
  with moved(3) r1 have m: "unat (rlen s) < length d" by simp
  then have "isdigit (d ! unat (rlen s))" using moved(2) by (simp add: list_all_length)
  then have cr: "(d @ rest) ! unat (rlen s) \<noteq> CR" using m by (auto simp: nth_append isdigit_def CR_def)
  have "\<exists>x. rq_arg2 (d @ rest) 0 (s\<lparr>token := None\<rparr>) = (x, Fail)"
    using m cr by (simp add: rq_arg2_def Let_def)
  then obtain x where "rq_gstep env' (d @ rest) 0 (s\<lparr>token := None\<rparr>) = (x, Fail)"
    using assms(3) r1 by (auto simp: rq_gstep_def rq_sane_def rq_step_def)
  then have "parse_loop (rq_gstep env') (d @ rest) 0 (s\<lparr>token := None\<rparr>) = Some (x, Fail)"
    using m by (intro rq.loop_stop) auto
  from rq_restart [OF this r1, of False] show ?thesis
    unfolding moved(1) by (simp add: rq_finish_def)
qed

definition demo_eval :: bytes where
  "demo_eval = bytes_of ''*4'' @ [CR, LF] @ bytes_of ''$4'' @ [CR, LF] @ bytes_of ''eval'' @ [CR, LF] @
     bytes_of ''$1'' @ [CR, LF] @ bytes_of ''s'' @ [CR, LF] @ bytes_of ''$2'' @ [CR, LF] @ bytes_of ''0''"

definition demo_eval_rest :: bytes where
  "demo_eval_rest = bytes_of ''1'' @ [CR, LF] @ bytes_of ''$1'' @ [CR, LF] @ bytes_of ''k'' @ [CR, LF]"

theorem redis_eval_repair_fails_witness:
  "\<exists>r1 r3. redis_parse_req chunk_env demo_eval True rq_start = Some r1 \<and> result r1 = MSG_PARSE_REPAIR \<and>
     map_option result (redis_parse_req chunk_env (demo_eval @ demo_eval_rest) False rq_start) = Some MSG_PARSE_OK \<and>
     redis_parse_req chunk_env (drop (pos r1) demo_eval @ demo_eval_rest) False (r1\<lparr>pos := 0\<rparr>) = Some r3 \<and> result r3 = MSG_PARSE_ERROR"
proof -
  have run: "map_option (\<lambda>r. (result r, state r, pos r, unat (rlen r))) (redis_parse_req chunk_env demo_eval True rq_start) =
      Some (MSG_PARSE_REPAIR, SW_ARG2, length demo_eval - 1, 1)"
    by code_simp
  then obtain r1 where r1: "redis_parse_req chunk_env demo_eval True rq_start = Some r1"
    "result r1 = MSG_PARSE_REPAIR" "state r1 = SW_ARG2"
    and at: "pos r1 = length demo_eval - 1" "unat (rlen r1) = 1"
    by auto
  have sane: "rq_sane (pos rq_start) rq_start" "rq_tok demo_eval (pos rq_start) rq_start"
    by (simp_all add: rq_start_def msg_fresh_def rq_sane_def rq_tok_def)
  have d: "drop (pos r1) demo_eval @ demo_eval_rest = bytes_of ''01'' @ drop 1 demo_eval_rest"
    unfolding at by code_simp
  have len: "length (bytes_of ''01'') = unat (rlen r1) + (length demo_eval - pos r1)"
    unfolding at by code_simp
  have dig: "list_all isdigit (bytes_of ''01'')" by code_simp
  have ok: "map_option result (redis_parse_req chunk_env (demo_eval @ demo_eval_rest) False rq_start) = Some MSG_PARSE_OK"
    by code_simp
  from r1 ok redis_eval_repair_fails [OF r1 sane d dig len, of chunk_env] show ?thesis by blast
qed

end
