(* ===== verification/NC_RedisInv.thy ===== *)
theory NC_RedisInv
  imports NC_RedisReq
begin

text \<open>
  What \<open>redis_parse_req\<close> guarantees of a request it accepts: the command has the number of
  arguments and keys of its form, and the keys lie inside the request.
\<close>

section \<open>Counting arguments\<close>

text \<open>
  In terms of the form of the command, the number \<open>n\<close> of arguments announced, the number \<open>m\<close> of
  arguments still to be read and the number \<open>k\<close> of keys found: when a key, the first, the second, the
  third or a further argument is to be read.
\<close>

definition at_key :: "form \<Rightarrow> nat \<Rightarrow> nat \<Rightarrow> nat \<Rightarrow> bool" where
  "at_key f n m k \<longleftrightarrow>
     (case f of
        FZ \<Rightarrow> False
      | FX \<Rightarrow> n = 1 + k + m
      | FKV \<Rightarrow> n = 1 + 2 * k + m
      | FEVAL \<Rightarrow> n = 3 + m \<and> k = 0
      | _ \<Rightarrow> n = 1 + m \<and> k = 0)"

definition at_arg1 :: "form \<Rightarrow> nat \<Rightarrow> nat \<Rightarrow> nat \<Rightarrow> bool" where
  "at_arg1 f n m k \<longleftrightarrow>
     (case f of
        F1 \<Rightarrow> n = 2 + m \<and> k = 1 \<and> m = 1
      | F2 \<Rightarrow> n = 2 + m \<and> k = 1 \<and> m = 2
      | F3 \<Rightarrow> n = 2 + m \<and> k = 1 \<and> m = 3
      | FN \<Rightarrow> n = 2 + m \<and> k = 1
      | FKV \<Rightarrow> n = 2 * k + m \<and> k \<noteq> 0
      | FEVAL \<Rightarrow> n = 1 + m \<and> k = 0
      | _ \<Rightarrow> False)"

definition at_arg2 :: "form \<Rightarrow> nat \<Rightarrow> nat \<Rightarrow> nat \<Rightarrow> bool" where
  "at_arg2 f n m k \<longleftrightarrow>
     (case f of
        F2 \<Rightarrow> n = 3 + m \<and> k = 1 \<and> m = 1
      | F3 \<Rightarrow> n = 3 + m \<and> k = 1 \<and> m = 2
      | FEVAL \<Rightarrow> n = 2 + m \<and> k = 0
      | _ \<Rightarrow> False)"

definition at_arg3 :: "form \<Rightarrow> nat \<Rightarrow> nat \<Rightarrow> nat \<Rightarrow> bool" where
  "at_arg3 f n m k \<longleftrightarrow> f = F3 \<and> n = 4 + m \<and> k = 1 \<and> m = 1"

definition at_argn :: "form \<Rightarrow> nat \<Rightarrow> nat \<Rightarrow> nat \<Rightarrow> bool" where
  "at_argn f n m k \<longleftrightarrow> k = 1 \<and> (f = FN \<and> 2 + m \<le> n \<or> f = FEVAL \<and> 4 + m \<le> n)"

text \<open>The numbers of arguments and keys of a complete request.\<close>

definition arity_ok :: "form \<Rightarrow> nat \<Rightarrow> nat \<Rightarrow> bool" where
  "arity_ok f n k \<longleftrightarrow>
     (case f of
        FZ \<Rightarrow> k = 0
      | F0 \<Rightarrow> n = 2 \<and> k = 1
      | F1 \<Rightarrow> n = 3 \<and> k = 1
      | F2 \<Rightarrow> n = 4 \<and> k = 1
      | F3 \<Rightarrow> n = 5 \<and> k = 1
      | FN \<Rightarrow> 2 \<le> n \<and> k = 1
      | FX \<Rightarrow> n = k + 1 \<and> k \<noteq> 0
      | FKV \<Rightarrow> n = 2 * k + 1 \<and> k \<noteq> 0
      | FEVAL \<Rightarrow> 4 \<le> n \<and> k = 1)"

lemmas at_defs = at_key_def at_arg1_def at_arg2_def at_arg3_def at_argn_def

definition rq_counts :: "rq \<Rightarrow> bool" where
  "rq_counts r \<longleftrightarrow>
     (let f = form_of (mtype r); n = unat (narg r); m = unat (rnarg r); k = length (keys r) in
      case state r of
        SW_START \<Rightarrow> k = 0 | SW_NARG \<Rightarrow> k = 0
      | SW_NARG_LF \<Rightarrow> k = 0 \<and> n = m \<and> 0 < n | SW_REQ_TYPE_LEN \<Rightarrow> k = 0 \<and> n = m \<and> 0 < n
      | SW_REQ_TYPE_LEN_LF \<Rightarrow> k = 0 \<and> n = m + 1 | SW_REQ_TYPE \<Rightarrow> k = 0 \<and> n = m + 1
      | SW_REQ_TYPE_LF \<Rightarrow> k = 0 \<and> n = m + 1 \<and> form_ok (mtype r)
      | SW_KEY_LEN \<Rightarrow> at_key f n m k \<and> form_ok (mtype r)
      | SW_KEY_LEN_LF \<Rightarrow> at_key f n (m + 1) k \<and> form_ok (mtype r)
      | SW_KEY \<Rightarrow> at_key f n (m + 1) k \<and> form_ok (mtype r)
      | SW_KEY_LF \<Rightarrow> (\<exists>j. k = Suc j \<and> at_key f n (m + 1) j) \<and> form_ok (mtype r)
      | SW_ARG1_LEN \<Rightarrow> at_arg1 f n m k \<and> form_ok (mtype r)
      | SW_ARG1_LEN_LF \<Rightarrow> at_arg1 f n (m + 1) k \<and> form_ok (mtype r)
      | SW_ARG1 \<Rightarrow> at_arg1 f n (m + 1) k \<and> form_ok (mtype r)
      | SW_ARG1_LF \<Rightarrow> at_arg1 f n (m + 1) k \<and> form_ok (mtype r)
      | SW_ARG2_LEN \<Rightarrow> at_arg2 f n m k \<and> form_ok (mtype r)
      | SW_ARG2_LEN_LF \<Rightarrow> at_arg2 f n (m + 1) k \<and> form_ok (mtype r)
      | SW_ARG2 \<Rightarrow> at_arg2 f n (m + 1) k \<and> form_ok (mtype r)
      | SW_ARG2_LF \<Rightarrow> at_arg2 f n (m + 1) k \<and> form_ok (mtype r)
      | SW_ARG3_LEN \<Rightarrow> at_arg3 f n m k \<and> form_ok (mtype r)
      | SW_ARG3_LEN_LF \<Rightarrow> at_arg3 f n (m + 1) k \<and> form_ok (mtype r)
      | SW_ARG3 \<Rightarrow> at_arg3 f n (m + 1) k \<and> form_ok (mtype r)
      | SW_ARG3_LF \<Rightarrow> at_arg3 f n (m + 1) k \<and> form_ok (mtype r)
      | SW_ARGN_LEN \<Rightarrow> at_argn f n m k \<and> form_ok (mtype r)
      | SW_ARGN_LEN_LF \<Rightarrow> at_argn f n (m + 1) k \<and> form_ok (mtype r)
      | SW_ARGN \<Rightarrow> at_argn f n (m + 1) k \<and> form_ok (mtype r)
      | SW_ARGN_LF \<Rightarrow> at_argn f n (m + 1) k \<and> form_ok (mtype r))"

lemma Suc_unat_pred [simp]: "w \<noteq> 0 \<Longrightarrow> Suc (unat (w - 1)) = unat w" for w :: u32
  using unat_gt_0 [of w] by (simp add: unat_minus_one)

lemma unat_eq_numerals: "(w = 1) = (unat w = 1)" "(w = 2) = (unat w = 2)" "(w = 3) = (unat w = 3)"
  "(w < 2) = (unat w < 2)" "(w < 1) = (unat w < 1)" for w :: u32
  by (simp_all add: unat_arith_simps)

lemmas rq_count_rules = rq_counts_def rq_step_def rq_state_defs rq_generic_defs

lemma rq_counts_step:
  assumes "rq_counts r" "rq_step env buf p r = (r', Next q)"
  shows "rq_counts r'"
proof (cases "state r")
  case SW_START
  with assms show ?thesis by (auto simp: rq_count_rules unat_gt_0 split: if_splits)
next
  case SW_NARG
  with assms show ?thesis by (auto simp: rq_count_rules unat_gt_0 split: if_splits)
next
  case SW_NARG_LF
  with assms show ?thesis by (auto simp: rq_count_rules split: if_splits)
next
  case SW_REQ_TYPE_LEN
  with assms show ?thesis by (auto simp: rq_count_rules split: if_splits option.splits)
next
  case SW_REQ_TYPE_LEN_LF
  with assms show ?thesis by (auto simp: rq_count_rules split: if_splits)
next
  case SW_REQ_TYPE
  with assms show ?thesis
    by (auto simp: rq_count_rules redis_command_form_ok split: if_splits option.splits)
next
  case SW_REQ_TYPE_LF
  with assms show ?thesis
    by (auto simp: rq_count_rules form_ok_def at_defs split: if_splits form.splits)
next
  case SW_KEY_LEN
  with assms show ?thesis by (auto simp: rq_count_rules split: if_splits option.splits)
next
  case SW_KEY_LEN_LF
  with assms show ?thesis by (auto simp: rq_count_rules split: if_splits)
next
  case SW_KEY
  with assms show ?thesis by (auto simp: rq_count_rules split: if_splits option.splits)
next
  case SW_KEY_LF
  with assms show ?thesis
    by (cases "form_of (mtype r)";
        auto simp: rq_count_rules form_ok_def at_defs unat_eq_numerals split: if_splits)
next
  case SW_ARG1_LF
  with assms show ?thesis
    by (cases "form_of (mtype r)";
        auto simp: rq_count_rules form_ok_def at_defs unat_eq_numerals split: if_splits)
next
  case SW_ARG2_LF
  with assms show ?thesis
    by (cases "form_of (mtype r)";
        auto simp: rq_count_rules form_ok_def at_defs unat_eq_numerals split: if_splits)
next
  case SW_ARG3_LF
  with assms show ?thesis
    by (cases "form_of (mtype r)";
        auto simp: rq_count_rules form_ok_def at_defs unat_eq_numerals split: if_splits)
next
  case SW_ARGN_LF
  with assms show ?thesis
    by (cases "form_of (mtype r)";
        auto simp: rq_count_rules form_ok_def at_defs unat_eq_numerals split: if_splits)
qed (use assms in \<open>auto simp: rq_count_rules split: if_splits option.splits\<close>)

lemma rq_Done_LF:
  assumes "rq_step env buf p r = (r', Done q)"
  shows "buf ! p = LF \<and> r' = r \<and>
    state r \<in> {SW_REQ_TYPE_LF, SW_KEY_LF, SW_ARG1_LF, SW_ARG2_LF, SW_ARG3_LF, SW_ARGN_LF}"
  using assms
  by (cases "state r";
      auto simp: rq_step_def rq_state_defs rq_generic_defs split: if_splits option.splits)

lemma rq_counts_done:
  assumes "rq_counts r" "rq_step env buf p r = (r', Done q)"
  shows "form_ok (mtype r') \<and> arity_ok (form_of (mtype r')) (unat (narg r')) (length (keys r'))"
proof -
  have r': "r' = r" "state r \<in> {SW_REQ_TYPE_LF, SW_KEY_LF, SW_ARG1_LF, SW_ARG2_LF, SW_ARG3_LF, SW_ARGN_LF}"
    using rq_Done_LF [OF assms(2)] by auto
  have ok: "form_ok (mtype r)" using assms(1) r'(2) by (auto simp: rq_counts_def Let_def)
  show ?thesis
    using assms r' ok unfolding r'(1)
    by (cases "form_of (mtype r)"; elim insertE)
      (auto simp: rq_count_rules arity_ok_def form_ok_def at_defs split: if_splits)
qed

section \<open>Keys\<close>

text \<open>A key of this mbuf: it lies in front of a carriage return and is shorter than an mbuf.\<close>

definition rq_key_ok :: "redis_env \<Rightarrow> bytes \<Rightarrow> keypos \<Rightarrow> bool" where
  "rq_key_ok env buf k \<longleftrightarrow>
     kp_mbuf k = mbuf_id env \<and> kp_start k \<le> kp_end k \<and> kp_end k < length buf \<and> buf ! kp_end k = CR \<and>
     kp_end k - kp_start k < data_size env"

definition rq_key_short :: "redis_env \<Rightarrow> rq \<Rightarrow> bool" where
  "rq_key_short env r \<longleftrightarrow> (state r \<in> {SW_KEY_LEN_LF, SW_KEY} \<longrightarrow> unat (rlen r) < data_size env)"

text \<open>What holds of a message between two calls of the parser, with the next byte at \<open>p\<close>.\<close>

definition rq_inv :: "redis_env \<Rightarrow> nat \<Rightarrow> rq \<Rightarrow> bool" where
  "rq_inv env p r \<longleftrightarrow> rq_sane p r \<and> rq_counts r \<and> rq_key_short env r"

lemma rq_key_short_step:
  assumes "rq_key_short env r" "rq_step env buf p r = (r', Next q)"
  shows "rq_key_short env r'"
  using assms
  by (cases "state r";
      auto simp: rq_key_short_def rq_step_def rq_state_defs rq_generic_defs split: if_splits option.splits)

text \<open>A turn keeps the keys, or adds the one that it has found.\<close>

lemma rq_keys_step:
  assumes "rq_step env buf p r = (r', c)" "rq_key_short env r"
  shows "keys r' = keys r \<or> (\<exists>k. keys r' = keys r @ [k] \<and> rq_key_ok env buf k)"
proof (cases "state r = SW_KEY")
  case True
  with assms show ?thesis
    by (auto simp: rq_key_short_def rq_step_def rq_key_def Let_def rq_key_ok_def split: if_splits option.splits)
next
  case False
  with assms(1) have "keys r' = keys r"
    by (cases "state r";
        auto simp: rq_step_def rq_state_defs rq_generic_defs split: if_splits option.splits)
  then show ?thesis ..
qed

definition rq_run :: "redis_env \<Rightarrow> bytes \<Rightarrow> keypos list \<Rightarrow> nat \<Rightarrow> rq \<Rightarrow> bool" where
  "rq_run env buf ks p r \<longleftrightarrow> rq_inv env p r \<and> (\<exists>new. keys r = ks @ new \<and> list_all (rq_key_ok env buf) new)"

lemma rq_run_step:
  assumes "p < length buf" "rq_run env buf ks p r" "rq_step env buf p r = (r', Next q)"
  shows "rq_run env buf ks q r'"
  using assms rq_sane_step [of p buf r env r' q] rq_counts_step [of r env buf p r' q]
    rq_key_short_step [of env r buf p r' q] rq_keys_step [of env buf p r r' "Next q"]
  unfolding rq_run_def rq_inv_def by fastforce

text \<open>A request that the parser accepts.\<close>

definition rq_complete :: "redis_env \<Rightarrow> bytes \<Rightarrow> keypos list \<Rightarrow> rq \<Rightarrow> bool" where
  "rq_complete env buf ks r \<longleftrightarrow>
     form_ok (mtype r) \<and> arity_ok (form_of (mtype r)) (unat (narg r)) (length (keys r)) \<and>
     (\<exists>new. keys r = ks @ new \<and> list_all (rq_key_ok env buf) new) \<and>
     pos r \<le> length buf \<and> buf ! (pos r - 1) = LF \<and> state r = SW_START \<and> token r = None"

lemma rq_loop_post:
  assumes "rq_inv env (pos r) r" "pos r \<le> length buf"
  obtains r' c where "parse_loop (rq_step env) buf (pos r) r = Some (r', c)"
    "ends_with (rq_step env) buf (rq_run env buf (keys r)) (pos r) r' c"
proof -
  have run: "rq_run env buf (keys r) (pos r) r" using assms(1) by (simp add: rq_run_def)
  obtain r' c where g: "parse_loop (rq_gstep env) buf (pos r) r = Some (r', c)"
    using rq.loop_terminates by blast
  have "ends_with (rq_gstep env) buf (rq_run env buf (keys r)) (pos r) r' c"
    using g run assms(2)
    by (rule rq.loop_post) (auto simp: rq_gstep_def intro: rq_run_step split: if_splits)
  moreover have "parse_loop (rq_step env) buf (pos r) r = Some (r', c)"
    using g assms(1) by (simp add: rq_loop_guard rq_inv_def)
  ultimately show ?thesis
    by (intro that) (auto simp: ends_with_def rq_gstep_def split: ctl.splits if_splits)
qed

lemma rq_inv_cong [simp]:
  "rq_inv env p (pos_update f r) = rq_inv env p r"
  "rq_inv env p (result_update g r) = rq_inv env p r"
  by (simp_all add: rq_inv_def rq_sane_def rq_counts_def rq_key_short_def Let_def cong: rq_state.case_cong)

lemma rq_inv_restart: "rq_inv env p r \<Longrightarrow> rq_inv env q (r\<lparr>token := None\<rparr>)"
  by (simp add: rq_inv_def rq_sane_def rq_counts_def rq_key_short_def Let_def cong: rq_state.case_cong)

text \<open>
  C9: \<open>redis_parse_req\<close> returns.  Started on a message that is well formed (a fresh one is), it
  answers with an error, or consumes everything and asks for more bytes, or asks to move the token
  cut by the end of a full mbuf, with a message that is well formed again; or it has consumed a
  whole request.  Then the command is a known one, the numbers of its arguments and of its keys are
  those of its form (\<open>GET\<close> has two arguments and one key, \<open>MGET\<close> one key per argument, \<open>MSET\<close> two
  arguments per key and so on), and every key of this mbuf stands in front of a carriage return
  and is shorter than an mbuf.
\<close>

theorem redis_parse_req_correct:
  assumes "rq_inv env (pos r) r" "pos r \<le> length buf"
  shows "\<exists>r'. redis_parse_req env buf full r = Some r' \<and>
    (case result r' of
       MSG_PARSE_OK \<Rightarrow> pos r < pos r' \<and> rq_complete env buf (keys r) r'
     | MSG_PARSE_AGAIN \<Rightarrow> pos r' = length buf \<and> rq_inv env (pos r') r' \<and> (full \<longrightarrow> token r' = None)
     | MSG_PARSE_REPAIR \<Rightarrow> full \<and> token r' = None \<and> (\<forall>q. rq_inv env q r')
     | MSG_PARSE_ERROR \<Rightarrow> True)"
proof -
  from rq_loop_post [OF assms] obtain r1 c where
    loop: "parse_loop (rq_step env) buf (pos r) r = Some (r1, c)"
    and post: "ends_with (rq_step env) buf (rq_run env buf (keys r)) (pos r) r1 c" .
  show ?thesis
  proof (cases c)
    case (Next q)
    with loop post show ?thesis
      by (auto simp: redis_parse_req_def rq_finish_def ends_with_def rq_run_def intro: rq_inv_restart
        split: option.split)
  next
    case (Done q)
    with post obtain r0 where r0: "rq_run env buf (keys r) q r0" "rq_step env buf q r0 = (r1, Done q)"
      and q: "pos r \<le> q" "q < length buf" by (auto simp: ends_with_def)
    from rq_counts_done [OF _ r0(2)] rq_Done_LF [OF r0(2)] r0(1) q Done loop show ?thesis
      by (auto simp: redis_parse_req_def rq_finish_def rq_complete_def rq_run_def rq_inv_def)
  qed (use loop in \<open>simp_all add: redis_parse_req_def rq_finish_def\<close>)
qed

definition demo_redis_env :: redis_env where
  "demo_redis_env = \<lparr>mbuf_id = 1, push_ok = True, data_size = 100\<rparr>"

abbreviation rq_fresh :: rq where
  "rq_fresh \<equiv> msg_fresh SW_START REDIS_UNKNOWN"

definition demo_mget :: bytes where
  "demo_mget = bytes_of ''*3'' @ [CR, LF] @ bytes_of ''$4'' @ [CR, LF] @ bytes_of ''mGet'' @ [CR, LF]
     @ bytes_of ''$1'' @ [CR, LF] @ bytes_of ''a'' @ [CR, LF] @ bytes_of ''$2'' @ [CR, LF] @ bytes_of ''bc'' @ [CR, LF]"

lemma rq_inv_fresh: "rq_inv env 0 rq_fresh"
  by (simp add: rq_inv_def rq_sane_def rq_counts_def rq_key_short_def msg_fresh_def)

theorem redis_parse_req_correct_witness:
  "\<exists>r'. redis_parse_req demo_redis_env demo_mget False rq_fresh = Some r' \<and> result r' = MSG_PARSE_OK \<and>
     0 < pos r' \<and> rq_complete demo_redis_env demo_mget [] r'"
proof -
  have inv: "rq_inv demo_redis_env (pos rq_fresh) rq_fresh"
    using rq_inv_fresh by (simp add: msg_fresh_def)
  have ok: "map_option result (redis_parse_req demo_redis_env demo_mget False rq_fresh) = Some MSG_PARSE_OK"
    by code_simp
  show ?thesis
    using redis_parse_req_correct [OF inv, of demo_mget False] ok by (auto simp: msg_fresh_def)
qed

end
