(* ===== verification/NC_RedisPrint.thy ===== *)
theory NC_RedisPrint
  imports NC_RedisRepair NC_RedisInv
begin

text \<open>
  Redis requests as a client writes them, and that \<open>redis_parse_req\<close> reads them back.
\<close>

section \<open>Writing a request\<close>

text \<open>An argument up to its last carriage return, an argument, a request.\<close>

definition bulk_head :: "bytes \<Rightarrow> bytes" where
  "bulk_head a = 36 # decimal (length a) @ [CR, LF] @ a @ [CR]"

definition bulk :: "bytes \<Rightarrow> bytes" where
  "bulk a = bulk_head a @ [LF]"

definition redis_print :: "bytes list \<Rightarrow> bytes" where
  "redis_print args = 42 # decimal (length args) @ [CR, LF] @ concat (map bulk args)"

section \<open>Reading an argument\<close>

lemma rq_read_len:
  assumes step: "\<And>q r'. state r' = state r \<Longrightarrow> rq_gstep env buf q r' = rq_len (ok q r') st (buf ! q) q r'"
    and here: "text_at buf p (36 # decimal n @ [CR])" and "token r = None" "rnarg r \<noteq> 0"
    and ok: "ok (p + Suc (length (decimal n))) (r\<lparr>token := Some p, rlen := word_of_nat n\<rparr>) p"
  shows "parse_loop (rq_gstep env) buf p r =
    parse_loop (rq_gstep env) buf (p + length (decimal n) + 2) (r\<lparr>rlen := word_of_nat n, rnarg := rnarg r - 1, state := st\<rparr>)"
proof -
  let ?w = "decimal n" and ?L = "parse_loop (rq_gstep env) buf"
  let ?f = "\<lambda>r c. r\<lparr>rlen := rlen r * 10 + digit c\<rparr>" and ?s = "r\<lparr>token := Some p, rlen := 0\<rparr>"
  have at: "p < length buf" "buf ! p = 36" "text_at buf (Suc p) ?w" "Suc p + length ?w < length buf" "buf ! (Suc p + length ?w) = CR"
    using here by simp_all
  have "?L p r = ?L (Suc p) ?s"
    using at assms(3) by (intro rq.loop_Next) (simp_all add: step rq_len_def)
  also have "\<dots> = ?L (Suc p + length ?w) (foldl ?f ?s ?w)"
    using at(3)
    by (rule rq.loop_fold [where P = "\<lambda>r'. state r' = state r \<and> token r' = Some p"])
      (auto simp: step rq_len_def decimal_digits)
  also have "foldl ?f ?s ?w = r\<lparr>token := Some p, rlen := word_of_nat n\<rparr>"
    unfolding foldl_rlen using number_decimal [of n] by (simp add: number_def)
  also have "?L (Suc p + length ?w) \<dots> =
      ?L (Suc (Suc p + length ?w)) (r\<lparr>token := Some p, rlen := word_of_nat n, rnarg := rnarg r - 1, token := None, state := st\<rparr>)"
    using at(4,5) ok assms(4) by (intro rq.loop_Next) (simp_all add: step rq_len_def)
  also have "r\<lparr>token := Some p, rlen := word_of_nat n, rnarg := rnarg r - 1, token := None, state := st\<rparr> =
      r\<lparr>rlen := word_of_nat n, rnarg := rnarg r - 1, state := st\<rparr>"
    using assms(3) by (cases r) simp
  also have "Suc (Suc p + length ?w) = p + length ?w + 2" by simp
  finally show ?thesis .
qed

lemma rq_read_lf:
  assumes "p < length buf" "buf ! p = LF" "rq_gstep env buf p r = rq_lf st (buf ! p) p r"
  shows "parse_loop (rq_gstep env) buf p r = parse_loop (rq_gstep env) buf (Suc p) (r\<lparr>state := st\<rparr>)"
  using assms by (intro rq.loop_Next) (simp_all add: rq_lf_def)

text \<open>An argument that is skipped, from its dollar sign to the line feed that ends it.\<close>

definition arg_states :: "rq_state \<Rightarrow> rq_state \<Rightarrow> rq_state \<Rightarrow> rq_state \<Rightarrow> bool" where
  "arg_states len len_lf st lf \<longleftrightarrow>
     (len, len_lf, st, lf) \<in>
       {(SW_ARG1_LEN, SW_ARG1_LEN_LF, SW_ARG1, SW_ARG1_LF), (SW_ARG2_LEN, SW_ARG2_LEN_LF, SW_ARG2, SW_ARG2_LF),
        (SW_ARG3_LEN, SW_ARG3_LEN_LF, SW_ARG3, SW_ARG3_LF), (SW_ARGN_LEN, SW_ARGN_LEN_LF, SW_ARGN, SW_ARGN_LF)}"

lemma arg_len_gstep:
  assumes "arg_states len len_lf st lf" "state r = len"
  shows "rq_gstep env buf q r = rq_len (\<lambda>t. 1 < q - t) len_lf (buf ! q) q r"
  using assms
  by (auto simp: arg_states_def rq_gstep_def rq_sane_def rq_step_def rq_arg1_len_def rq_arg2_len_def rq_arg3_len_def
    rq_argn_len_def)

lemma arg_lf_gstep:
  assumes "arg_states len len_lf st lf" "state r = len_lf"
  shows "rq_gstep env buf q r = rq_lf st (buf ! q) q r"
  using assms
  by (auto simp: arg_states_def rq_gstep_def rq_sane_def rq_step_def rq_arg1_len_lf_def rq_arg2_len_lf_def
    rq_arg3_len_lf_def rq_argn_len_lf_def)

lemma rq_arg2_skip: "\<not> redis_argeval (mtype r) \<Longrightarrow> rq_arg2 buf q r = rq_skip SW_ARG2_LF buf q r"
  by (simp add: rq_arg2_def rq_skip_def Let_def)

lemma arg_skip_gstep:
  assumes "arg_states len len_lf st lf" "state r = st" "\<not> redis_argeval (mtype r) \<or> st \<noteq> SW_ARG2"
  shows "rq_gstep env buf q r = rq_skip lf buf q r"
  using assms
  by (auto simp: arg_states_def rq_gstep_def rq_sane_def rq_step_def rq_arg1_def rq_arg3_def rq_argn_def rq_arg2_skip)

text \<open>The record after an argument: it has been counted, and the state is the one behind it.\<close>

definition rq_after :: "rq_state \<Rightarrow> rq \<Rightarrow> rq" where
  "rq_after st r = r\<lparr>rlen := 0, rnarg := rnarg r - 1, state := st\<rparr>"

lemma rq_after_simps [simp]:
  "state (rq_after st r) = st" "rnarg (rq_after st r) = rnarg r - 1" "token (rq_after st r) = token r"
  "keys (rq_after st r) = keys r" "mtype (rq_after st r) = mtype r" "narg (rq_after st r) = narg r"
  "quit (rq_after st r) = quit r" "noforward (rq_after st r) = noforward r"
  by (simp_all add: rq_after_def)

lemma text_at_bulk_head:
  assumes "text_at buf p (bulk_head a)"
  shows "text_at buf p (36 # decimal (length a) @ [CR])"
    "p + length (decimal (length a)) + 2 < length buf" "buf ! (p + length (decimal (length a)) + 2) = LF"
    "text_at buf (p + length (decimal (length a)) + 3) a"
    "p + length (bulk_head a) \<le> length buf"
    "buf ! (p + length (decimal (length a)) + 3 + length a) = CR"
    "p + length (bulk_head a) = p + length (decimal (length a)) + 3 + length a + 1"
    "Suc (p + length (decimal (length a)) + 2) = p + length (decimal (length a)) + 3"
  using assms by (simp_all add: bulk_head_def numeral_eq_Suc)

lemma rq_read_arg:
  assumes st: "arg_states len len_lf st lf" "state r = len" "\<not> redis_argeval (mtype r) \<or> st \<noteq> SW_ARG2"
    and here: "text_at buf p (bulk_head a)" and "token r = None" "rnarg r \<noteq> 0" "length a < 2 ^ 32"
  shows "parse_loop (rq_gstep env) buf p r = parse_loop (rq_gstep env) buf (p + length (bulk_head a)) (rq_after lf r)"
proof -
  note at = text_at_bulk_head [OF here]
  let ?n = "length (decimal (length a))" and ?L = "parse_loop (rq_gstep env) buf"
  let ?r = "r\<lparr>rlen := word_of_nat (length a), rnarg := rnarg r - 1\<rparr>"
  have "?L p r = ?L (p + ?n + 2) (?r\<lparr>state := len_lf\<rparr>)"
    using rq_read_len [OF _ at(1) assms(5,6), where ok = "\<lambda>q r' t. 1 < q - t"] st arg_len_gstep [OF st(1)] by simp
  also have "\<dots> = ?L (Suc (p + ?n + 2)) (?r\<lparr>state := st\<rparr>)"
    using rq_read_lf [OF at(2,3), of env "?r\<lparr>state := len_lf\<rparr>" st] arg_lf_gstep [OF st(1)] by simp
  also have "\<dots> = ?L (p + length (bulk_head a)) (rq_after lf r)"
  proof (rule rq.loop_Next)
    have "rq_skip lf buf (p + ?n + 3) (?r\<lparr>state := st\<rparr>) = (rq_after lf r, Next (p + length (bulk_head a)))"
      using at(5-7) by (simp add: rq_skip_def Let_def unat_of_nat_u32 [OF assms(7)] rq_after_def)
    then show "rq_gstep env buf (Suc (p + ?n + 2)) (?r\<lparr>state := st\<rparr>) = (rq_after lf r, Next (p + length (bulk_head a)))"
      using st(3) unfolding at(8) by (simp add: arg_skip_gstep [OF st(1)])
  qed (use at(5,7) in simp)
  finally show ?thesis .
qed

text \<open>The number of keys of \<open>EVAL\<close>.\<close>

lemma rq_read_nkey:
  assumes "state r = SW_ARG2_LEN" "redis_argeval (mtype r)"
    and here: "text_at buf p (bulk_head a)" and "token r = None" "rnarg r \<noteq> 0" "length a < 2 ^ 32"
    and nkey: "a \<noteq> []" "nkey_of 0 a = Some k" "k \<noteq> 0"
  shows "parse_loop (rq_gstep env) buf p r = parse_loop (rq_gstep env) buf (p + length (bulk_head a)) (rq_after SW_ARG2_LF r)"
proof -
  note at = text_at_bulk_head [OF here]
  have st: "arg_states SW_ARG2_LEN SW_ARG2_LEN_LF SW_ARG2 SW_ARG2_LF" by (simp add: arg_states_def)
  let ?n = "length (decimal (length a))" and ?L = "parse_loop (rq_gstep env) buf"
  let ?r = "r\<lparr>rlen := word_of_nat (length a), rnarg := rnarg r - 1\<rparr>"
  have "?L p r = ?L (p + ?n + 2) (?r\<lparr>state := SW_ARG2_LEN_LF\<rparr>)"
    using rq_read_len [OF _ at(1) assms(4,5), where ok = "\<lambda>q r' t. 1 < q - t"] assms(1) arg_len_gstep [OF st] by simp
  also have "\<dots> = ?L (Suc (p + ?n + 2)) (?r\<lparr>state := SW_ARG2\<rparr>)"
    using rq_read_lf [OF at(2,3), of env "?r\<lparr>state := SW_ARG2_LEN_LF\<rparr>" SW_ARG2] arg_lf_gstep [OF st] by simp
  also have "\<dots> = ?L (p + length (bulk_head a)) (rq_after SW_ARG2_LF r)"
  proof (rule rq.loop_Next)
    have "slice buf (p + ?n + 3) (p + ?n + 3 + length a) = a" using at(4) by (rule text_at_slice)
    moreover have "(rq_after SW_ARG2_LF r)\<lparr>token := None\<rparr> = rq_after SW_ARG2_LF r"
      using assms(4) by (cases r) (simp add: rq_after_def)
    ultimately have "rq_arg2 buf (p + ?n + 3) (?r\<lparr>state := SW_ARG2\<rparr>) = (rq_after SW_ARG2_LF r, Next (p + length (bulk_head a)))"
      using at(5-7) assms(2,4) nkey
      by (simp add: rq_arg2_def Let_def unat_of_nat_u32 [OF assms(6)] rq_after_def mark_token_def)
    then show "rq_gstep env buf (Suc (p + ?n + 2)) (?r\<lparr>state := SW_ARG2\<rparr>) = (rq_after SW_ARG2_LF r, Next (p + length (bulk_head a)))"
      unfolding at(8) by (simp add: rq_gstep_def rq_sane_def rq_step_def)
  qed (use at(5,7) in simp)
  finally show ?thesis .
qed

text \<open>A key, and what it adds to the message.\<close>

definition rq_after_key :: "redis_env \<Rightarrow> nat \<Rightarrow> bytes \<Rightarrow> rq \<Rightarrow> rq" where
  "rq_after_key env p a r =
     (let start = p + length (decimal (length a)) + 3 in
      (rq_after SW_KEY_LF r)\<lparr>keys := keys r @ [\<lparr>kp_mbuf = mbuf_id env, kp_start = start, kp_end = start + length a\<rparr>]\<rparr>)"

lemma rq_read_key:
  assumes "state r = SW_KEY_LEN" and here: "text_at buf p (bulk_head a)" and "token r = None" "rnarg r \<noteq> 0"
    "length a < 2 ^ 32" "length a < data_size env" "push_ok env"
  shows "parse_loop (rq_gstep env) buf p r = parse_loop (rq_gstep env) buf (p + length (bulk_head a)) (rq_after_key env p a r)"
proof -
  note at = text_at_bulk_head [OF here]
  let ?n = "length (decimal (length a))" and ?L = "parse_loop (rq_gstep env) buf"
  let ?r = "r\<lparr>rlen := word_of_nat (length a), rnarg := rnarg r - 1\<rparr>"
  have step: "rq_gstep env buf q r' = rq_len (\<lambda>t. unat (rlen r') < data_size env) SW_KEY_LEN_LF (buf ! q) q r'"
    if "state r' = state r" for q r'
    using that assms(1) by (simp add: rq_gstep_def rq_sane_def rq_step_def rq_key_len_def)
  have "?L p r = ?L (p + ?n + 2) (?r\<lparr>state := SW_KEY_LEN_LF\<rparr>)"
    using rq_read_len [OF _ at(1) assms(3,4), where ok = "\<lambda>q r' t. unat (rlen r') < data_size env", OF step]
      assms(6) unat_of_nat_u32 [OF assms(5)] by simp
  also have "\<dots> = ?L (Suc (p + ?n + 2)) (?r\<lparr>state := SW_KEY\<rparr>)"
    using rq_read_lf [OF at(2,3), of env "?r\<lparr>state := SW_KEY_LEN_LF\<rparr>" SW_KEY] assms(3)
    by (simp add: rq_gstep_def rq_sane_def rq_step_def rq_key_len_lf_def)
  also have "\<dots> = ?L (p + length (bulk_head a)) (rq_after_key env p a r)"
  proof (rule rq.loop_Next)
    have "(rq_after_key env p a r)\<lparr>token := None\<rparr> = rq_after_key env p a r"
      using assms(3) by (cases r) (simp add: rq_after_key_def rq_after_def Let_def)
    then have "rq_key env buf (p + ?n + 3) (?r\<lparr>state := SW_KEY\<rparr>) = (rq_after_key env p a r, Next (p + length (bulk_head a)))"
      using at(5-7) assms(3,7)
      by (simp add: rq_key_def Let_def unat_of_nat_u32 [OF assms(5)] rq_after_key_def rq_after_def mark_token_def)
    then show "rq_gstep env buf (Suc (p + ?n + 2)) (?r\<lparr>state := SW_KEY\<rparr>) = (rq_after_key env p a r, Next (p + length (bulk_head a)))"
      unfolding at(8) using assms(3) by (simp add: rq_gstep_def rq_sane_def rq_step_def)
  qed (use at(5,7) in simp)
  finally show ?thesis .
qed

section \<open>Reading a list of arguments\<close>

text \<open>The bytes that the keys of a message point to.\<close>

definition key_texts :: "bytes \<Rightarrow> rq \<Rightarrow> bytes list" where
  "key_texts buf r = map (\<lambda>k. slice buf (kp_start k) (kp_end k)) (keys r)"

text \<open>The machine stands on the line feed behind an argument, the arguments \<open>rest\<close> follow.\<close>

definition rq_at :: "bytes \<Rightarrow> nat \<Rightarrow> rq \<Rightarrow> bytes list \<Rightarrow> bool" where
  "rq_at buf p r rest \<longleftrightarrow>
     text_at buf p (LF # concat (map bulk rest)) \<and> token r = None \<and> rnarg r = word_of_nat (length rest) \<and>
     length rest < 2 ^ 32 \<and> list_all (\<lambda>a. length a < 2 ^ 32) rest"

text \<open>From there it accepts the request, with the keys \<open>ws\<close> among the arguments.\<close>

definition rq_reads :: "redis_env \<Rightarrow> bytes \<Rightarrow> nat \<Rightarrow> rq \<Rightarrow> bytes list \<Rightarrow> bytes list \<Rightarrow> bool" where
  "rq_reads env buf p r ws rest \<longleftrightarrow>
     (\<exists>r'. parse_loop (rq_gstep env) buf p r = Some (r', Done (p + length (concat (map bulk rest)))) \<and>
        mtype r' = mtype r \<and> narg r' = narg r \<and> quit r' = quit r \<and> noforward r' = noforward r \<and>
        key_texts buf r' = key_texts buf r @ ws)"

lemma rnarg_nonzero: "length (a # rest) < 2 ^ 32 \<Longrightarrow> (word_of_nat (length (a # rest)) :: u32) \<noteq> 0"
  using unat_of_nat_u32 [of "length (a # rest)"] by (metis length_Cons nat.simps(3) unat_0)

lemma rq_at_Cons:
  assumes "rq_at buf p r (a # rest)"
  shows "p < length buf" "buf ! p = LF" "text_at buf (Suc p) (bulk_head a)" "rnarg r \<noteq> 0" "token r = None" "length a < 2 ^ 32"
    "text_at buf (p + length (bulk a)) (LF # concat (map bulk rest))" "rnarg r - 1 = word_of_nat (length rest)"
    "length rest < 2 ^ 32" "list_all (\<lambda>a. length a < 2 ^ 32) rest"
    "Suc p + length (bulk_head a) = p + length (bulk a)"
  using assms rnarg_nonzero [of a rest] by (simp_all add: rq_at_def bulk_def)

lemma rq_at_after:
  assumes "rq_at buf p r (a # rest)"
  shows "rq_at buf (p + length (bulk a)) (rq_after st (r\<lparr>state := st'\<rparr>)) rest"
    "rq_at buf (p + length (bulk a)) (rq_after_key env (Suc p) a (r\<lparr>state := st'\<rparr>)) rest"
  using rq_at_Cons [OF assms] by (simp_all add: rq_at_def rq_after_def rq_after_key_def Let_def)

lemma rq_reads_done: "rq_at buf p r [] \<Longrightarrow> rq_gstep env buf p r = (r, Done p) \<Longrightarrow> rq_reads env buf p r [] []"
  unfolding rq_reads_def rq_at_def by (intro exI [of _ r]) (simp add: rq.loop_stop)

lemma rq_reads_skip:
  assumes "rq_at buf p r (a # rest)" "rq_gstep env buf p r = (r\<lparr>state := len\<rparr>, Next (Suc p))"
    and "arg_states len len_lf st lf" "\<not> redis_argeval (mtype r) \<or> st \<noteq> SW_ARG2"
    and "rq_reads env buf (p + length (bulk a)) (rq_after lf (r\<lparr>state := len\<rparr>)) ws rest"
  shows "rq_reads env buf p r ws (a # rest)"
proof -
  note at = rq_at_Cons [OF assms(1)]
  have "parse_loop (rq_gstep env) buf p r = parse_loop (rq_gstep env) buf (Suc p) (r\<lparr>state := len\<rparr>)"
    using at(1) assms(2) by (rule rq.loop_Next)
  also have "\<dots> = parse_loop (rq_gstep env) buf (p + length (bulk a)) (rq_after lf (r\<lparr>state := len\<rparr>))"
    using rq_read_arg [OF assms(3) _ _ at(3), of "r\<lparr>state := len\<rparr>" env] at(4-6) assms(4) unfolding at(11) by simp
  finally show ?thesis
    using assms(5) unfolding rq_reads_def by (simp add: key_texts_def add.assoc)
qed

lemma rq_reads_nkey:
  assumes "rq_at buf p r (a # rest)" "rq_gstep env buf p r = (r\<lparr>state := SW_ARG2_LEN\<rparr>, Next (Suc p))"
    and "redis_argeval (mtype r)" "a \<noteq> []" "nkey_of 0 a = Some k" "k \<noteq> 0"
    and "rq_reads env buf (p + length (bulk a)) (rq_after SW_ARG2_LF (r\<lparr>state := SW_ARG2_LEN\<rparr>)) ws rest"
  shows "rq_reads env buf p r ws (a # rest)"
proof -
  note at = rq_at_Cons [OF assms(1)]
  have "parse_loop (rq_gstep env) buf p r = parse_loop (rq_gstep env) buf (Suc p) (r\<lparr>state := SW_ARG2_LEN\<rparr>)"
    using at(1) assms(2) by (rule rq.loop_Next)
  also have "\<dots> = parse_loop (rq_gstep env) buf (p + length (bulk a)) (rq_after SW_ARG2_LF (r\<lparr>state := SW_ARG2_LEN\<rparr>))"
    using rq_read_nkey [OF _ _ at(3), of "r\<lparr>state := SW_ARG2_LEN\<rparr>" k env] at(4-6) assms(3-6) unfolding at(11) by simp
  finally show ?thesis
    using assms(7) unfolding rq_reads_def by (simp add: key_texts_def add.assoc)
qed

lemma rq_reads_key:
  assumes "rq_at buf p r (a # rest)" "rq_gstep env buf p r = (r\<lparr>state := SW_KEY_LEN\<rparr>, Next (Suc p))"
    and "length a < data_size env" "push_ok env"
    and "rq_reads env buf (p + length (bulk a)) (rq_after_key env (Suc p) a (r\<lparr>state := SW_KEY_LEN\<rparr>)) ws rest"
  shows "rq_reads env buf p r (a # ws) (a # rest)"
proof -
  note at = rq_at_Cons [OF assms(1)]
  have "parse_loop (rq_gstep env) buf p r = parse_loop (rq_gstep env) buf (Suc p) (r\<lparr>state := SW_KEY_LEN\<rparr>)"
    using at(1) assms(2) by (rule rq.loop_Next)
  also have "\<dots> = parse_loop (rq_gstep env) buf (p + length (bulk a)) (rq_after_key env (Suc p) a (r\<lparr>state := SW_KEY_LEN\<rparr>))"
    using rq_read_key [OF _ at(3), of "r\<lparr>state := SW_KEY_LEN\<rparr>" env] at(4-6) assms(3,4) unfolding at(11) by simp
  finally have loop: "parse_loop (rq_gstep env) buf p r = \<dots>" .
  have "key_texts buf (rq_after_key env (Suc p) a (r\<lparr>state := SW_KEY_LEN\<rparr>)) = key_texts buf r @ [a]"
    using text_at_slice [OF text_at_bulk_head(4) [OF at(3)]] by (simp add: key_texts_def rq_after_key_def Let_def)
  then show ?thesis
    using assms(5) unfolding rq_reads_def loop by (auto simp: rq_after_key_def Let_def add.assoc)
qed

section \<open>The forms of a request\<close>

lemma arg_states_all [simp]:
  "arg_states SW_ARG1_LEN SW_ARG1_LEN_LF SW_ARG1 SW_ARG1_LF" "arg_states SW_ARG2_LEN SW_ARG2_LEN_LF SW_ARG2 SW_ARG2_LF"
  "arg_states SW_ARG3_LEN SW_ARG3_LEN_LF SW_ARG3 SW_ARG3_LF" "arg_states SW_ARGN_LEN SW_ARGN_LEN_LF SW_ARGN SW_ARGN_LF"
  by (simp_all add: arg_states_def)

lemma rq_lf_gstep:
  "state r = SW_REQ_TYPE_LF \<Longrightarrow> rq_gstep env buf p r = rq_req_type_lf (buf ! p) p r"
  "state r = SW_KEY_LF \<Longrightarrow> rq_gstep env buf p r = rq_key_lf (buf ! p) p r"
  "state r = SW_ARG1_LF \<Longrightarrow> rq_gstep env buf p r = rq_arg1_lf (buf ! p) p r"
  "state r = SW_ARG2_LF \<Longrightarrow> rq_gstep env buf p r = rq_arg2_lf (buf ! p) p r"
  "state r = SW_ARG3_LF \<Longrightarrow> rq_gstep env buf p r = rq_arg3_lf (buf ! p) p r"
  "state r = SW_ARGN_LF \<Longrightarrow> rq_gstep env buf p r = rq_argn_lf (buf ! p) p r"
  by (simp_all add: rq_gstep_def rq_sane_def rq_step_def)

text \<open>A message that has a known command of a given form.\<close>

definition rq_form :: "form \<Rightarrow> rq \<Rightarrow> bool" where
  "rq_form f r \<longleftrightarrow> form_ok (mtype r) \<and> form_of (mtype r) = f"

lemma rq_form_simps [simp]:
  "rq_form f (rq_after st r) = rq_form f r" "rq_form f (rq_after_key env p a r) = rq_form f r" "rq_form f (r\<lparr>state := st\<rparr>) = rq_form f r"
  by (simp_all add: rq_form_def rq_after_key_def Let_def)

lemma rq_after_key_simps [simp]:
  "state (rq_after_key env p a r) = SW_KEY_LF" "mtype (rq_after_key env p a r) = mtype r" "narg (rq_after_key env p a r) = narg r"
  by (simp_all add: rq_after_key_def Let_def)

lemma rq_form_args:
  assumes "rq_form f r"
  shows "redis_argz (mtype r) \<longleftrightarrow> f = FZ" "redis_arg0 (mtype r) \<longleftrightarrow> f = F0" "redis_arg1 (mtype r) \<longleftrightarrow> f = F1"
    "redis_arg2 (mtype r) \<longleftrightarrow> f = F2" "redis_arg3 (mtype r) \<longleftrightarrow> f = F3" "redis_argn (mtype r) \<longleftrightarrow> f = FN"
    "redis_argx (mtype r) \<longleftrightarrow> f = FX" "redis_argkvx (mtype r) \<longleftrightarrow> f = FKV" "redis_argeval (mtype r) \<longleftrightarrow> f = FEVAL"
  using assms by (auto simp: rq_form_def form_ok_def)

lemma rq_at_rnarg:
  assumes "rq_at buf p r rest"
  shows "buf ! p = LF" "rnarg r = 0 \<longleftrightarrow> rest = []"
  using assms rnarg_nonzero [of "hd rest" "tl rest"] by (cases rest; simp add: rq_at_def)+

lemmas rq_lf_defs = rq_lf_gstep rq_req_type_lf_def rq_key_lf_def rq_arg1_lf_def rq_arg2_lf_def rq_arg3_lf_def rq_argn_lf_def
  goto_if_def done_or_def done_if_def Let_def

text \<open>Further arguments, up to the end of the request.\<close>

lemma rq_reads_argn:
  "rq_at buf p r rest \<Longrightarrow> state r = SW_ARGN_LF \<Longrightarrow> rq_form f r \<Longrightarrow> f \<in> {FN, FEVAL} \<Longrightarrow> rq_reads env buf p r [] rest"
proof (induction rest arbitrary: p r)
  case Nil
  then show ?case
    using rq_at_rnarg [OF Nil.prems(1)] by (intro rq_reads_done) (auto simp: rq_lf_defs rq_form_args [OF Nil.prems(3)])
next
  case (Cons a rest)
  note at = rq_at_rnarg [OF Cons.prems(1)]
  show ?case
  proof (rule rq_reads_skip [OF Cons.prems(1) _ arg_states_all(4)])
    show "rq_gstep env buf p r = (r\<lparr>state := SW_ARGN_LEN\<rparr>, Next (Suc p))"
      using at Cons.prems by (auto simp: rq_lf_defs rq_form_args [OF Cons.prems(3)])
    show "rq_reads env buf (p + length (bulk a)) (rq_after SW_ARGN_LF (r\<lparr>state := SW_ARGN_LEN\<rparr>)) [] rest"
      using Cons.prems(3,4) rq_at_after(1) [OF Cons.prems(1)] by (intro Cons.IH) simp_all
  qed simp
qed

text \<open>Keys up to the end of the request.\<close>

lemma rq_reads_argx:
  assumes "push_ok env"
  shows "rq_at buf p r rest \<Longrightarrow> state r = SW_KEY_LF \<Longrightarrow> rq_form FX r \<Longrightarrow>
    list_all (\<lambda>a. length a < data_size env) rest \<Longrightarrow> rq_reads env buf p r rest rest"
proof (induction rest arbitrary: p r)
  case Nil
  then show ?case
    using rq_at_rnarg [OF Nil.prems(1)] by (intro rq_reads_done) (auto simp: rq_lf_defs rq_form_args [OF Nil.prems(3)])
next
  case (Cons a rest)
  note at = rq_at_rnarg [OF Cons.prems(1)]
  show ?case
  proof (rule rq_reads_key [OF Cons.prems(1)])
    show "rq_gstep env buf p r = (r\<lparr>state := SW_KEY_LEN\<rparr>, Next (Suc p))"
      using at Cons.prems by (auto simp: rq_lf_defs rq_form_args [OF Cons.prems(3)])
    show "rq_reads env buf (p + length (bulk a)) (rq_after_key env (Suc p) a (r\<lparr>state := SW_KEY_LEN\<rparr>)) rest rest"
      using Cons.prems(3,4) rq_at_after(2) [OF Cons.prems(1)] by (intro Cons.IH) simp_all
  qed (use assms Cons.prems in simp_all)
qed

text \<open>Keys with their values.\<close>

fun pair_keys :: "bytes list \<Rightarrow> bytes list" where
  "pair_keys (k # v # rest) = k # pair_keys rest"
| "pair_keys rest = []"

lemma rq_reads_value:
  assumes "rq_at buf p r (v # rest)" "state r = SW_KEY_LF" "rq_form FKV r" "narg r mod 2 \<noteq> 0"
    and "rq_reads env buf (p + length (bulk v)) (rq_after SW_ARG1_LF (r\<lparr>state := SW_ARG1_LEN\<rparr>)) ws rest"
  shows "rq_reads env buf p r ws (v # rest)"
proof (rule rq_reads_skip [OF assms(1) _ arg_states_all(1)])
  show "rq_gstep env buf p r = (r\<lparr>state := SW_ARG1_LEN\<rparr>, Next (Suc p))"
    using rq_at_rnarg [OF assms(1)] assms(2,4) by (auto simp: rq_lf_defs rq_form_args [OF assms(3)])
qed (use assms(5) in simp_all)

lemma rq_reads_argkvx:
  assumes "push_ok env"
  shows "rq_at buf p r rest \<Longrightarrow> state r = SW_ARG1_LF \<Longrightarrow> rq_form FKV r \<Longrightarrow> narg r mod 2 \<noteq> 0 \<Longrightarrow> even (length rest) \<Longrightarrow>
    list_all (\<lambda>a. length a < data_size env) (pair_keys rest) \<Longrightarrow> rq_reads env buf p r (pair_keys rest) rest"
proof (induction rest arbitrary: p r rule: pair_keys.induct)
  case (1 k v rest)
  note at = rq_at_rnarg [OF "1.prems"(1)]
  note k = rq_at_after(2) [OF "1.prems"(1), of env SW_KEY_LEN]
  have "rq_reads env buf p r (k # pair_keys rest) (k # v # rest)"
  proof (rule rq_reads_key [OF "1.prems"(1)])
    show "rq_gstep env buf p r = (r\<lparr>state := SW_KEY_LEN\<rparr>, Next (Suc p))"
      using at "1.prems"(2) by (auto simp: rq_lf_defs rq_form_args [OF "1.prems"(3)])
    show "rq_reads env buf (p + length (bulk k)) (rq_after_key env (Suc p) k (r\<lparr>state := SW_KEY_LEN\<rparr>)) (pair_keys rest) (v # rest)"
      using "1.prems" rq_at_after(1) [OF k] by (intro rq_reads_value [OF k] "1.IH") simp_all
  qed (use assms "1.prems" in simp_all)
  then show ?case by simp
next
  case "2_1"
  then show ?case
    using rq_at_rnarg [OF "2_1.prems"(1)] by (simp, intro rq_reads_done) (auto simp: rq_lf_defs rq_form_args [OF "2_1.prems"(3)])
qed simp

text \<open>From an argument on, for the forms that have a fixed number of them.\<close>

lemma rq_reads_last:
  assumes "rq_at buf p r []" "rq_form f r"
    "(state r, f) \<in> {(SW_KEY_LF, F0), (SW_KEY_LF, FN), (SW_KEY_LF, FEVAL), (SW_ARG1_LF, F1), (SW_ARG1_LF, FN), (SW_ARG2_LF, F2), (SW_ARG3_LF, F3)}"
  shows "rq_reads env buf p r [] []"
  using rq_at_rnarg [OF assms(1)] assms by (intro rq_reads_done) (auto simp: rq_lf_defs rq_form_args [OF assms(2)])

lemma rq_reads_next:
  assumes "rq_at buf p r (a # rest)" "rq_form f r"
    "(state r, f, len, length (a # rest)) \<in>
      {(SW_KEY_LF, F1, SW_ARG1_LEN, 1), (SW_KEY_LF, F2, SW_ARG1_LEN, 2), (SW_KEY_LF, F3, SW_ARG1_LEN, 3),
       (SW_ARG1_LF, F2, SW_ARG2_LEN, 1), (SW_ARG1_LF, F3, SW_ARG2_LEN, 2), (SW_ARG2_LF, F3, SW_ARG3_LEN, 1)} \<or>
     (state r, f, len) \<in> {(SW_KEY_LF, FN, SW_ARG1_LEN), (SW_ARG1_LF, FN, SW_ARGN_LEN), (SW_KEY_LF, FEVAL, SW_ARGN_LEN)}"
    and "arg_states len len_lf st lf"
    and "rq_reads env buf (p + length (bulk a)) (rq_after lf (r\<lparr>state := len\<rparr>)) ws rest"
  shows "rq_reads env buf p r ws (a # rest)"
proof (rule rq_reads_skip [OF assms(1) _ assms(4) _ assms(5)])
  have "rnarg r = word_of_nat (length (a # rest))" using assms(1) by (simp add: rq_at_def)
  with assms(3) rq_at_rnarg [OF assms(1)]
  show "rq_gstep env buf p r = (r\<lparr>state := len\<rparr>, Next (Suc p))"
    by (auto simp: rq_lf_defs rq_form_args [OF assms(2)])
  show "\<not> redis_argeval (mtype r) \<or> st \<noteq> SW_ARG2"
    using assms(3,4) rq_form_args(9) [OF assms(2)] by (auto simp: arg_states_def)
qed

lemma rq_reads_fixed:
  assumes "rq_at buf p r rest" "rq_form f r" "state r = SW_KEY_LF"
    "(f, length rest) \<in> {(F0, 0), (F1, 1), (F2, 2), (F3, 3)} \<or> f = FN \<or> f = FEVAL"
  shows "rq_reads env buf p r [] rest"
proof (cases rest)
  case Nil
  with assms show ?thesis by (simp, intro rq_reads_last [where f = f]) auto
next
  case (Cons a1 rest1)
  note r1 = rq_at_after(1) [OF assms(1) [unfolded Cons]]
  show ?thesis
  proof (cases "f = FEVAL")
    case True
    with assms show ?thesis
      unfolding Cons
      by (intro rq_reads_next [where f = f, OF _ _ _ arg_states_all(4)] rq_reads_argn [where f = f] r1) simp_all
  next
    case False
    have "rq_reads env buf (p + length (bulk a1)) (rq_after SW_ARG1_LF (r\<lparr>state := SW_ARG1_LEN\<rparr>)) [] rest1"
    proof (cases rest1)
      case Nil
      with False Cons assms(2,4) r1 show ?thesis by (simp, intro rq_reads_last [where f = f]) auto
    next
      case Cons2: (Cons a2 rest2)
      note r2 = rq_at_after(1) [OF r1 [unfolded Cons2]]
      show ?thesis
      proof (cases "f = FN")
        case True
        with assms(2) r1 r2 show ?thesis
          unfolding Cons2
          by (intro rq_reads_next [where f = f, OF _ _ _ arg_states_all(4)] rq_reads_argn [where f = f]) simp_all
      next
        case notN: False
        show ?thesis
        proof (cases rest2)
          case Nil
          with False notN Cons Cons2 assms(2,4) r1 r2 show ?thesis
            by (simp, intro rq_reads_next [where f = f, OF _ _ _ arg_states_all(2)] rq_reads_last [where f = f]) auto
        next
          case Cons3: (Cons a3 rest3)
          with False notN Cons Cons2 assms(4) have f: "f = F3" "rest3 = []" by auto
          note r3 = rq_at_after(1) [OF r2 [unfolded Cons3]]
          show ?thesis
            unfolding Cons2 Cons3 f(2)
            using r1 r2 r3 assms(2) unfolding Cons2 Cons3 f
            by (intro rq_reads_next [where f = F3, OF _ _ _ arg_states_all(2)]
                rq_reads_next [where f = F3, OF _ _ _ arg_states_all(3)] rq_reads_last [where f = F3]) auto
        qed
      qed
    qed
    with assms False show ?thesis
      unfolding Cons by (intro rq_reads_next [where f = f, OF _ _ _ arg_states_all(1)]) auto
  qed
qed

text \<open>The number of arguments that a command of a form takes, and the keys among them.\<close>

definition args_ok :: "form \<Rightarrow> bytes list \<Rightarrow> bool" where
  "args_ok f args \<longleftrightarrow>
     (case f of
        FZ \<Rightarrow> args = []
      | F0 \<Rightarrow> length args = 1
      | F1 \<Rightarrow> length args = 2
      | F2 \<Rightarrow> length args = 3
      | F3 \<Rightarrow> length args = 4
      | FN \<Rightarrow> args \<noteq> []
      | FX \<Rightarrow> args \<noteq> []
      | FKV \<Rightarrow> args \<noteq> [] \<and> even (length args)
      | FEVAL \<Rightarrow> 3 \<le> length args \<and> args ! 1 \<noteq> [] \<and> nkey_of 0 (args ! 1) \<notin> {None, Some 0})"

definition args_keys :: "form \<Rightarrow> bytes list \<Rightarrow> bytes list" where
  "args_keys f args =
     (case f of FZ \<Rightarrow> [] | FX \<Rightarrow> args | FKV \<Rightarrow> pair_keys args | FEVAL \<Rightarrow> [args ! 2] | _ \<Rightarrow> [hd args])"


text \<open>From the line feed behind the command.\<close>

lemma rq_req_type_goto:
  assumes "rq_at buf p r args" "rq_form f r" "state r = SW_REQ_TYPE_LF" "f \<noteq> FZ" "narg r \<noteq> 1"
  shows "rq_gstep env buf p r = (r\<lparr>state := if f = FEVAL then SW_ARG1_LEN else SW_KEY_LEN\<rparr>, Next (Suc p))"
  using assms(3-5) rq_at_rnarg [OF assms(1)] by (auto simp: rq_lf_defs rq_form_args [OF assms(2)])

lemma rq_reads_eval:
  assumes "rq_at buf p r args" "rq_form FEVAL r" "state r = SW_REQ_TYPE_LF" "narg r \<noteq> 1" "args_ok FEVAL args"
    "list_all (\<lambda>a. length a < data_size env) (args_keys FEVAL args)" "push_ok env"
  shows "rq_reads env buf p r (args_keys FEVAL args) args"
proof -
  from assms(5) obtain a b c rest where args: "args = a # b # c # rest"
    by (auto simp: args_ok_def numeral_eq_Suc Suc_le_length_iff)
  obtain k where k: "nkey_of 0 b = Some k" "k \<noteq> 0" "b \<noteq> []"
    using assms(5) by (auto simp: args_ok_def args)
  note a0 = assms(1) [unfolded args]
  note a1 = rq_at_after(1) [OF a0, of SW_ARG1_LF SW_ARG1_LEN]
  note a2 = rq_at_after(1) [OF a1, of SW_ARG2_LF SW_ARG2_LEN]
  note a3 = rq_at_after(2) [OF a2, of env SW_KEY_LEN]
  let ?r1 = "rq_after SW_ARG1_LF (r\<lparr>state := SW_ARG1_LEN\<rparr>)"
  let ?r2 = "rq_after SW_ARG2_LF (?r1\<lparr>state := SW_ARG2_LEN\<rparr>)"
  have n1: "\<not> rnarg ?r1 < 2" "\<not> rnarg ?r2 < 1" "length rest < 2 ^ 32"
    using a1 a2 unat_of_nat_u32 [of "length (b # c # rest)"] unat_of_nat_u32 [of "length (c # rest)"]
    by (auto simp: rq_at_def word_less_nat_alt)
  have "rq_reads env buf (p + length (bulk a)) ?r1 [c] (b # c # rest)"
  proof (rule rq_reads_nkey [OF a1 _ _ k(3,1,2)])
    show "rq_gstep env buf (p + length (bulk a)) ?r1 = (?r1\<lparr>state := SW_ARG2_LEN\<rparr>, Next (Suc (p + length (bulk a))))"
      using n1(1) rq_at_rnarg [OF a1] assms(2) by (simp add: rq_lf_defs rq_form_args [OF assms(2)])
    show "rq_reads env buf (p + length (bulk a) + length (bulk b)) ?r2 [c] (c # rest)"
    proof (rule rq_reads_key [OF a2])
      show "rq_gstep env buf (p + length (bulk a) + length (bulk b)) ?r2 =
          (?r2\<lparr>state := SW_KEY_LEN\<rparr>, Next (Suc (p + length (bulk a) + length (bulk b))))"
        using n1(2) rq_at_rnarg [OF a2] by (simp add: rq_lf_defs rq_form_args [OF assms(2)])
    qed (use assms(2,6,7) a3 in \<open>auto simp: args args_keys_def intro: rq_reads_fixed [where f = FEVAL]\<close>)
  qed (use rq_form_args(9) [OF assms(2)] in simp)
  then have "rq_reads env buf p r [c] (a # b # c # rest)"
    using rq_req_type_goto [OF assms(1-3) _ assms(4), of env]
    by (intro rq_reads_skip [OF a0 _ arg_states_all(1)]) simp_all
  then show ?thesis by (simp add: args args_keys_def)
qed

lemma odd_narg: "odd n \<Longrightarrow> n < 2 ^ 32 \<Longrightarrow> (word_of_nat n :: u32) mod 2 \<noteq> 0"
  using unat_of_nat_u32 [of n] by (metis even_iff_mod_2_eq_zero unat_mod unat_0 unat_numeral even_of_nat even_word_def odd_iff_mod_2_eq_one)

text \<open>Behind the first key of the forms that start with one.\<close>

lemma rq_reads_behind_key:
  assumes at: "rq_at buf p r rest" and f: "rq_form f r" "f \<notin> {FZ, FEVAL}" and st: "state r = SW_KEY_LF" and "push_ok env"
    and narg: "narg r = word_of_nat (Suc (Suc (length rest)))" "Suc (Suc (length rest)) < 2 ^ 32"
    and ok: "args_ok f (a # rest)" "list_all (\<lambda>a. length a < data_size env) (args_keys f (a # rest))"
  shows "rq_reads env buf p r (tl (args_keys f (a # rest))) rest"
proof -
  consider "f = FX" | "f = FKV" | "(f, length rest) \<in> {(F0, 0), (F1, 1), (F2, 2), (F3, 3)} \<or> f = FN \<or> f = FEVAL" "f \<notin> {FX, FKV}"
    using f(2) ok(1) by (cases f) (auto simp: args_ok_def)
  then show ?thesis
  proof cases
    case 1
    with assms show ?thesis using rq_reads_argx [OF assms(5) at st] by (simp add: args_keys_def)
  next
    case 2
    with ok(1) obtain v rest' where rest: "rest = v # rest'" "even (length rest')"
      by (cases rest) (auto simp: args_ok_def)
    have odd: "narg r mod 2 \<noteq> 0" unfolding narg(1) using narg(2) rest by (intro odd_narg) simp_all
    have "rq_reads env buf (p + length (bulk v)) (rq_after SW_ARG1_LF (r\<lparr>state := SW_ARG1_LEN\<rparr>)) (pair_keys rest') rest'"
      using f(1) 2 odd rest ok(2) rq_at_after(1) [OF at [unfolded rest(1)]]
      by (intro rq_reads_argkvx [OF assms(5)]) (simp_all add: args_keys_def)
    with at st f(1) 2 odd show ?thesis by (simp add: rest(1) args_keys_def rq_reads_value)
  next
    case 3
    then have "tl (args_keys f (a # rest)) = []" using f(2) by (cases f) (simp_all add: args_keys_def)
    with 3(1) at f(1) st show ?thesis by (simp add: rq_reads_fixed [where f = f])
  qed
qed

lemma rq_reads_request:
  assumes at: "rq_at buf p r args" and f: "rq_form f r" and st: "state r = SW_REQ_TYPE_LF"
    and narg: "narg r = word_of_nat (Suc (length args))" "Suc (length args) < 2 ^ 32"
    and ok: "args_ok f args" "list_all (\<lambda>a. length a < data_size env) (args_keys f args)" "push_ok env"
  shows "rq_reads env buf p r (args_keys f args) args"
proof (cases "f = FZ")
  case True
  with at ok(1) rq_at_rnarg [OF at] st show ?thesis
    by (simp add: args_ok_def args_keys_def, intro rq_reads_done) (simp_all add: rq_lf_defs rq_form_args [OF f])
next
  case nz: False
  then have "args \<noteq> []" using ok(1) by (auto simp: args_ok_def split: form.splits)
  then obtain a rest where args: "args = a # rest" by (cases args) auto
  have "unat (narg r) = Suc (Suc (length rest))" using unat_of_nat_u32 [OF narg(2)] narg(1) by (simp only: args length_Cons)
  then have n1: "narg r \<noteq> 1" by auto
  show ?thesis
  proof (cases "f = FEVAL")
    case True
    with assms n1 show ?thesis by (simp add: rq_reads_eval)
  next
    case False
    note a1 = rq_at_after(2) [OF at [unfolded args], of env SW_KEY_LEN]
    have keys: "args_keys f args = a # tl (args_keys f args)" "length a < data_size env"
      using ok nz False by (auto simp: args_keys_def args_ok_def args split: form.splits; cases rest; simp)+
    have "rq_reads env buf (p + length (bulk a)) (rq_after_key env (Suc p) a (r\<lparr>state := SW_KEY_LEN\<rparr>)) (tl (args_keys f args)) rest"
      using rq_reads_behind_key [OF a1 _ _ _ ok(3), of f] f narg ok(1,2) nz False by (simp add: args)
    with keys rq_req_type_goto [OF at f st nz n1, of env] False ok(3) show ?thesis
      unfolding args by (subst keys(1) [unfolded args], intro rq_reads_key [OF at [unfolded args]]) simp_all
  qed
qed


section \<open>The head of a request\<close>

lemma rq_read_narg:
  assumes "text_at buf 0 (42 # decimal n @ [CR, LF])" "0 < n" "n < 2 ^ 32"
  shows "\<exists>ns ne. parse_loop (rq_gstep env) buf 0 rq_fresh =
    parse_loop (rq_gstep env) buf (length (decimal n) + 3)
      (rq_fresh\<lparr>narg_start := ns, narg_end := ne, rnarg := word_of_nat n, narg := word_of_nat n, state := SW_REQ_TYPE_LEN\<rparr>)"
proof -
  let ?w = "decimal n" and ?L = "parse_loop (rq_gstep env) buf"
  let ?f = "\<lambda>r c. r\<lparr>rnarg := rnarg r * 10 + digit c\<rparr>"
  let ?s = "rq_fresh\<lparr>token := Some 0, narg_start := Some 0, rnarg := 0, state := SW_NARG\<rparr>"
  let ?t = "rq_fresh\<lparr>token := Some 0, narg_start := Some 0, rnarg := word_of_nat n, state := SW_NARG\<rparr>"
  let ?u = "rq_fresh\<lparr>narg_start := Some 0, narg_end := Some (Suc (length ?w)), rnarg := word_of_nat n, narg := word_of_nat n\<rparr>"
  have at: "0 < length buf" "text_at buf (Suc 0) ?w" "Suc (length ?w) < length buf" "buf ! Suc (length ?w) = CR"
    "Suc (Suc (length ?w)) < length buf" "buf ! Suc (Suc (length ?w)) = LF"
    using assms(1) by simp_all
  have n: "(word_of_nat n :: u32) \<noteq> 0" using assms(2,3) unat_of_nat_u32 [of n] by (metis neq0_conv unat_0)
  have narg: "rq_gstep env buf q r = rq_narg (buf ! q) q r" if "state r \<in> {SW_START, SW_NARG}" for q r
    using that by (auto simp: rq_gstep_def rq_sane_def rq_step_def)
  have "?L 0 rq_fresh = ?L (Suc 0) ?s"
    using at(1) by (intro rq.loop_Next) (simp_all add: narg rq_narg_def msg_fresh_def)
  also have "\<dots> = ?L (Suc 0 + length ?w) (foldl ?f ?s ?w)"
    using at(2)
    by (rule rq.loop_fold [where P = "\<lambda>r. state r = SW_NARG \<and> token r = Some 0"])
      (auto simp: narg rq_narg_def decimal_digits)
  also have "foldl ?f ?s ?w = ?t"
    unfolding foldl_rnarg using number_decimal [of n] by (simp add: number_def)
  also have "?L (Suc 0 + length ?w) ?t = ?L (Suc (Suc (length ?w))) (?u\<lparr>state := SW_NARG_LF\<rparr>)"
    using at n by (intro rq.loop_Next) (simp_all add: narg rq_narg_def msg_fresh_def)
  also have "\<dots> = ?L (Suc (Suc (Suc (length ?w)))) (?u\<lparr>state := SW_NARG_LF, state := SW_REQ_TYPE_LEN\<rparr>)"
    using at(5,6) by (intro rq_read_lf) (simp_all add: rq_gstep_def rq_sane_def rq_step_def rq_narg_lf_def)
  also have "Suc (Suc (Suc (length ?w))) = length ?w + 3" by simp
  finally show ?thesis by (intro exI) simp
qed

lemma redis_command_length: "redis_command cmd \<noteq> REDIS_UNKNOWN \<Longrightarrow> 0 < length cmd \<and> length cmd < 2 ^ 32"
  unfolding redis_command_def by (auto split: if_splits)

lemma rq_read_cmd:
  assumes "state r = SW_REQ_TYPE_LEN" and here: "text_at buf p (bulk_head cmd)" and "token r = None" "rnarg r \<noteq> 0"
    and known: "redis_command cmd \<noteq> REDIS_UNKNOWN"
  shows "parse_loop (rq_gstep env) buf p r =
    parse_loop (rq_gstep env) buf (p + length (bulk_head cmd))
      (rq_flags (redis_command cmd) ((rq_after SW_REQ_TYPE_LF r)\<lparr>mtype := redis_command cmd\<rparr>))"
proof -
  note at = text_at_bulk_head [OF here]
  note len = redis_command_length [OF known]
  let ?n = "length (decimal (length cmd))" and ?L = "parse_loop (rq_gstep env) buf"
  let ?r = "r\<lparr>rlen := word_of_nat (length cmd), rnarg := rnarg r - 1\<rparr>" and ?t = "redis_command cmd"
  let ?s = "rq_flags ?t ((rq_after SW_REQ_TYPE_LF r)\<lparr>mtype := ?t\<rparr>)"
  have nz: "(word_of_nat (length cmd) :: u32) \<noteq> 0" using len unat_of_nat_u32 [of "length cmd"] by (metis less_numeral_extra(3) unat_0)
  have step: "rq_gstep env buf q r' = rq_len (\<lambda>t. rlen r' \<noteq> 0) SW_REQ_TYPE_LEN_LF (buf ! q) q r'"
    if "state r' = state r" for q r'
    using that assms(1) by (simp add: rq_gstep_def rq_sane_def rq_step_def rq_req_type_len_def)
  have "?L p r = ?L (p + ?n + 2) (?r\<lparr>state := SW_REQ_TYPE_LEN_LF\<rparr>)"
    using rq_read_len [OF _ at(1) assms(3,4), where ok = "\<lambda>q r' t. rlen r' \<noteq> 0", OF step] nz by simp
  also have "\<dots> = ?L (Suc (p + ?n + 2)) (?r\<lparr>state := SW_REQ_TYPE\<rparr>)"
    using rq_read_lf [OF at(2,3), of env "?r\<lparr>state := SW_REQ_TYPE_LEN_LF\<rparr>" SW_REQ_TYPE] assms(3)
    by (simp add: rq_gstep_def rq_sane_def rq_step_def rq_req_type_len_lf_def)
  also have "\<dots> = ?L (p + length (bulk_head cmd)) ?s"
  proof (rule rq.loop_Next)
    have "slice buf (p + ?n + 3) (p + ?n + 3 + length cmd) = cmd" using at(4) by (rule text_at_slice)
    moreover have "?s\<lparr>token := None\<rparr> = ?s" using assms(3) by (cases r) (simp add: rq_after_def rq_flags_def)
    ultimately have "rq_req_type buf (p + ?n + 3) (?r\<lparr>state := SW_REQ_TYPE\<rparr>) = (?s, Next (p + length (bulk_head cmd)))"
      using at(5-7) assms(3) known len
      by (simp add: rq_req_type_def Let_def unat_of_nat_u32 rq_after_def mark_token_def rq_flags_def)
    then show "rq_gstep env buf (Suc (p + ?n + 2)) (?r\<lparr>state := SW_REQ_TYPE\<rparr>) = (?s, Next (p + length (bulk_head cmd)))"
      unfolding at(8) using assms(3) by (simp add: rq_gstep_def rq_sane_def rq_step_def)
  qed (use at(5,7) in simp)
  finally show ?thesis .
qed


section \<open>The round trip\<close>

text \<open>A request that a client may write: a known command with the arguments of its form.\<close>

definition redis_request_ok :: "redis_env \<Rightarrow> bytes \<Rightarrow> bytes list \<Rightarrow> bool" where
  "redis_request_ok env cmd args \<longleftrightarrow>
     redis_command cmd \<noteq> REDIS_UNKNOWN \<and> args_ok (form_of (redis_command cmd)) args \<and>
     list_all (\<lambda>a. length a < data_size env) (args_keys (form_of (redis_command cmd)) args) \<and>
     Suc (length args) < 2 ^ 32 \<and> list_all (\<lambda>a. length a < 2 ^ 32) args"

lemma redis_print_parts:
  "redis_print (cmd # args) =
     (42 # decimal (Suc (length args)) @ [CR, LF]) @ bulk_head cmd @ LF # concat (map bulk args)"
  by (simp add: redis_print_def bulk_def)

lemma rq_read_request:
  fixes rest :: bytes
  assumes "redis_request_ok env cmd args" "push_ok env"
  defines "buf \<equiv> redis_print (cmd # args) @ rest"
  shows "\<exists>r'. parse_loop (rq_gstep env) buf 0 rq_fresh = Some (r', Done (length (redis_print (cmd # args)) - 1)) \<and>
    mtype r' = redis_command cmd \<and> narg r' = word_of_nat (Suc (length args)) \<and>
    key_texts buf r' = args_keys (form_of (redis_command cmd)) args"
proof -
  let ?t = "redis_command cmd" and ?n = "Suc (length args)"
  let ?h = "length (decimal ?n) + 3"
  have known: "?t \<noteq> REDIS_UNKNOWN" and ok: "args_ok (form_of ?t) args"
      "list_all (\<lambda>a. length a < data_size env) (args_keys (form_of ?t) args)"
    and n: "?n < 2 ^ 32" "list_all (\<lambda>a. length a < 2 ^ 32) args"
    using assms(1) by (auto simp: redis_request_ok_def)
  have "text_at buf 0 (redis_print (cmd # args))" unfolding buf_def by (rule text_at_prefix)
  then have here: "text_at buf 0 (42 # decimal ?n @ [CR, LF])" "text_at buf ?h (bulk_head cmd)"
      "text_at buf (?h + length (bulk_head cmd)) (LF # concat (map bulk args))"
    unfolding redis_print_parts text_at_append by (simp_all add: numeral_eq_Suc)
  obtain ns ne where head: "parse_loop (rq_gstep env) buf 0 rq_fresh = parse_loop (rq_gstep env) buf ?h
      (rq_fresh\<lparr>narg_start := ns, narg_end := ne, rnarg := word_of_nat ?n, narg := word_of_nat ?n, state := SW_REQ_TYPE_LEN\<rparr>)"
    using rq_read_narg [OF here(1) _ n(1), of env] by auto
  define r0 where "r0 = rq_fresh\<lparr>narg_start := ns, narg_end := ne, rnarg := word_of_nat ?n, narg := word_of_nat ?n, state := SW_REQ_TYPE_LEN\<rparr>"
  define r1 where "r1 = rq_flags ?t ((rq_after SW_REQ_TYPE_LF r0)\<lparr>mtype := ?t\<rparr>)"
  have cmd: "parse_loop (rq_gstep env) buf 0 rq_fresh = parse_loop (rq_gstep env) buf (?h + length (bulk_head cmd)) r1"
    using head rnarg_nonzero [of cmd args] n(1) unfolding r1_def r0_def
    by (simp add: rq_read_cmd [OF _ here(2) _ _ known] msg_fresh_def)
  have at: "rq_at buf (?h + length (bulk_head cmd)) r1 args"
    using here(3) n by (simp add: rq_at_def r1_def r0_def msg_fresh_def)
  have r1: "rq_form (form_of ?t) r1" "state r1 = SW_REQ_TYPE_LF" "narg r1 = word_of_nat ?n" "mtype r1 = ?t" "key_texts buf r1 = []"
    using redis_command_form_ok [OF known] by (simp_all add: rq_form_def r1_def r0_def msg_fresh_def key_texts_def)
  have "rq_reads env buf (?h + length (bulk_head cmd)) r1 (args_keys (form_of ?t) args) args"
    using rq_reads_request [OF at r1(1-3) n(1) ok assms(2)] .
  moreover have "?h + length (bulk_head cmd) + length (concat (map bulk args)) = length (redis_print (cmd # args)) - 1"
    by (simp add: redis_print_parts)
  ultimately show ?thesis unfolding rq_reads_def cmd r1 by auto
qed

text \<open>
  C3: a redis request that a client writes is read back, whatever bytes follow it.  For every known
  command, in any mixture of upper and lower case, with a number of arguments that its form allows,
  and keys shorter than an mbuf, \<open>redis_parse_req\<close> accepts exactly the bytes of the request, finds
  the command and the number of arguments, and its key positions point to the keys: the first
  argument, all arguments of a command such as \<open>MGET\<close>, every other one of \<open>MSET\<close>, the third of \<open>EVAL\<close>.
\<close>

theorem redis_request_roundtrip:
  assumes "redis_request_ok env cmd args" "push_ok env"
  shows "\<exists>r'. redis_parse_req env (redis_print (cmd # args) @ rest) full rq_fresh = Some r' \<and>
    result r' = MSG_PARSE_OK \<and> pos r' = length (redis_print (cmd # args)) \<and> mtype r' = redis_command cmd \<and>
    narg r' = word_of_nat (Suc (length args)) \<and>
    key_texts (redis_print (cmd # args) @ rest) r' = args_keys (form_of (redis_command cmd)) args"
proof -
  have sane: "rq_sane 0 rq_fresh" by (simp add: rq_sane_def msg_fresh_def)
  have pos: "0 < length (redis_print (cmd # args))" by (simp add: redis_print_def)
  from rq_read_request [OF assms, of rest] obtain r' where
    "parse_loop (rq_gstep env) (redis_print (cmd # args) @ rest) 0 rq_fresh = Some (r', Done (length (redis_print (cmd # args)) - 1))"
    "mtype r' = redis_command cmd" "narg r' = word_of_nat (Suc (length args))"
    "key_texts (redis_print (cmd # args) @ rest) r' = args_keys (form_of (redis_command cmd)) args"
    by blast
  then show ?thesis
    using pos rq_loop_guard [OF sane, of env "redis_print (cmd # args) @ rest"]
    by (simp add: redis_parse_req_def rq_finish_def key_texts_def) (simp add: msg_fresh_def)
qed

theorem redis_request_roundtrip_witness:
  "\<exists>r'. redis_parse_req demo_redis_env (redis_print [bytes_of ''mSet'', bytes_of ''a'', bytes_of ''1'', bytes_of ''bc'', []] @ [65]) False rq_fresh
       = Some r' \<and>
     result r' = MSG_PARSE_OK \<and> mtype r' = Strs MSG_REQ_REDIS_MSET \<and>
     key_texts (redis_print [bytes_of ''mSet'', bytes_of ''a'', bytes_of ''1'', bytes_of ''bc'', []] @ [65]) r' = [bytes_of ''a'', bytes_of ''bc'']"
proof -
  have cmd: "redis_command (bytes_of ''mSet'') = Strs MSG_REQ_REDIS_MSET" by code_simp
  have form: "form_of (Strs MSG_REQ_REDIS_MSET) = FKV" by code_simp
  have "redis_request_ok demo_redis_env (bytes_of ''mSet'') [bytes_of ''a'', bytes_of ''1'', bytes_of ''bc'', []]"
    unfolding redis_request_ok_def cmd form by (simp add: args_ok_def args_keys_def demo_redis_env_def bytes_of_def)
  moreover have "push_ok demo_redis_env" by (simp add: demo_redis_env_def)
  ultimately show ?thesis
    using redis_request_roundtrip [of demo_redis_env "bytes_of ''mSet''" "[bytes_of ''a'', bytes_of ''1'', bytes_of ''bc'', []]" "[65]" False]
    by (auto simp: cmd form args_keys_def)
qed

end
