(* ===== verification/NC_RedisRsp.thy ===== *)
theory NC_RedisRsp
  imports NC_RedisCmd
begin

text \<open>
  The redis response parser: \<open>redis_parse_rsp\<close> of src/src/proto/nc_redis.c, one definition per state
  of its machine, with what it guarantees of a response it accepts.
\<close>

section \<open>The states\<close>

datatype rr_state =
    RS_START | RS_STATUS | RS_ERROR | RS_INTEGER | RS_INTEGER_START | RS_SIMPLE
  | RS_BULK | RS_BULK_LF | RS_BULK_ARG | RS_BULK_ARG_LF
  | RS_MULTIBULK | RS_MULTIBULK_NARG_LF | RS_MULTIBULK_ARGN_LEN | RS_MULTIBULK_ARGN_LEN_LF
  | RS_MULTIBULK_ARGN | RS_MULTIBULK_ARGN_LF | RS_RUNTO_CRLF | RS_ALMOST_DONE

type_synonym rr = "(rr_state, redis_type) parse"

text \<open>The first byte decides; the machine then looks at it again in the new state.\<close>

definition rr_start :: "u8 \<Rightarrow> nat \<Rightarrow> rr \<Rightarrow> rr \<times> ctl" where
  "rr_start ch p r =
     (let r = r\<lparr>mtype := REDIS_UNKNOWN\<rparr> in
      if ch = 43 then (r\<lparr>mtype := Rsp MSG_RSP_REDIS_STATUS, state := RS_STATUS\<rparr>, Next p)
      else if ch = 45 then (r\<lparr>mtype := Rsp MSG_RSP_REDIS_ERROR, state := RS_ERROR\<rparr>, Next p)
      else if ch = 58 then (r\<lparr>mtype := Rsp MSG_RSP_REDIS_INTEGER, state := RS_INTEGER\<rparr>, Next p)
      else if ch = 36 then (r\<lparr>mtype := Rsp MSG_RSP_REDIS_BULK, state := RS_BULK\<rparr>, Next p)
      else if ch = 42 then (r\<lparr>mtype := Rsp MSG_RSP_REDIS_MULTIBULK, state := RS_MULTIBULK\<rparr>, Next p)
      else (r, Fail))"

definition rr_status :: "nat \<Rightarrow> rr \<Rightarrow> rr \<times> ctl" where
  "rr_status p r = (r\<lparr>state := RS_RUNTO_CRLF\<rparr>, Next (p + 1))"

text \<open>The error words, by \<open>str4cmp\<close> to \<open>str11cmp\<close>; an unknown word keeps the type.\<close>

definition redis_error_words :: "(string \<times> redis_rsp) list" where
  "redis_error_words =
     [(''-ERR'', MSG_RSP_REDIS_ERROR_ERR), (''-OOM'', MSG_RSP_REDIS_ERROR_OOM), (''-BUSY'', MSG_RSP_REDIS_ERROR_BUSY),
      (''-NOAUTH'', MSG_RSP_REDIS_ERROR_NOAUTH), (''-LOADING'', MSG_RSP_REDIS_ERROR_LOADING),
      (''-BUSYKEY'', MSG_RSP_REDIS_ERROR_BUSYKEY), (''-MISCONF'', MSG_RSP_REDIS_ERROR_MISCONF),
      (''-NOSCRIPT'', MSG_RSP_REDIS_ERROR_NOSCRIPT), (''-READONLY'', MSG_RSP_REDIS_ERROR_READONLY),
      (''-WRONGTYPE'', MSG_RSP_REDIS_ERROR_WRONGTYPE), (''-EXECABORT'', MSG_RSP_REDIS_ERROR_EXECABORT),
      (''-MASTERDOWN'', MSG_RSP_REDIS_ERROR_MASTERDOWN), (''-NOREPLICAS'', MSG_RSP_REDIS_ERROR_NOREPLICAS)]"

definition redis_error_type :: "bytes \<Rightarrow> redis_type \<Rightarrow> redis_type" where
  "redis_error_type m t =
     (case find (\<lambda>(w, e). m = bytes_of w) redis_error_words of Some (w, e) \<Rightarrow> Rsp e | None \<Rightarrow> t)"

definition rr_error :: "bytes \<Rightarrow> nat \<Rightarrow> rr \<Rightarrow> rr \<times> ctl" where
  "rr_error buf p r =
     (if token r = None \<and> buf ! p \<noteq> 45 then (r, Fail)
      else
        let r = mark_token p r in
        if buf ! p = SPACE \<or> buf ! p = CR then
          (r\<lparr>mtype := redis_error_type (token_word buf p r) (mtype r), token := None, state := RS_RUNTO_CRLF\<rparr>, Next (p + 1))
        else (r, Next (p + 1)))"

definition rr_integer :: "nat \<Rightarrow> rr \<Rightarrow> rr \<times> ctl" where
  "rr_integer p r = (r\<lparr>integer := 0, state := RS_INTEGER_START\<rparr>, Next (p + 1))"

definition rr_simple :: "u8 \<Rightarrow> nat \<Rightarrow> rr \<Rightarrow> rr \<times> ctl" where
  "rr_simple ch p r =
     (if ch = CR then (r\<lparr>rnarg := rnarg r - 1, state := RS_MULTIBULK_ARGN_LF\<rparr>, Next (p + 1)) else (r, Next (p + 1)))"

definition rr_integer_start :: "u8 \<Rightarrow> nat \<Rightarrow> rr \<Rightarrow> rr \<times> ctl" where
  "rr_integer_start ch p r =
     (if ch = CR then (r\<lparr>state := RS_ALMOST_DONE\<rparr>, Next (p + 1))
      else if ch = 45 then (r, Next (p + 1))
      else if isdigit ch then (r\<lparr>integer := integer r * 10 + digit ch\<rparr>, Next (p + 1))
      else (r, Fail))"

definition rr_runto_crlf :: "u8 \<Rightarrow> nat \<Rightarrow> rr \<Rightarrow> rr \<times> ctl" where
  "rr_runto_crlf ch p r = (if ch = CR then (r\<lparr>state := RS_ALMOST_DONE\<rparr>, Next (p + 1)) else (r, Next (p + 1)))"

definition rr_almost_done :: "u8 \<Rightarrow> nat \<Rightarrow> rr \<Rightarrow> rr \<times> ctl" where
  "rr_almost_done ch p r = (if ch = LF then (r, Done p) else (r, Fail))"

text \<open>
  The length of a bulk reply.  A minus sign runs to the end of the line, with the token still set.
\<close>

definition rr_bulk :: "u8 \<Rightarrow> nat \<Rightarrow> rr \<Rightarrow> rr \<times> ctl" where
  "rr_bulk ch p r =
     (case token r of
        None \<Rightarrow> if ch \<noteq> 36 then (r, Fail) else (r\<lparr>token := Some p, rlen := 0\<rparr>, Next (p + 1))
      | Some t \<Rightarrow>
          if ch = 45 then (r\<lparr>state := RS_RUNTO_CRLF\<rparr>, Next (p + 1))
          else if isdigit ch then (r\<lparr>rlen := rlen r * 10 + digit ch\<rparr>, Next (p + 1))
          else if ch = CR then
            if p - t \<le> 1 then (r, Fail) else (r\<lparr>token := None, state := RS_BULK_LF\<rparr>, Next (p + 1))
          else (r, Fail))"

definition rr_bulk_lf :: "u8 \<Rightarrow> nat \<Rightarrow> rr \<Rightarrow> rr \<times> ctl" where
  "rr_bulk_lf ch p r = (if ch = LF then (r\<lparr>state := RS_BULK_ARG\<rparr>, Next (p + 1)) else (r, Fail))"

text \<open>The bytes of a bulk; \<open>RS_BULK_ARG\<close> and \<open>RS_MULTIBULK_ARGN\<close> differ in the state that follows.\<close>

definition rr_skip :: "rr_state \<Rightarrow> bytes \<Rightarrow> nat \<Rightarrow> rr \<Rightarrow> rr \<times> ctl" where
  "rr_skip next_state buf p r =
     (let m = p + unat (rlen r) in
      if length buf \<le> m then (r\<lparr>rlen := rlen r - word_of_nat (length buf - p)\<rparr>, Next (length buf))
      else if buf ! m \<noteq> CR then (r, Fail)
      else (r\<lparr>rlen := 0, state := next_state\<rparr>, Next (m + 1)))"

definition rr_bulk_arg :: "bytes \<Rightarrow> nat \<Rightarrow> rr \<Rightarrow> rr \<times> ctl" where
  "rr_bulk_arg = rr_skip RS_BULK_ARG_LF"

definition rr_bulk_arg_lf :: "u8 \<Rightarrow> nat \<Rightarrow> rr \<Rightarrow> rr \<times> ctl" where
  "rr_bulk_arg_lf ch p r = (if ch = LF then (r, Done p) else (r, Fail))"

definition rr_multibulk :: "u8 \<Rightarrow> nat \<Rightarrow> rr \<Rightarrow> rr \<times> ctl" where
  "rr_multibulk ch p r =
     (case token r of
        None \<Rightarrow> if ch \<noteq> 42 then (r, Fail)
          else (r\<lparr>token := Some p, narg_start := Some p, rnarg := 0\<rparr>, Next (p + 1))
      | Some t \<Rightarrow>
          if ch = 45 then (r\<lparr>state := RS_RUNTO_CRLF\<rparr>, Next (p + 1))
          else if isdigit ch then (r\<lparr>rnarg := rnarg r * 10 + digit ch\<rparr>, Next (p + 1))
          else if ch = CR then
            if p - t \<le> 1 then (r, Fail)
            else (r\<lparr>narg := rnarg r, narg_end := Some p, token := None, state := RS_MULTIBULK_NARG_LF\<rparr>, Next (p + 1))
          else (r, Fail))"

text \<open>The line feed behind a count or an element: the reply ends when nothing is left.\<close>

definition rr_elem_lf :: "u8 \<Rightarrow> nat \<Rightarrow> rr \<Rightarrow> rr \<times> ctl" where
  "rr_elem_lf ch p r =
     (if ch \<noteq> LF then (r, Fail) else if rnarg r = 0 then (r, Done p)
      else (r\<lparr>state := RS_MULTIBULK_ARGN_LEN\<rparr>, Next (p + 1)))"

definition rr_multibulk_narg_lf :: "u8 \<Rightarrow> nat \<Rightarrow> rr \<Rightarrow> rr \<times> ctl" where
  "rr_multibulk_narg_lf = rr_elem_lf"

text \<open>
  The length of an element.  An asterisk starts an inner array in the place of the outer one, which
  is right when it is the last element.
\<close>

definition rr_multibulk_argn_len :: "u8 \<Rightarrow> nat \<Rightarrow> rr \<Rightarrow> rr \<times> ctl" where
  "rr_multibulk_argn_len ch p r =
     (case token r of
        None \<Rightarrow>
          if ch = 42 then (r\<lparr>state := RS_MULTIBULK\<rparr>, Next p)
          else if ch = 58 \<or> ch = 43 \<or> ch = 45 then (r\<lparr>state := RS_SIMPLE\<rparr>, Next (p + 1))
          else if ch \<noteq> 36 then (r, Fail)
          else (r\<lparr>token := Some p, rlen := 0\<rparr>, Next (p + 1))
      | Some t \<Rightarrow>
          if isdigit ch then (r\<lparr>rlen := rlen r * 10 + digit ch\<rparr>, Next (p + 1))
          else if ch = 45 then (r, Next (p + 1))
          else if ch = CR then
            if p - t \<le> 1 \<or> rnarg r = 0 then (r, Fail)
            else
              let r = (if rlen r = 1 \<and> p - t = 3 then r\<lparr>rlen := 0, state := RS_MULTIBULK_ARGN_LF\<rparr>
                       else r\<lparr>state := RS_MULTIBULK_ARGN_LEN_LF\<rparr>)
              in (r\<lparr>rnarg := rnarg r - 1, token := None\<rparr>, Next (p + 1))
          else (r, Fail))"

definition rr_multibulk_argn_len_lf :: "u8 \<Rightarrow> nat \<Rightarrow> rr \<Rightarrow> rr \<times> ctl" where
  "rr_multibulk_argn_len_lf ch p r = (if ch = LF then (r\<lparr>state := RS_MULTIBULK_ARGN\<rparr>, Next (p + 1)) else (r, Fail))"

definition rr_multibulk_argn :: "bytes \<Rightarrow> nat \<Rightarrow> rr \<Rightarrow> rr \<times> ctl" where
  "rr_multibulk_argn = rr_skip RS_MULTIBULK_ARGN_LF"

definition rr_multibulk_argn_lf :: "u8 \<Rightarrow> nat \<Rightarrow> rr \<Rightarrow> rr \<times> ctl" where
  "rr_multibulk_argn_lf = rr_elem_lf"

definition rr_step :: "bytes \<Rightarrow> nat \<Rightarrow> rr \<Rightarrow> rr \<times> ctl" where
  "rr_step buf p r =
     (let ch = buf ! p in
      case state r of
        RS_START \<Rightarrow> rr_start ch p r
      | RS_STATUS \<Rightarrow> rr_status p r
      | RS_ERROR \<Rightarrow> rr_error buf p r
      | RS_INTEGER \<Rightarrow> rr_integer p r
      | RS_SIMPLE \<Rightarrow> rr_simple ch p r
      | RS_INTEGER_START \<Rightarrow> rr_integer_start ch p r
      | RS_RUNTO_CRLF \<Rightarrow> rr_runto_crlf ch p r
      | RS_ALMOST_DONE \<Rightarrow> rr_almost_done ch p r
      | RS_BULK \<Rightarrow> rr_bulk ch p r
      | RS_BULK_LF \<Rightarrow> rr_bulk_lf ch p r
      | RS_BULK_ARG \<Rightarrow> rr_bulk_arg buf p r
      | RS_BULK_ARG_LF \<Rightarrow> rr_bulk_arg_lf ch p r
      | RS_MULTIBULK \<Rightarrow> rr_multibulk ch p r
      | RS_MULTIBULK_NARG_LF \<Rightarrow> rr_multibulk_narg_lf ch p r
      | RS_MULTIBULK_ARGN_LEN \<Rightarrow> rr_multibulk_argn_len ch p r
      | RS_MULTIBULK_ARGN_LEN_LF \<Rightarrow> rr_multibulk_argn_len_lf ch p r
      | RS_MULTIBULK_ARGN \<Rightarrow> rr_multibulk_argn buf p r
      | RS_MULTIBULK_ARGN_LF \<Rightarrow> rr_multibulk_argn_lf ch p r)"

section \<open>The parser\<close>

definition rr_finish :: "bool \<Rightarrow> rr \<Rightarrow> ctl \<Rightarrow> rr" where
  "rr_finish full r c =
     (case c of
        Next p \<Rightarrow>
          (case token r of
             Some t \<Rightarrow>
               if full then r\<lparr>pos := t, token := None, result := MSG_PARSE_REPAIR\<rparr>
               else r\<lparr>pos := p, result := MSG_PARSE_AGAIN\<rparr>
           | None \<Rightarrow> r\<lparr>pos := p, result := MSG_PARSE_AGAIN\<rparr>)
      | Done p \<Rightarrow> r\<lparr>pos := p + 1, state := RS_START, token := None, result := MSG_PARSE_OK\<rparr>
      | _ \<Rightarrow> r\<lparr>result := MSG_PARSE_ERROR\<rparr>)"

definition redis_parse_rsp :: "bytes \<Rightarrow> bool \<Rightarrow> rr \<Rightarrow> rr option" where
  "redis_parse_rsp buf full r =
     map_option (\<lambda>(r, c). rr_finish full r c) (parse_loop rr_step buf (pos r) r)"

lemmas rr_state_defs =
  rr_start_def rr_status_def rr_error_def rr_integer_def rr_simple_def rr_integer_start_def rr_runto_crlf_def
  rr_almost_done_def rr_bulk_def rr_bulk_lf_def rr_skip_def rr_bulk_arg_def rr_bulk_arg_lf_def rr_multibulk_def
  rr_elem_lf_def rr_multibulk_narg_lf_def rr_multibulk_argn_len_def rr_multibulk_argn_len_lf_def
  rr_multibulk_argn_def rr_multibulk_argn_lf_def

section \<open>Termination\<close>

text \<open>The turns that look at a byte again: from the start, and from an element to an inner array.\<close>

definition rr_rank :: "u8 \<Rightarrow> rr \<Rightarrow> nat" where
  "rr_rank ch r = (if state r = RS_START then 2 else if state r = RS_MULTIBULK_ARGN_LEN then 1 else 0)"

interpretation rr: parser_step rr_step rr_rank
proof unfold_locales
  fix p buf r r' q
  assume "p < length buf" "rr_step buf p r = (r', Next q)"
  then show "p < q \<and> q \<le> length buf \<or> q = p \<and> rr_rank (buf ! p) r' < rr_rank (buf ! p) r"
    by (cases "state r"; auto simp: rr_step_def rr_state_defs rr_rank_def Let_def split: if_splits option.splits)
next
  fix p buf r r' q
  assume "p < length buf" "rr_step buf p r = (r', Done q)"
  then show "q = p"
    by (cases "state r"; auto simp: rr_step_def rr_state_defs Let_def split: if_splits option.splits)
qed


section \<open>What a response is\<close>

text \<open>
  The type that belongs to a state.  Inside an array something is left to be read, and only states in
  the middle of a token remember where it starts.
\<close>

definition rr_state_ok :: "rr \<Rightarrow> bool" where
  "rr_state_ok r \<longleftrightarrow>
     (case state r of
        RS_START \<Rightarrow> True
      | RS_STATUS \<Rightarrow> mtype r = Rsp MSG_RSP_REDIS_STATUS
      | RS_ERROR \<Rightarrow> mtype r = Rsp MSG_RSP_REDIS_ERROR
      | RS_INTEGER \<Rightarrow> mtype r = Rsp MSG_RSP_REDIS_INTEGER
      | RS_INTEGER_START \<Rightarrow> mtype r = Rsp MSG_RSP_REDIS_INTEGER
      | RS_RUNTO_CRLF \<Rightarrow> (\<exists>e. mtype r = Rsp e)
      | RS_ALMOST_DONE \<Rightarrow> (\<exists>e. mtype r = Rsp e)
      | RS_BULK \<Rightarrow> mtype r = Rsp MSG_RSP_REDIS_BULK
      | RS_BULK_LF \<Rightarrow> mtype r = Rsp MSG_RSP_REDIS_BULK
      | RS_BULK_ARG \<Rightarrow> mtype r = Rsp MSG_RSP_REDIS_BULK
      | RS_BULK_ARG_LF \<Rightarrow> mtype r = Rsp MSG_RSP_REDIS_BULK
      | RS_SIMPLE \<Rightarrow> mtype r = Rsp MSG_RSP_REDIS_MULTIBULK \<and> rnarg r \<noteq> 0
      | RS_MULTIBULK_ARGN_LEN \<Rightarrow> mtype r = Rsp MSG_RSP_REDIS_MULTIBULK \<and> rnarg r \<noteq> 0
      | _ \<Rightarrow> mtype r = Rsp MSG_RSP_REDIS_MULTIBULK)"

definition rr_inv :: "nat \<Rightarrow> rr \<Rightarrow> bool" where
  "rr_inv p r \<longleftrightarrow>
     rr_state_ok r \<and>
     (\<forall>t. token r = Some t \<longrightarrow>
        t < p \<and> state r \<in> {RS_ERROR, RS_BULK, RS_MULTIBULK, RS_MULTIBULK_ARGN_LEN, RS_RUNTO_CRLF, RS_ALMOST_DONE})"

lemma redis_error_type_Rsp: "\<exists>e. redis_error_type m (Rsp t) = Rsp e"
  by (auto simp: redis_error_type_def split: option.split)

lemma rr_inv_step:
  assumes "p < length buf" "rr_inv p r" "rr_step buf p r = (r', Next q)"
  shows "rr_inv q r'"
proof (cases "state r = RS_ERROR")
  case True
  with assms redis_error_type_Rsp show ?thesis
    by (cases "token r") (auto simp: rr_step_def rr_error_def rr_inv_def rr_state_ok_def Let_def split: if_splits)
next
  case False
  with assms show ?thesis
    by (cases "state r"; cases "token r";
        auto simp: rr_step_def rr_state_defs rr_inv_def rr_state_ok_def Let_def split: if_splits)
qed

lemma rr_inv_Done:
  assumes "rr_inv p r" "rr_step buf p r = (r', Done q)"
  shows "buf ! p = LF \<and> r' = r \<and> (\<exists>e. mtype r = Rsp e)"
  using assms
  by (cases "state r"; cases "token r";
      auto simp: rr_step_def rr_state_defs rr_inv_def rr_state_ok_def Let_def split: if_splits)

lemma rr_inv_cong [simp]:
  "rr_inv p (pos_update f r) = rr_inv p r"
  "rr_inv p (result_update g r) = rr_inv p r"
  by (simp_all add: rr_inv_def rr_state_ok_def cong: rr_state.case_cong)

lemma rr_inv_restart: "rr_inv p r \<Longrightarrow> rr_inv q (r\<lparr>token := None\<rparr>)"
  by (simp add: rr_inv_def rr_state_ok_def cong: rr_state.case_cong)

text \<open>
  C20: \<open>redis_parse_rsp\<close> returns for every sequence of bytes, also where it looks at a byte again.
  It answers with an error; or it has consumed a response that ends in a line feed, of one of the
  response types; or it has consumed everything and asks for more; or it asks to move the token
  cut by the end of a full mbuf.  In the last two cases the message is well formed again, so parsing
  can go on.
\<close>

theorem redis_parse_rsp_correct:
  assumes "rr_inv (pos r) r" "pos r \<le> length buf"
  shows "\<exists>r'. redis_parse_rsp buf full r = Some r' \<and>
    (case result r' of
       MSG_PARSE_OK \<Rightarrow> pos r < pos r' \<and> pos r' \<le> length buf \<and> buf ! (pos r' - 1) = LF \<and> (\<exists>e. mtype r' = Rsp e) \<and>
         state r' = RS_START \<and> token r' = None
     | MSG_PARSE_AGAIN \<Rightarrow> pos r' = length buf \<and> rr_inv (pos r') r' \<and> (full \<longrightarrow> token r' = None)
     | MSG_PARSE_REPAIR \<Rightarrow> full \<and> token r' = None \<and> pos r' < length buf \<and> (\<forall>q. rr_inv q r')
     | MSG_PARSE_ERROR \<Rightarrow> True)"
proof -
  obtain r1 c where loop: "parse_loop rr_step buf (pos r) r = Some (r1, c)"
    using rr.loop_terminates by blast
  have post: "ends_with rr_step buf rr_inv (pos r) r1 c"
    using loop assms by (rule rr.loop_post) (rule rr_inv_step)
  show ?thesis
  proof (cases c)
    case (Next q)
    with loop post show ?thesis
      by (auto simp: redis_parse_rsp_def rr_finish_def ends_with_def intro: rr_inv_restart split: option.split)
        (simp add: rr_inv_def)
  next
    case (Done q)
    with post obtain r0 where r0: "rr_inv q r0" "rr_step buf q r0 = (r1, Done q)" and q: "pos r \<le> q" "q < length buf"
      by (auto simp: ends_with_def)
    from rr_inv_Done [OF r0] q Done loop show ?thesis
      by (auto simp: redis_parse_rsp_def rr_finish_def)
  qed (use loop in \<open>simp_all add: redis_parse_rsp_def rr_finish_def\<close>)
qed

abbreviation rr_fresh :: rr where
  "rr_fresh \<equiv> msg_fresh RS_START REDIS_UNKNOWN"

definition demo_scan :: bytes where
  "demo_scan = bytes_of ''*2'' @ [CR, LF] @ bytes_of ''$1'' @ [CR, LF] @ bytes_of ''0'' @ [CR, LF] @ bytes_of ''*1'' @ [CR, LF]
     @ bytes_of ''$-1'' @ [CR, LF]"

theorem redis_parse_rsp_correct_witness:
  "\<exists>r'. redis_parse_rsp demo_scan False rr_fresh = Some r' \<and> result r' = MSG_PARSE_OK \<and> 0 < pos r' \<and> (\<exists>e. mtype r' = Rsp e)"
proof -
  have inv: "rr_inv (pos rr_fresh) rr_fresh" "pos rr_fresh \<le> length demo_scan"
    by (simp_all add: rr_inv_def rr_state_ok_def msg_fresh_def)
  have ok: "map_option result (redis_parse_rsp demo_scan False rr_fresh) = Some MSG_PARSE_OK"
    by code_simp
  show ?thesis
    using redis_parse_rsp_correct [OF inv, of False] ok by (auto simp: msg_fresh_def)
qed

end
