(* ===== verification/NC_RedisRspPrint.thy ===== *)
theory NC_RedisRspPrint
  imports NC_RedisRsp
begin

text \<open>
  Redis responses as a server writes them, and that \<open>redis_parse_rsp\<close> finds their end.
\<close>

section \<open>Writing a response\<close>

text \<open>The elements of an array: a bulk, the null bulk, or a line behind a colon, a plus or a minus.\<close>

datatype elem = Bulk bytes | NullBulk | Line u8 bytes

text \<open>An array may end in another one, as the replies to \<open>SSCAN\<close>, \<open>HSCAN\<close> and \<open>ZSCAN\<close> do.\<close>

datatype array = NullArray | Array "elem list" | ArrayIn "elem list" array

datatype reply = Status bytes | Error bytes | Integer bytes | BulkReply bytes | NullReply | ArrayReply array

definition print_bulk :: "bytes \<Rightarrow> bytes" where
  "print_bulk b = 36 # decimal (length b) @ [CR, LF] @ b @ [CR, LF]"

fun print_elem :: "elem \<Rightarrow> bytes" where
  "print_elem (Bulk b) = print_bulk b"
| "print_elem NullBulk = [36, 45, 49, CR, LF]"
| "print_elem (Line c w) = c # w @ [CR, LF]"

fun print_array :: "array \<Rightarrow> bytes" where
  "print_array NullArray = [42, 45, 49, CR, LF]"
| "print_array (Array es) = 42 # decimal (length es) @ [CR, LF] @ concat (map print_elem es)"
| "print_array (ArrayIn es a) = 42 # decimal (Suc (length es)) @ [CR, LF] @ concat (map print_elem es) @ print_array a"

fun print_reply :: "reply \<Rightarrow> bytes" where
  "print_reply (Status w) = 43 # w @ [CR, LF]"
| "print_reply (Error w) = 45 # w @ [CR, LF]"
| "print_reply (Integer w) = 58 # w @ [CR, LF]"
| "print_reply (BulkReply b) = print_bulk b"
| "print_reply NullReply = [36, 45, 49, CR, LF]"
| "print_reply (ArrayReply a) = print_array a"

fun elem_ok :: "elem \<Rightarrow> bool" where
  "elem_ok (Bulk b) \<longleftrightarrow> length b < 2 ^ 32"
| "elem_ok NullBulk \<longleftrightarrow> True"
| "elem_ok (Line c w) \<longleftrightarrow> (c = 58 \<or> c = 43 \<or> c = 45) \<and> CR \<notin> set w"

fun array_ok :: "array \<Rightarrow> bool" where
  "array_ok NullArray \<longleftrightarrow> True"
| "array_ok (Array es) \<longleftrightarrow> list_all elem_ok es \<and> length es < 2 ^ 32"
| "array_ok (ArrayIn es a) \<longleftrightarrow> list_all elem_ok es \<and> Suc (length es) < 2 ^ 32 \<and> array_ok a"

text \<open>An error reply has a text behind its first word; what happens without one is shown below.\<close>

fun reply_ok :: "reply \<Rightarrow> bool" where
  "reply_ok (Status w) \<longleftrightarrow> CR \<notin> set w"
| "reply_ok (Error w) \<longleftrightarrow> CR \<notin> set w \<and> SPACE \<in> set w"
| "reply_ok (Integer w) \<longleftrightarrow> list_all (\<lambda>c. isdigit c \<or> c = 45) w"
| "reply_ok (BulkReply b) \<longleftrightarrow> length b < 2 ^ 32"
| "reply_ok NullReply \<longleftrightarrow> True"
| "reply_ok (ArrayReply a) \<longleftrightarrow> array_ok a"

text \<open>The type of a reply; the word in front of the first space tells the errors apart.\<close>

fun reply_type :: "reply \<Rightarrow> redis_type" where
  "reply_type (Status w) = Rsp MSG_RSP_REDIS_STATUS"
| "reply_type (Error w) = redis_error_type (takeWhile (\<lambda>c. c \<noteq> SPACE) (45 # w)) (Rsp MSG_RSP_REDIS_ERROR)"
| "reply_type (Integer w) = Rsp MSG_RSP_REDIS_INTEGER"
| "reply_type (BulkReply b) = Rsp MSG_RSP_REDIS_BULK"
| "reply_type NullReply = Rsp MSG_RSP_REDIS_BULK"
| "reply_type (ArrayReply a) = Rsp MSG_RSP_REDIS_MULTIBULK"

section \<open>Reading the parts\<close>

text \<open>The run from \<open>p\<close> accepts a response whose last byte is at \<open>e\<close>.\<close>

definition rr_accepts :: "bytes \<Rightarrow> nat \<Rightarrow> rr \<Rightarrow> nat \<Rightarrow> redis_type \<Rightarrow> bool" where
  "rr_accepts buf p r e t \<longleftrightarrow> (\<exists>r'. parse_loop rr_step buf p r = Some (r', Done e) \<and> mtype r' = t)"

lemma rr_accepts_Next:
  "p < length buf \<Longrightarrow> rr_step buf p r = (r', Next q) \<Longrightarrow> rr_accepts buf q r' e t \<Longrightarrow> rr_accepts buf p r e t"
  by (simp add: rr_accepts_def rr.loop_Next)

lemma rr_accepts_Done: "e < length buf \<Longrightarrow> rr_step buf e r = (r', Done e) \<Longrightarrow> rr_accepts buf e r e (mtype r')"
  unfolding rr_accepts_def by (intro exI [of _ r']) (simp add: rr.loop_stop)

lemma CR_not_minus [simp]: "CR \<noteq> 45"
  by (simp add: CR_def)

lemma rr_crlf_accepts:
  assumes "state r = RS_RUNTO_CRLF" "CR \<notin> set w" "text_at buf p (w @ [CR, LF])"
  shows "rr_accepts buf p r (p + length w + 1) (mtype r)"
proof -
  have at: "text_at buf p w" "p + length w < length buf" "buf ! (p + length w) = CR" "p + length w + 1 < length buf"
    "buf ! (p + length w + 1) = LF"
    using assms(3) by simp_all
  have skip: "parse_loop rr_step buf p r = parse_loop rr_step buf (p + length w) r"
    using at(1) by (rule rr.loop_skip) (use assms in \<open>auto simp: rr_step_def rr_runto_crlf_def\<close>)
  have "rr_accepts buf (p + length w + 1) (r\<lparr>state := RS_ALMOST_DONE\<rparr>) (p + length w + 1) (mtype (r\<lparr>state := RS_ALMOST_DONE\<rparr>))"
    using at by (intro rr_accepts_Done) (simp_all add: rr_step_def rr_almost_done_def)
  then have "rr_accepts buf (p + length w) r (p + length w + 1) (mtype r)"
    using at assms(1) by (simp add: rr_accepts_Next rr_step_def rr_runto_crlf_def)
  then show ?thesis by (simp add: rr_accepts_def skip)
qed

lemma rr_skip_turn:
  assumes "rlen r = word_of_nat (length b)" "length b < 2 ^ 32" "text_at buf p (b @ [CR])"
  shows "rr_skip st buf p r = (r\<lparr>rlen := 0, state := st\<rparr>, Next (p + length b + 1))"
  using assms by (simp add: rr_skip_def Let_def unat_of_nat_u32)

text \<open>The digits of a length or a count.\<close>

lemma rr_digits_rlen:
  assumes "state r \<in> {RS_BULK, RS_MULTIBULK_ARGN_LEN}" "token r = Some t" "text_at buf p (decimal n)" "rlen r = 0"
  shows "parse_loop rr_step buf p r = parse_loop rr_step buf (p + length (decimal n)) (r\<lparr>rlen := word_of_nat n\<rparr>)"
proof -
  let ?f = "\<lambda>r c. r\<lparr>rlen := rlen r * 10 + digit c\<rparr>"
  have not45: "c \<noteq> 45" if "c \<in> set (decimal n)" for c using decimal_digits [OF that] by (auto simp: isdigit_def)
  have "parse_loop rr_step buf p r = parse_loop rr_step buf (p + length (decimal n)) (foldl ?f r (decimal n))"
    using assms(3)
    by (rule rr.loop_fold [where P = "\<lambda>r'. state r' = state r \<and> token r' = Some t"])
      (use assms(1,2) not45 in \<open>auto simp: rr_step_def rr_bulk_def rr_multibulk_argn_len_def decimal_digits\<close>)
  then show ?thesis
    unfolding foldl_rlen using assms(4) number_decimal [of n] by (simp add: number_def)
qed

lemma rr_digits_rnarg:
  assumes "state r = RS_MULTIBULK" "token r = Some t" "text_at buf p (decimal n)" "rnarg r = 0"
  shows "parse_loop rr_step buf p r = parse_loop rr_step buf (p + length (decimal n)) (r\<lparr>rnarg := word_of_nat n\<rparr>)"
proof -
  let ?f = "\<lambda>r c. r\<lparr>rnarg := rnarg r * 10 + digit c\<rparr>"
  have not45: "c \<noteq> 45" if "c \<in> set (decimal n)" for c using decimal_digits [OF that] by (auto simp: isdigit_def)
  have "parse_loop rr_step buf p r = parse_loop rr_step buf (p + length (decimal n)) (foldl ?f r (decimal n))"
    using assms(3)
    by (rule rr.loop_fold [where P = "\<lambda>r'. state r' = RS_MULTIBULK \<and> token r' = Some t"])
      (use assms(1,2) not45 in \<open>auto simp: rr_step_def rr_multibulk_def decimal_digits\<close>)
  then show ?thesis
    unfolding foldl_rnarg using assms(4) number_decimal [of n] by (simp add: number_def)
qed


section \<open>Arrays\<close>

text \<open>
  Between two elements the machine stands on a line feed, with \<open>k\<close> elements to come.
\<close>

definition rr_between :: "nat \<Rightarrow> rr \<Rightarrow> bool" where
  "rr_between k r \<longleftrightarrow>
     state r \<in> {RS_MULTIBULK_NARG_LF, RS_MULTIBULK_ARGN_LF} \<and> token r = None \<and> rnarg r = word_of_nat k"

lemma word_Suc_nonzero: "Suc k < 2 ^ 32 \<Longrightarrow> (1 + word_of_nat k :: u32) \<noteq> 0"
  using unat_of_nat_u32 [of "Suc k"] by (metis nat.simps(3) of_nat_Suc unat_0)

lemma rr_next_elem:
  assumes "rr_between (Suc k) r" "Suc k < 2 ^ 32" "p < length buf" "buf ! p = LF"
  shows "parse_loop rr_step buf p r = parse_loop rr_step buf (Suc p) (r\<lparr>state := RS_MULTIBULK_ARGN_LEN\<rparr>)"
  using assms word_Suc_nonzero [OF assms(2)]
  by (intro rr.loop_Next)
    (auto simp: rr_between_def rr_step_def rr_elem_lf_def rr_multibulk_narg_lf_def rr_multibulk_argn_lf_def)

lemma rr_read_line:
  assumes "state r = RS_MULTIBULK_ARGN_LEN" "token r = None" "rnarg r = word_of_nat (Suc k)"
    and "c = 58 \<or> c = 43 \<or> c = 45" "CR \<notin> set w" "text_at buf p (c # w @ [CR])"
  shows "\<exists>r'. parse_loop rr_step buf p r = parse_loop rr_step buf (p + length w + 2) r' \<and> rr_between k r' \<and> mtype r' = mtype r"
proof -
  have at: "p < length buf" "buf ! p = c" "text_at buf (Suc p) w" "Suc p + length w < length buf" "buf ! (Suc p + length w) = CR"
    using assms(6) by simp_all
  let ?r = "r\<lparr>state := RS_SIMPLE\<rparr>" and ?s = "r\<lparr>state := RS_MULTIBULK_ARGN_LF, rnarg := rnarg r - 1\<rparr>"
  have "parse_loop rr_step buf p r = parse_loop rr_step buf (Suc p) ?r"
    using at assms(1,2,4) by (intro rr.loop_Next) (auto simp: rr_step_def rr_multibulk_argn_len_def)
  also have "\<dots> = parse_loop rr_step buf (Suc p + length w) ?r"
    using at(3) by (rule rr.loop_skip) (use assms(5) in \<open>auto simp: rr_step_def rr_simple_def\<close>)
  also have "\<dots> = parse_loop rr_step buf (p + length w + 2) ?s"
    using at by (intro rr.loop_Next) (simp_all add: rr_step_def rr_simple_def)
  finally show ?thesis using assms(2,3) by (intro exI [of _ ?s]) (simp add: rr_between_def)
qed

lemma rr_read_null:
  assumes "state r = RS_MULTIBULK_ARGN_LEN" "token r = None" "rnarg r = word_of_nat (Suc k)" "Suc k < 2 ^ 32"
    and "text_at buf p [36, 45, 49, CR]"
  shows "\<exists>r'. parse_loop rr_step buf p r = parse_loop rr_step buf (p + 4) r' \<and> rr_between k r' \<and> mtype r' = mtype r"
proof -
  have at: "p < length buf" "buf ! p = 36" "Suc p < length buf" "buf ! Suc p = 45" "Suc (Suc p) < length buf" "buf ! Suc (Suc p) = 49"
    "Suc (Suc (Suc p)) < length buf" "buf ! Suc (Suc (Suc p)) = CR"
    using assms(5) by simp_all
  let ?r = "r\<lparr>token := Some p, rlen := 0\<rparr>" and ?t = "r\<lparr>token := Some p, rlen := 1\<rparr>"
  let ?s = "r\<lparr>token := None, rlen := 0, state := RS_MULTIBULK_ARGN_LF, rnarg := rnarg r - 1\<rparr>"
  have "parse_loop rr_step buf p r = parse_loop rr_step buf (Suc p) ?r"
    using at assms(1,2) by (intro rr.loop_Next) (auto simp: rr_step_def rr_multibulk_argn_len_def)
  also have "\<dots> = parse_loop rr_step buf (Suc (Suc p)) ?r"
    using at assms(1) by (intro rr.loop_Next) (simp_all add: rr_step_def rr_multibulk_argn_len_def isdigit_def)
  also have "\<dots> = parse_loop rr_step buf (Suc (Suc (Suc p))) ?t"
    using at assms(1) by (intro rr.loop_Next) (simp_all add: rr_step_def rr_multibulk_argn_len_def isdigit_def digit_def)
  also have "\<dots> = parse_loop rr_step buf (p + 4) ?s"
    using at assms(1,3) word_Suc_nonzero [OF assms(4)]
    by (intro rr.loop_Next) (simp_all add: rr_step_def rr_multibulk_argn_len_def Let_def)
  finally show ?thesis using assms(3) by (intro exI [of _ ?s]) (simp add: rr_between_def)
qed

text \<open>A length of one digit is never taken for the null bulk.\<close>

lemma not_null_length: "n < 2 ^ 32 \<Longrightarrow> \<not> ((word_of_nat n :: u32) = 1 \<and> Suc (length (decimal n)) = 3)"
  using unat_of_nat_u32 [of n] by (auto simp: decimal.simps [of "Suc 0"] dest!: arg_cong [where f = unat])

lemma rr_read_bulk:
  assumes "state r = RS_MULTIBULK_ARGN_LEN" "token r = None" "rnarg r = word_of_nat (Suc k)" "Suc k < 2 ^ 32"
    and "length b < 2 ^ 32" "text_at buf p (36 # decimal (length b) @ [CR, LF] @ b @ [CR])"
  shows "\<exists>r'. parse_loop rr_step buf p r = parse_loop rr_step buf (p + length (decimal (length b)) + length b + 4) r' \<and>
    rr_between k r' \<and> mtype r' = mtype r"
proof -
  let ?d = "decimal (length b)" and ?L = "parse_loop rr_step buf"
  define m where "m = Suc p + length ?d"
  have at: "p < length buf" "buf ! p = 36" "text_at buf (Suc p) ?d" "m < length buf" "buf ! m = CR"
    "Suc m < length buf" "buf ! Suc m = LF" "text_at buf (Suc (Suc m)) (b @ [CR])"
    using assms(6) by (simp_all add: m_def)
  let ?r = "r\<lparr>token := Some p, rlen := 0\<rparr>" and ?w = "word_of_nat (length b) :: u32"
  let ?s = "r\<lparr>token := None, rlen := ?w, state := RS_MULTIBULK_ARGN_LEN_LF, rnarg := rnarg r - 1\<rparr>"
  let ?e = "r\<lparr>token := None, rlen := 0, state := RS_MULTIBULK_ARGN_LF, rnarg := rnarg r - 1\<rparr>"
  have "?L p r = ?L (Suc p) ?r"
    using at assms(1,2) by (intro rr.loop_Next) (auto simp: rr_step_def rr_multibulk_argn_len_def)
  also have "\<dots> = ?L m (r\<lparr>token := Some p, rlen := ?w\<rparr>)"
    using rr_digits_rlen [of ?r p buf "Suc p" "length b"] at(3) assms(1) by (simp add: m_def)
  also have "\<dots> = ?L (Suc m) ?s"
    using at assms(1,3) word_Suc_nonzero [OF assms(4)] not_null_length [OF assms(5)]
    by (intro rr.loop_Next) (auto simp: rr_step_def rr_multibulk_argn_len_def Let_def m_def)
  also have "\<dots> = ?L (Suc (Suc m)) (?s\<lparr>state := RS_MULTIBULK_ARGN\<rparr>)"
    using at by (intro rr.loop_Next) (simp_all add: rr_step_def rr_multibulk_argn_len_lf_def)
  also have "\<dots> = ?L (Suc (Suc m) + length b + 1) ?e"
    using at(8) rr_skip_turn [OF _ assms(5) at(8), of "?s\<lparr>state := RS_MULTIBULK_ARGN\<rparr>"]
    by (intro rr.loop_Next) (simp_all add: rr_step_def rr_multibulk_argn_def)
  also have "Suc (Suc m) + length b + 1 = p + length ?d + length b + 4" by (simp add: m_def)
  finally show ?thesis using assms(3) by (intro exI [of _ ?e]) (simp add: rr_between_def)
qed

lemma rr_read_elem:
  assumes "rr_between (Suc k) r" "Suc k < 2 ^ 32" "elem_ok e" "text_at buf p (LF # print_elem e)"
  shows "\<exists>r'. parse_loop rr_step buf p r = parse_loop rr_step buf (p + length (print_elem e)) r' \<and> rr_between k r' \<and> mtype r' = mtype r"
proof -
  let ?r = "r\<lparr>state := RS_MULTIBULK_ARGN_LEN\<rparr>"
  have r: "state ?r = RS_MULTIBULK_ARGN_LEN" "token ?r = None" "rnarg ?r = word_of_nat (Suc k)"
    using assms(1) by (simp_all add: rr_between_def)
  have "\<exists>r'. parse_loop rr_step buf (Suc p) ?r = parse_loop rr_step buf (p + length (print_elem e)) r' \<and> rr_between k r' \<and> mtype r' = mtype ?r"
  proof (cases e)
    case (Bulk b)
    have len: "p + length (print_elem e) = Suc p + length (decimal (length b)) + length b + 4" by (simp add: Bulk print_bulk_def)
    show ?thesis
      unfolding len by (rule rr_read_bulk [OF r assms(2)]) (use Bulk assms(3,4) in \<open>simp_all add: print_bulk_def\<close>)
  next
    case NullBulk
    have len: "p + length (print_elem e) = Suc p + 4" by (simp add: NullBulk)
    show ?thesis unfolding len by (rule rr_read_null [OF r assms(2)]) (use NullBulk assms(4) in simp)
  next
    case (Line c w)
    with assms(3,4) show ?thesis using rr_read_line [OF r, of c w buf "Suc p"] by simp
  qed
  moreover have "parse_loop rr_step buf p r = parse_loop rr_step buf (Suc p) ?r"
    using assms by (intro rr_next_elem) simp_all
  ultimately show ?thesis by simp
qed

lemma print_elem_LF: "\<exists>h. print_elem e = h @ [LF]"
  by (cases e) (auto simp: print_bulk_def)

lemma elems_end:
  "text_at buf q (LF # concat (map print_elem es) @ w) \<Longrightarrow> text_at buf (q + length (concat (map print_elem es))) (LF # w)"
proof (induction es arbitrary: q)
  case (Cons e es)
  then show ?case using print_elem_LF [of e] Cons.IH [of "q + length (print_elem e)"] by (auto simp: add.assoc)
qed simp

lemma rr_read_elems:
  "rr_between (length es + k) r \<Longrightarrow> length es + k < 2 ^ 32 \<Longrightarrow> list_all elem_ok es \<Longrightarrow>
   text_at buf p (LF # concat (map print_elem es)) \<Longrightarrow>
   \<exists>r'. parse_loop rr_step buf p r = parse_loop rr_step buf (p + length (concat (map print_elem es))) r' \<and> rr_between k r' \<and> mtype r' = mtype r"
proof (induction es arbitrary: p r)
  case (Cons e es)
  have here: "text_at buf p (LF # print_elem e)" "text_at buf (p + length (print_elem e)) (LF # concat (map print_elem es))"
    using Cons.prems(4) print_elem_LF [of e] by auto
  obtain r1 where r1: "parse_loop rr_step buf p r = parse_loop rr_step buf (p + length (print_elem e)) r1"
    "rr_between (length es + k) r1" "mtype r1 = mtype r"
    using rr_read_elem [of "length es + k" r e buf p] Cons.prems here(1) by auto
  with Cons.IH [OF r1(2) _ _ here(2)] Cons.prems show ?case by (auto simp: add.assoc)
qed auto


lemma rr_read_count:
  assumes "state r = RS_MULTIBULK" "token r = None" "text_at buf p (42 # decimal n @ [CR, LF])"
  shows "\<exists>r'. parse_loop rr_step buf p r = parse_loop rr_step buf (p + length (decimal n) + 2) r' \<and> rr_between n r' \<and> mtype r' = mtype r"
proof -
  let ?d = "decimal n" and ?L = "parse_loop rr_step buf"
  define m where "m = Suc p + length ?d"
  have at: "p < length buf" "buf ! p = 42" "text_at buf (Suc p) ?d" "m < length buf" "buf ! m = CR"
    using assms(3) by (simp_all add: m_def)
  have d: "?d \<noteq> []" by simp
  let ?r = "r\<lparr>token := Some p, narg_start := Some p, rnarg := 0\<rparr>"
  let ?s = "r\<lparr>token := None, narg_start := Some p, rnarg := word_of_nat n, narg := word_of_nat n, narg_end := Some m, state := RS_MULTIBULK_NARG_LF\<rparr>"
  have "?L p r = ?L (Suc p) ?r"
    using at assms(1,2) by (intro rr.loop_Next) (auto simp: rr_step_def rr_multibulk_def)
  also have "\<dots> = ?L m (?r\<lparr>rnarg := word_of_nat n\<rparr>)"
    using rr_digits_rnarg [of ?r p buf "Suc p" n] at(3) assms(1) by (simp add: m_def)
  also have "\<dots> = ?L (Suc m) ?s"
    using at assms(1) d by (intro rr.loop_Next) (auto simp: rr_step_def rr_multibulk_def m_def)
  finally show ?thesis by (intro exI [of _ ?s]) (simp add: rr_between_def m_def)
qed

lemma rr_accept_array:
  "state r = RS_MULTIBULK \<Longrightarrow> token r = None \<Longrightarrow> array_ok a \<Longrightarrow> text_at buf p (print_array a) \<Longrightarrow>
   rr_accepts buf p r (p + length (print_array a) - 1) (mtype r)"
proof (induction a arbitrary: p r)
  case NullArray
  let ?r = "r\<lparr>token := Some p, narg_start := Some p, rnarg := 0\<rparr>"
  have "rr_accepts buf (Suc (Suc p)) (?r\<lparr>state := RS_RUNTO_CRLF\<rparr>) (Suc (Suc p) + length [49 :: u8] + 1) (mtype (?r\<lparr>state := RS_RUNTO_CRLF\<rparr>))"
    using NullArray.prems(4) by (intro rr_crlf_accepts) (simp_all add: CR_def)
  then have "rr_accepts buf (Suc p) ?r (Suc (Suc p) + length [49 :: u8] + 1) (mtype r)"
    using NullArray.prems by (simp add: rr_accepts_Next rr_step_def rr_multibulk_def)
  then show ?case
    using NullArray.prems by (simp add: rr_accepts_Next rr_step_def rr_multibulk_def)
next
  case (Array es)
  let ?q = "p + length (decimal (length es)) + 2"
  obtain r1 where r1: "parse_loop rr_step buf p r = parse_loop rr_step buf ?q r1" "rr_between (length es + 0) r1" "mtype r1 = mtype r"
    using rr_read_count [of r buf p "length es"] Array.prems by auto
  obtain r2 where r2: "parse_loop rr_step buf ?q r1 = parse_loop rr_step buf (?q + length (concat (map print_elem es))) r2"
    "rr_between 0 r2" "mtype r2 = mtype r1"
    using rr_read_elems [OF r1(2), of buf ?q] Array.prems by auto
  let ?e = "?q + length (concat (map print_elem es))"
  have e: "?e = p + length (print_array (Array es)) - 1" by simp
  have "text_at buf ?e [LF]" using elems_end [of buf ?q es "[]"] Array.prems(4) by simp
  then have "rr_accepts buf ?e r2 ?e (mtype r2)"
    using r2(2)
    by (intro rr_accepts_Done) (auto simp: rr_between_def rr_step_def rr_elem_lf_def rr_multibulk_narg_lf_def rr_multibulk_argn_lf_def)
  then show ?case unfolding e [symmetric] rr_accepts_def r1(1) r2(1) by (simp only: r1(3) r2(3))
next
  case (ArrayIn es a)
  let ?q = "p + length (decimal (Suc (length es))) + 2"
  let ?e = "?q + length (concat (map print_elem es))"
  obtain r1 where r1: "parse_loop rr_step buf p r = parse_loop rr_step buf ?q r1" "rr_between (length es + 1) r1" "mtype r1 = mtype r"
    using rr_read_count [of r buf p "Suc (length es)"] ArrayIn.prems by auto
  obtain r2 where r2: "parse_loop rr_step buf ?q r1 = parse_loop rr_step buf ?e r2"
    "rr_between (Suc 0) r2" "mtype r2 = mtype r1"
    using rr_read_elems [OF r1(2), of buf ?q] ArrayIn.prems by auto
  have "text_at buf ?e (LF # print_array a)" using elems_end [of buf ?q es "print_array a"] ArrayIn.prems(4) by simp
  then have e: "?e < length buf" "buf ! ?e = LF" and a: "text_at buf (Suc ?e) (print_array a)" by simp_all
  obtain h where h: "print_array a = 42 # h" by (cases a) auto
  let ?r = "r2\<lparr>state := RS_MULTIBULK_ARGN_LEN\<rparr>"
  have "rr_accepts buf (Suc ?e) (?r\<lparr>state := RS_MULTIBULK\<rparr>) (Suc ?e + length (print_array a) - 1) (mtype (?r\<lparr>state := RS_MULTIBULK\<rparr>))"
    using ArrayIn.prems(3) r2(2) a by (intro ArrayIn.IH) (simp_all add: rr_between_def)
  then have "rr_accepts buf (Suc ?e) ?r (Suc ?e + length (print_array a) - 1) (mtype r2)"
    using a r2(2) unfolding h by (simp add: rr_accepts_Next rr_step_def rr_multibulk_argn_len_def rr_between_def)
  moreover have "Suc ?e + length (print_array a) - 1 = p + length (print_array (ArrayIn es a)) - 1" by simp
  moreover have "parse_loop rr_step buf ?e r2 = parse_loop rr_step buf (Suc ?e) ?r"
    by (rule rr_next_elem [OF r2(2) _ e]) simp
  ultimately show ?case
    unfolding rr_accepts_def r1(1) r2(1) by (simp only: r1(3) r2(3))
qed


section \<open>The other replies\<close>

lemma rr_accept_bulk:
  assumes "state r = RS_BULK" "token r = None" "length b < 2 ^ 32" "text_at buf p (print_bulk b)"
  shows "rr_accepts buf p r (p + length (print_bulk b) - 1) (mtype r)"
proof -
  let ?d = "decimal (length b)" and ?L = "parse_loop rr_step buf"
  define m where "m = Suc p + length ?d"
  define e where "e = Suc (Suc m) + length b + 1"
  have at: "p < length buf" "buf ! p = 36" "text_at buf (Suc p) ?d" "m < length buf" "buf ! m = CR"
    "Suc m < length buf" "buf ! Suc m = LF" "text_at buf (Suc (Suc m)) (b @ [CR])" "e < length buf" "buf ! e = LF"
    using assms(4) by (simp_all add: m_def e_def print_bulk_def)
  have d: "?d \<noteq> []" by simp
  let ?r = "r\<lparr>token := Some p, rlen := 0\<rparr>" and ?w = "word_of_nat (length b) :: u32"
  let ?s = "r\<lparr>token := None, rlen := ?w, state := RS_BULK_LF\<rparr>"
  let ?e = "r\<lparr>token := None, rlen := 0, state := RS_BULK_ARG_LF\<rparr>"
  have "?L p r = ?L (Suc p) ?r"
    using at assms(1,2) by (intro rr.loop_Next) (auto simp: rr_step_def rr_bulk_def)
  also have "\<dots> = ?L m (r\<lparr>token := Some p, rlen := ?w\<rparr>)"
    using rr_digits_rlen [of ?r p buf "Suc p" "length b"] at(3) assms(1) by (simp add: m_def)
  also have "\<dots> = ?L (Suc m) ?s"
    using at assms(1) d by (intro rr.loop_Next) (auto simp: rr_step_def rr_bulk_def m_def)
  also have "\<dots> = ?L (Suc (Suc m)) (?s\<lparr>state := RS_BULK_ARG\<rparr>)"
    using at by (intro rr.loop_Next) (simp_all add: rr_step_def rr_bulk_lf_def)
  also have "\<dots> = ?L e ?e"
    using at(8) rr_skip_turn [OF _ assms(3) at(8), of "?s\<lparr>state := RS_BULK_ARG\<rparr>"]
    by (intro rr.loop_Next) (simp_all add: rr_step_def rr_bulk_arg_def e_def)
  also have "\<dots> = Some (?e, Done e)"
    using at by (intro rr.loop_stop) (simp_all add: rr_step_def rr_bulk_arg_lf_def)
  finally have "rr_accepts buf p r e (mtype r)" by (simp add: rr_accepts_def)
  then show ?thesis by (simp add: e_def m_def print_bulk_def add.assoc)
qed

lemma rr_accept_null:
  assumes "state r = RS_BULK" "token r = None" "text_at buf p [36, 45, 49, CR, LF]"
  shows "rr_accepts buf p r (Suc (Suc (Suc (Suc p)))) (mtype r)"
proof -
  let ?r = "r\<lparr>token := Some p, rlen := 0\<rparr>"
  have "rr_accepts buf (Suc (Suc p)) (?r\<lparr>state := RS_RUNTO_CRLF\<rparr>) (Suc (Suc p) + length [49 :: u8] + 1) (mtype (?r\<lparr>state := RS_RUNTO_CRLF\<rparr>))"
    using assms(3) by (intro rr_crlf_accepts) (simp_all add: CR_def)
  then have "rr_accepts buf (Suc p) ?r (Suc (Suc p) + length [49 :: u8] + 1) (mtype r)"
    using assms by (simp add: rr_accepts_Next rr_step_def rr_bulk_def)
  then show ?thesis
    using assms by (simp add: rr_accepts_Next rr_step_def rr_bulk_def)
qed

lemma rr_accept_integer:
  assumes "state r = RS_INTEGER" "list_all (\<lambda>c. isdigit c \<or> c = 45) w" "text_at buf p (c # w @ [CR, LF])"
  shows "rr_accepts buf p r (p + length w + 2) (mtype r)"
proof -
  have at: "p < length buf" "text_at buf (Suc p) w" "Suc p + length w < length buf" "buf ! (Suc p + length w) = CR"
    "p + length w + 2 < length buf" "buf ! (p + length w + 2) = LF"
    using assms(3) by simp_all
  let ?L = "parse_loop rr_step buf" and ?f = "\<lambda>r c. if c = 45 then r else r\<lparr>integer := integer r * 10 + digit c\<rparr>"
  let ?r = "r\<lparr>integer := 0, state := RS_INTEGER_START\<rparr>"
  have f: "state (foldl ?f s w) = state s \<and> mtype (foldl ?f s w) = mtype s" for s :: rr
    by (induction w arbitrary: s) simp_all
  have turn: "rr_step buf q s = (?f s c, Next (Suc q))" if "isdigit c \<or> c = 45" "state s = RS_INTEGER_START" "buf ! q = c" for q s c
  proof -
    have "c \<noteq> CR" using that(1) isdigit_CR by (metis CR_not_minus)
    with that show ?thesis by (auto simp: rr_step_def rr_integer_start_def)
  qed
  have "?L p r = ?L (Suc p) ?r"
    using at assms(1) by (intro rr.loop_Next) (simp_all add: rr_step_def rr_integer_def)
  also have "\<dots> = ?L (Suc p + length w) (foldl ?f ?r w)"
    using at(2)
    by (rule rr.loop_fold [where P = "\<lambda>r. state r = RS_INTEGER_START"]) (use assms(2) turn in \<open>auto simp: list_all_iff\<close>)
  also have "\<dots> = ?L (p + length w + 2) ((foldl ?f ?r w)\<lparr>state := RS_ALMOST_DONE\<rparr>)"
    using at f [of ?r] by (intro rr.loop_Next) (simp_all add: rr_step_def rr_integer_start_def)
  also have "\<dots> = Some ((foldl ?f ?r w)\<lparr>state := RS_ALMOST_DONE\<rparr>, Done (p + length w + 2))"
    using at by (intro rr.loop_stop) (simp_all add: rr_step_def rr_almost_done_def)
  finally show ?thesis using f [of ?r] by (simp add: rr_accepts_def)
qed


text \<open>The word of an error reply, up to the space or the carriage return behind it.\<close>

lemma rr_read_error_word:
  assumes "state r = RS_ERROR" "token r = None" "SPACE \<notin> set u" "CR \<notin> set u" "text_at buf p (45 # u @ [c])" "c = SPACE \<or> c = CR"
  shows "parse_loop rr_step buf p r = parse_loop rr_step buf (p + length u + 2)
    (r\<lparr>mtype := redis_error_type (45 # u) (mtype r), state := RS_RUNTO_CRLF\<rparr>)"
proof -
  let ?L = "parse_loop rr_step buf" and ?r = "r\<lparr>token := Some p\<rparr>"
  have at: "p < length buf" "buf ! p = 45" "text_at buf (Suc p) u" "Suc p + length u < length buf" "buf ! (Suc p + length u) = c"
    using assms(5) by simp_all
  have "text_at buf p (45 # u)" using at by simp
  then have word: "slice buf p (Suc p + length u) = 45 # u" using text_at_slice [of buf p "45 # u"] by simp
  have none: "r\<lparr>mtype := t, token := None, state := st\<rparr> = r\<lparr>mtype := t, state := st\<rparr>" for t st
    using assms(2) by (cases r) simp
  have "?L p r = ?L (Suc p) ?r"
    using at assms(1,2) by (intro rr.loop_Next) (simp_all add: rr_step_def rr_error_def mark_token_def SPACE_def CR_def)
  also have "\<dots> = ?L (Suc p + length u) ?r"
    using at(3) by (rule rr.loop_skip) (use assms in \<open>auto simp: rr_step_def rr_error_def mark_token_def Let_def\<close>)
  also have "\<dots> = ?L (p + length u + 2) (r\<lparr>mtype := redis_error_type (45 # u) (mtype r), state := RS_RUNTO_CRLF\<rparr>)"
    using at(4,5) assms(1,6) word none
    by (intro rr.loop_Next) (auto simp: rr_step_def rr_error_def mark_token_def token_word_def Let_def)
  finally show ?thesis .
qed

lemma rr_accept_error:
  assumes "state r = RS_ERROR" "token r = None" "CR \<notin> set w" "SPACE \<in> set w" "text_at buf p (45 # w @ [CR, LF])"
  shows "rr_accepts buf p r (p + length w + 2) (redis_error_type (takeWhile (\<lambda>c. c \<noteq> SPACE) (45 # w)) (mtype r))"
proof -
  obtain u v where w: "w = u @ SPACE # v" and u: "SPACE \<notin> set u"
    using split_list_first [OF assms(4)] by blast
  have cr: "CR \<notin> set u" "CR \<notin> set v" using assms(3) by (simp_all add: w)
  have at: "text_at buf p (45 # u @ [SPACE])" "text_at buf (p + length u + 2) (v @ [CR, LF])"
    using assms(5) by (simp_all add: w)
  have "takeWhile (\<lambda>c. c \<noteq> SPACE) u = u" using u by (simp add: takeWhile_eq_all_conv) auto
  then have word: "takeWhile (\<lambda>c. c \<noteq> SPACE) (45 # w) = 45 # u"
    using u by (simp add: w takeWhile_append SPACE_def)
  let ?t = "redis_error_type (45 # u) (mtype r)"
  have "rr_accepts buf (p + length u + 2) (r\<lparr>mtype := ?t, state := RS_RUNTO_CRLF\<rparr>) (p + length u + 2 + length v + 1) ?t"
    using rr_crlf_accepts [OF _ cr(2) at(2), of "r\<lparr>mtype := ?t, state := RS_RUNTO_CRLF\<rparr>"] by simp
  moreover have "p + length u + 2 + length v + 1 = p + length w + 2" by (simp add: w)
  ultimately show ?thesis
    unfolding word using rr_read_error_word [OF assms(1,2) u cr(1) at(1)] by (simp only: rr_accepts_def simp_thms)
qed


section \<open>The round trip\<close>

lemma rr_accept_start:
  assumes "text_at buf 0 (print_reply a)" "reply_ok a"
  shows "rr_accepts buf 0 rr_fresh (length (print_reply a) - 1) (reply_type a)"
proof -
  have turn: "rr_accepts buf 0 rr_fresh e t"
    if "0 < length buf" "rr_step buf 0 rr_fresh = (rr_fresh\<lparr>mtype := Rsp x, state := st\<rparr>, Next 0)"
      "rr_accepts buf 0 (rr_fresh\<lparr>mtype := Rsp x, state := st\<rparr>) e t" for x st e t
    using that by (rule rr_accepts_Next)
  note start = rr_step_def rr_start_def msg_fresh_def Let_def
  show ?thesis
  proof (cases a)
    case (Status w)
    let ?r = "rr_fresh\<lparr>mtype := Rsp MSG_RSP_REDIS_STATUS, state := RS_STATUS\<rparr>"
    have "rr_accepts buf (Suc 0) (?r\<lparr>state := RS_RUNTO_CRLF\<rparr>) (Suc 0 + length w + 1) (mtype (?r\<lparr>state := RS_RUNTO_CRLF\<rparr>))"
      using assms Status by (intro rr_crlf_accepts) simp_all
    then have "rr_accepts buf 0 ?r (Suc 0 + length w + 1) (Rsp MSG_RSP_REDIS_STATUS)"
      using assms(1) Status by (simp add: rr_accepts_Next rr_step_def rr_status_def)
    with assms(1) Status show ?thesis by (intro turn [where st = RS_STATUS]) (simp_all add: start)
  next
    case (Error w)
    with assms rr_accept_error [of "rr_fresh\<lparr>mtype := Rsp MSG_RSP_REDIS_ERROR, state := RS_ERROR\<rparr>" w buf 0]
    show ?thesis by (intro turn [where st = RS_ERROR]) (simp_all add: start)
  next
    case (Integer w)
    with assms rr_accept_integer [of "rr_fresh\<lparr>mtype := Rsp MSG_RSP_REDIS_INTEGER, state := RS_INTEGER\<rparr>" w buf 0 58]
    show ?thesis by (intro turn [where st = RS_INTEGER]) (simp_all add: start)
  next
    case (BulkReply b)
    with assms rr_accept_bulk [of "rr_fresh\<lparr>mtype := Rsp MSG_RSP_REDIS_BULK, state := RS_BULK\<rparr>" b buf 0]
    show ?thesis by (intro turn [where st = RS_BULK]) (simp_all add: start print_bulk_def)
  next
    case NullReply
    with assms rr_accept_null [of "rr_fresh\<lparr>mtype := Rsp MSG_RSP_REDIS_BULK, state := RS_BULK\<rparr>" buf 0]
    show ?thesis by (intro turn [where st = RS_BULK]) (simp_all add: start)
  next
    case (ArrayReply m)
    obtain h where h: "print_array m = 42 # h" by (cases m) auto
    with assms ArrayReply rr_accept_array [of "rr_fresh\<lparr>mtype := Rsp MSG_RSP_REDIS_MULTIBULK, state := RS_MULTIBULK\<rparr>" m buf 0]
    show ?thesis by (intro turn [where st = RS_MULTIBULK]) (simp_all add: start)
  qed
qed


definition demo_hscan :: reply where
  "demo_hscan = ArrayReply (ArrayIn [Bulk (bytes_of ''0'')] (Array [Bulk (bytes_of ''f''), NullBulk, Line 58 (bytes_of ''12'')]))"


section \<open>An error of one word\<close>

text \<open>
  C36: an error reply that consists of its word only, such as \<open>-LOADING\<close>, is not delimited.  The
  carriage return that ends the word is consumed in the state before the one that looks for it, so
  the parser takes the reply and the line behind it for one response.
\<close>

theorem redis_error_swallows_next_line:
  assumes "SPACE \<notin> set w" "CR \<notin> set w" "CR \<notin> set line"
  shows "\<exists>r'. redis_parse_rsp ((45 # w @ [CR, LF]) @ (line @ [CR, LF]) @ rest) full rr_fresh = Some r' \<and>
    result r' = MSG_PARSE_OK \<and> pos r' = length (45 # w @ [CR, LF]) + length (line @ [CR, LF])"
proof -
  define buf where "buf = (45 # w @ [CR, LF]) @ (line @ [CR, LF]) @ rest"
  let ?r = "rr_fresh\<lparr>mtype := Rsp MSG_RSP_REDIS_ERROR, state := RS_ERROR\<rparr>"
  let ?s = "?r\<lparr>mtype := redis_error_type (45 # w) (mtype ?r), state := RS_RUNTO_CRLF\<rparr>"
  have at: "text_at buf 0 ((45 # w @ [CR]) @ ((LF # line) @ [CR, LF]))"
    unfolding buf_def using text_at_prefix [of "(45 # w @ [CR]) @ ((LF # line) @ [CR, LF])" rest] by simp
  have "parse_loop rr_step buf 0 rr_fresh = parse_loop rr_step buf 0 ?r"
    by (rule rr.loop_Next) (simp_all add: buf_def rr_step_def rr_start_def msg_fresh_def Let_def)
  also have "\<dots> = parse_loop rr_step buf (0 + length w + 2) ?s"
    using at assms(1,2) by (intro rr_read_error_word) (auto simp: msg_fresh_def)
  finally have loop: "parse_loop rr_step buf 0 rr_fresh = \<dots>" .
  have "rr_accepts buf (0 + length w + 2) ?s (0 + length w + 2 + length (LF # line) + 1) (mtype ?s)"
    using at assms(3) by (intro rr_crlf_accepts) (simp_all add: CR_def LF_def)
  then obtain r' where "parse_loop rr_step buf 0 rr_fresh = Some (r', Done (0 + length w + 2 + length (LF # line) + 1))"
    unfolding rr_accepts_def loop by blast
  moreover have "pos rr_fresh = 0" by (simp add: msg_fresh_def)
  ultimately show ?thesis
    unfolding buf_def [symmetric] by (simp add: redis_parse_rsp_def rr_finish_def)
qed

theorem redis_error_swallows_next_line_witness:
  "\<exists>r'. redis_parse_rsp ((45 # bytes_of ''LOADING'' @ [CR, LF]) @ (bytes_of ''+OK'' @ [CR, LF]) @ []) False rr_fresh = Some r' \<and>
     result r' = MSG_PARSE_OK \<and> pos r' = length (bytes_of ''-LOADING'') + 2 + length (bytes_of ''+OK'') + 2"
  using redis_error_swallows_next_line [of "bytes_of ''LOADING''" "bytes_of ''+OK''" "[]" False]
  by (simp add: bytes_of_def SPACE_def CR_def)

end
