(* ===== verification/NC_Server.thy ===== *)
theory NC_Server
  imports NC_Ketama
begin

text \<open>
  The server pool of src/src/nc_server.c: from a key to a server, the ejection of servers that fail and
  their return, and the connections to a server.  The three distributions of src/src/hashkit stand
  behind one interface.
\<close>

section \<open>Rebuilding and choosing\<close>

definition server_pool_run :: "dist_env \<Rightarrow> server_pool \<Rightarrow> fault + rstatus \<times> server_pool" where
  "server_pool_run env pool =
     (case pool_dist pool of
        DIST_KETAMA \<Rightarrow> ketama_update env pool
      | DIST_MODULA \<Rightarrow> modula_update env pool
      | DIST_RANDOM \<Rightarrow> random_update env pool)"

definition server_pool_hash :: "server_pool \<Rightarrow> bytes \<Rightarrow> u32" where
  "server_pool_hash pool key =
     (if length (servers pool) = 1 then 0 else if key = [] then 0 else key_hash pool key)"

text \<open>\<open>_nc_strchr\<close> of nc_string.h, as the offset of the byte.\<close>

fun nc_strchr :: "bytes \<Rightarrow> u8 \<Rightarrow> nat option" where
  "nc_strchr [] c = None"
| "nc_strchr (x # xs) c = (if x = c then Some 0 else map_option Suc (nc_strchr xs c))"

text \<open>The part of the key inside the hash tag, when there is one.\<close>

definition hash_key :: "bytes \<Rightarrow> bytes \<Rightarrow> bytes" where
  "hash_key tag key =
     (if tag = [] then key
      else case nc_strchr key (tag ! 0) of
          None \<Rightarrow> key
        | Some start \<Rightarrow>
            (case nc_strchr (drop (start + 1) key) (tag ! 1) of
               None \<Rightarrow> key
             | Some n \<Rightarrow> if n + 1 > 1 then take n (drop (start + 1) key) else key))"

text \<open>The dispatch of \<open>server_pool_idx\<close>; \<open>r\<close> is what \<open>random()\<close> returns.\<close>

definition pool_dispatch :: "nat \<Rightarrow> server_pool \<Rightarrow> bytes \<Rightarrow> fault + u32" where
  "pool_dispatch r pool key =
     (case pool_dist pool of
        DIST_KETAMA \<Rightarrow> ketama_dispatch (pool_continuum pool) (ncontinuum pool) (server_pool_hash pool key)
      | DIST_MODULA \<Rightarrow> modula_dispatch (pool_continuum pool) (ncontinuum pool) (server_pool_hash pool key)
      | DIST_RANDOM \<Rightarrow> random_dispatch r (pool_continuum pool) (ncontinuum pool) 0)"

definition server_pool_idx :: "nat \<Rightarrow> server_pool \<Rightarrow> bytes \<Rightarrow> fault + u32" where
  "server_pool_idx r pool key = pool_dispatch r pool (hash_key (hash_tag pool) key)"

section \<open>Failures\<close>

text \<open>
  \<open>server_failure\<close> of server \<open>i\<close>; \<open>t\<close> is its own reading of the clock, the rebuild reads it again.  The
  statistics and the status of the rebuild, which is only logged, are left out.
\<close>

definition server_failure :: "dist_env \<Rightarrow> int \<Rightarrow> nat \<Rightarrow> server_pool \<Rightarrow> fault + server_pool" where
  "server_failure env t i pool =
     (if \<not> auto_eject_hosts pool then Inr pool
      else
        let s = servers pool ! i;
            s = s\<lparr>failure_count := failure_count s + 1\<rparr>;
            pool = pool\<lparr>servers := (servers pool)[i := s]\<rparr>
        in
        if failure_count s < server_failure_limit pool then Inr pool
        else if t < 0 then Inr pool
        else
          let s = s\<lparr>failure_count := 0, next_retry := t + server_retry_timeout pool\<rparr>;
              pool = pool\<lparr>servers := (servers pool)[i := s]\<rparr>
          in bind_fault (server_pool_run env pool) (\<lambda>(_, pool). Inr pool))"

definition server_ok :: "nat \<Rightarrow> server_pool \<Rightarrow> server_pool" where
  "server_ok i pool =
     (let s = servers pool ! i in
      if failure_count s \<noteq> 0
      then pool\<lparr>servers := (servers pool)[i := s\<lparr>failure_count := 0, next_retry := 0\<rparr>]\<rparr>
      else pool)"

definition server_pool_update :: "dist_env \<Rightarrow> int \<Rightarrow> server_pool \<Rightarrow> fault + rstatus \<times> server_pool" where
  "server_pool_update env t pool =
     (if \<not> auto_eject_hosts pool then Inr (NC_OK, pool)
      else if next_rebuild pool = 0 then Inr (NC_OK, pool)
      else if t < 0 then Inr (NC_ERROR, pool)
      else if t \<le> next_rebuild pool then
        if nlive_server pool = 0 then Inr (NC_ERROR, pool) else Inr (NC_OK, pool)
      else server_pool_run env pool)"

section \<open>Connections to a server\<close>

text \<open>
  \<open>server_ref\<close> and \<open>server_unref\<close> on the queue of a server; connections are named by numbers.  The
  address of the server is resolved elsewhere.
\<close>

definition server_ref :: "nat \<Rightarrow> server \<Rightarrow> server" where
  "server_ref conn s = s\<lparr>ns_conn_q := ns_conn_q s + 1, s_conn_q := s_conn_q s @ [conn]\<rparr>"

definition server_unref :: "nat \<Rightarrow> server \<Rightarrow> server" where
  "server_unref conn s = s\<lparr>ns_conn_q := ns_conn_q s - 1, s_conn_q := remove1 conn (s_conn_q s)\<rparr>"

text \<open>
  \<open>server_conn\<close>: a new connection while the limit is not reached, where \<open>fresh_conn\<close> is what
  \<open>conn_get\<close> returns after it has called \<open>server_ref\<close>, or else the one that was used least recently.
\<close>

definition server_conn :: "nat option \<Rightarrow> u32 \<Rightarrow> server \<Rightarrow> fault + nat option \<times> server" where
  "server_conn fresh_conn limit s =
     (if ns_conn_q s < limit then
        Inr (case fresh_conn of None \<Rightarrow> (None, s) | Some conn \<Rightarrow> (Some conn, server_ref conn s))
      else case s_conn_q s of
          [] \<Rightarrow> Inl NullDeref
        | conn # rest \<Rightarrow> Inr (Some conn, s\<lparr>s_conn_q := rest @ [conn]\<rparr>))"

definition server_pool_server :: "nat \<Rightarrow> server_pool \<Rightarrow> bytes \<Rightarrow> fault + nat" where
  "server_pool_server r pool key =
     bind_fault (server_pool_idx r pool key) (\<lambda>idx.
     if unat idx < length (servers pool) then Inr (unat idx) else Inl OutOfBounds)"

text \<open>
  What \<open>server_close\<close> does to the pool: the failure is counted and the connection leaves its server.
  The messages that it answers with an error belong to the connections.
\<close>

definition server_close :: "dist_env \<Rightarrow> int \<Rightarrow> nat \<Rightarrow> nat \<Rightarrow> server_pool \<Rightarrow> fault + server_pool" where
  "server_close env t i conn pool =
     bind_fault (server_failure env t i pool) (\<lambda>pool.
     Inr (pool\<lparr>servers := (servers pool)[i := server_unref conn (servers pool ! i)]\<rparr>))"

text \<open>
  \<open>server_pool_conn\<close>: the server for a key and a connection to it.  \<open>conn_ok\<close> is whether
  \<open>server_connect\<close> succeeds; the clock is read at \<open>t\<close> and, when the connection fails, again at
  \<open>t2\<close>.
\<close>

definition server_pool_conn ::
  "dist_env \<Rightarrow> int \<Rightarrow> nat \<Rightarrow> nat option \<Rightarrow> bool \<Rightarrow> dist_env \<Rightarrow> int \<Rightarrow> bytes \<Rightarrow> server_pool \<Rightarrow>
    fault + (nat \<times> nat) option \<times> server_pool" where
  "server_pool_conn env t r fresh_conn conn_ok env2 t2 key pool =
     bind_fault (server_pool_update env t pool) (\<lambda>(status, pool).
     if status \<noteq> NC_OK then Inr (None, pool)
     else
       bind_fault (server_pool_server r pool key) (\<lambda>i.
       bind_fault (server_conn fresh_conn (server_connections pool) (servers pool ! i)) (\<lambda>(conn, s).
       let pool = pool\<lparr>servers := (servers pool)[i := s]\<rparr> in
       case conn of
         None \<Rightarrow> Inr (None, pool)
       | Some conn \<Rightarrow>
           if conn_ok then Inr (Some (i, conn), pool)
           else bind_fault (server_close env2 t2 i conn pool) (\<lambda>pool. Inr (None, pool)))))"

section \<open>The interface of a distribution\<close>

text \<open>What is asked of the surroundings: a clock, memory, and a C library that sorts.\<close>

definition env_ok :: "dist_env \<Rightarrow> bool" where
  "env_ok env \<longleftrightarrow> 0 \<le> now env \<and> alloc_ok env \<and> sorts_points (qsort env)"

text \<open>
  What is asked of the pool: a configuration of reasonable size, and a continuum array of the size
  that the pool remembers.
\<close>

definition conf_ok :: "server_pool \<Rightarrow> bool" where
  "conf_ok pool \<longleftrightarrow>
     servers pool \<noteq> [] \<and> length (servers pool) \<le> 2 ^ 14 \<and> 0 < server_connections pool \<and>
     (\<Sum>s\<leftarrow>servers pool. unat (weight s)) < 2 ^ 32 - 10 \<and>
     (\<forall>s \<in> set (servers pool). 0 < weight s \<and> (pool_dist pool = DIST_KETAMA \<longrightarrow> ketama_server_ok s))"

definition slots_ok :: "server_pool \<Rightarrow> bool" where
  "slots_ok pool \<longleftrightarrow>
     (if pool_dist pool = DIST_KETAMA then continuum_slots 160 pool \<and> unat (nserver_continuum pool) < 2 ^ 24
      else continuum_slots 1 pool)"

text \<open>The parts of a pool that no rebuild changes.\<close>

definition same_conf :: "server_pool \<Rightarrow> server_pool \<Rightarrow> bool" where
  "same_conf pool pool' \<longleftrightarrow>
     pool_dist pool' = pool_dist pool \<and> key_hash pool' = key_hash pool \<and> hash_tag pool' = hash_tag pool \<and>
     server_connections pool' = server_connections pool \<and> server_retry_timeout pool' = server_retry_timeout pool \<and>
     server_failure_limit pool' = server_failure_limit pool \<and> auto_eject_hosts pool' = auto_eject_hosts pool"

text \<open>What an update keeps: the pool after the scan, up to its continuum.\<close>

definition same_scan :: "dist_env \<Rightarrow> server_pool \<Rightarrow> server_pool \<Rightarrow> bool" where
  "same_scan env pool pool' \<longleftrightarrow>
     same_conf pool pool' \<and> servers pool' = servers (scanned env pool) \<and>
     next_rebuild pool' = next_rebuild (scanned env pool) \<and> nlive_server pool' = nlive_server (scanned env pool)"

text \<open>
  Every hash goes to a server of the pool that is not ejected; \<open>disp\<close> is the dispatch as a function
  of the random number and the hash.
\<close>

definition routes :: "(nat \<Rightarrow> u32 \<Rightarrow> fault + u32) \<Rightarrow> server_pool \<Rightarrow> bool" where
  "routes disp pool \<longleftrightarrow>
     (\<forall>r hash. \<exists>j < length (servers pool). (auto_eject_hosts pool \<longrightarrow> next_retry (servers pool ! j) = 0) \<and>
        disp r hash = Inr (word_of_nat j))"

text \<open>
  The state of a pool between two operations.  A pool with no live server waits for the first
  retry; a pool with some routes to servers that are not ejected.  No retry time is missed by the
  next rebuild, and a pool that lacks a server has a rebuild ahead.
\<close>

definition health :: "(nat \<Rightarrow> u32 \<Rightarrow> fault + u32) \<Rightarrow> server_pool \<Rightarrow> bool" where
  "health disp pool \<longleftrightarrow>
     (if nlive_server pool = 0
      then auto_eject_hosts pool \<and> 0 < next_rebuild pool \<and> (\<exists>s \<in> set (servers pool). next_retry s \<le> next_rebuild pool)
      else routes disp pool) \<and>
     unat (nlive_server pool) \<le> length (servers pool) \<and>
     (unat (nlive_server pool) < length (servers pool) \<longrightarrow> next_rebuild pool \<noteq> 0) \<and>
     (\<forall>s \<in> set (servers pool). auto_eject_hosts pool \<and> next_retry s \<noteq> 0 \<longrightarrow>
        0 < next_rebuild pool \<and> next_rebuild pool \<le> next_retry s)"

text \<open>
  The contract: when a server is live, a rebuild succeeds, and from then on every hash goes to a
  server that was live; when none is, only the states of the servers are refreshed.
\<close>

locale distribution =
  fixes dist :: dist_type
    and upd :: "dist_env \<Rightarrow> server_pool \<Rightarrow> fault + rstatus \<times> server_pool"
    and disp :: "nat \<Rightarrow> continuum list \<Rightarrow> u32 \<Rightarrow> u32 \<Rightarrow> fault + u32"
  assumes some_live: "env_ok env \<Longrightarrow> conf_ok pool \<Longrightarrow> slots_ok pool \<Longrightarrow> pool_dist pool = dist \<Longrightarrow>
      live_count (auto_eject_hosts pool) (now env) (servers pool) \<noteq> 0 \<Longrightarrow>
      \<exists>pool'. upd env pool = Inr (NC_OK, pool') \<and> slots_ok pool' \<and>
        (\<forall>r hash. \<exists>j < length (servers pool). live (auto_eject_hosts pool) (now env) (servers pool ! j) \<and>
           disp r (pool_continuum pool') (ncontinuum pool') hash = Inr (word_of_nat j))"
    and none_live: "env_ok env \<Longrightarrow> nlive_server (scanned env pool) = 0 \<Longrightarrow> upd env pool = Inr (NC_OK, scanned env pool)"
    and frame: "env_ok env \<Longrightarrow> upd env pool = Inr (st, pool') \<Longrightarrow>
      same_scan env pool pool'"
begin

abbreviation disp_of :: "server_pool \<Rightarrow> nat \<Rightarrow> u32 \<Rightarrow> fault + u32" where
  "disp_of pool \<equiv> \<lambda>r. disp r (pool_continuum pool) (ncontinuum pool)"

end

lemma earliest_retry:
  fixes auto ss
  assumes "0 \<le> t"
  defines "ts \<equiv> map next_retry (filter (\<lambda>s. \<not> live auto t s) ss)"
  shows "\<lbrakk>s \<in> set ss; \<not> live auto t s\<rbrakk> \<Longrightarrow> 0 < earliest 0 ts \<and> earliest 0 ts \<le> next_retry s"
    and "earliest 0 ts = 0 \<or> 0 < earliest 0 ts \<and> (\<exists>s \<in> set ss. \<not> live auto t s \<and> next_retry s = earliest 0 ts)"
proof -
  have pos: "\<forall>x \<in> set ts. 0 < x" using assms by (auto simp: ts_def live_def)
  show "0 < earliest 0 ts \<and> earliest 0 ts \<le> next_retry s" if "s \<in> set ss" "\<not> live auto t s"
  proof -
    from that have mem: "next_retry s \<in> set ts" by (auto simp: ts_def)
    then have "ts \<noteq> []" by auto
    with pos mem show ?thesis by (auto simp: earliest_0)
  qed
  show "earliest 0 ts = 0 \<or> 0 < earliest 0 ts \<and> (\<exists>s \<in> set ss. \<not> live auto t s \<and> next_retry s = earliest 0 ts)"
  proof (cases "ts = []")
    case False
    then have "Min (set ts) \<in> set ts" by simp
    with pos False show ?thesis by (auto simp: earliest_0 ts_def)
  qed (simp add: earliest_def)
qed

lemma health_rebuilt:
  assumes "0 \<le> now env" "servers pool \<noteq> []" "length (servers pool) \<le> 2 ^ 14"
    and pool': "servers pool' = servers (scanned env pool)" "next_rebuild pool' = next_rebuild (scanned env pool)"
      "nlive_server pool' = nlive_server (scanned env pool)" "auto_eject_hosts pool' = auto_eject_hosts pool"
    and routes: "live_count (auto_eject_hosts pool) (now env) (servers pool) \<noteq> 0 \<Longrightarrow>
      \<forall>r hash. \<exists>j < length (servers pool). live (auto_eject_hosts pool) (now env) (servers pool ! j) \<and>
        disp r hash = Inr (word_of_nat j)"
  shows "health disp pool'"
proof -
  define a t ss where defs: "a = auto_eject_hosts pool" "t = now env" "ss = servers pool"
  define rb where "rb = earliest 0 (map next_retry (filter (\<lambda>s. \<not> live a t s) ss))"
  have t: "0 \<le> t" using assms(1) by (simp add: defs)
  have eqs: "servers pool' = map (refresh a t) ss" "next_rebuild pool' = rb"
    "nlive_server pool' = word_of_nat (live_count a t ss)" "auto_eject_hosts pool' = a"
    using pool' by (simp_all add: scanned_def Let_def defs rb_def)
  have count: "live_count a t ss \<le> length ss" "length ss \<le> 2 ^ 14" "ss \<noteq> []"
    using assms(2,3) by (simp_all add: live_count_def defs)
  then have n: "unat (nlive_server pool') = live_count a t ss"
    by (simp add: eqs unat_of_nat_u32)
  note rb = earliest_retry [OF t, where auto = a and ss = ss, folded rb_def]
  have dead: "\<exists>s \<in> set ss. \<not> live a t s" if "live_count a t ss < length ss"
    using that unfolding live_count_def by (metis filter_True less_irrefl)
  have retry: "\<forall>s \<in> set (servers pool'). a \<and> next_retry s \<noteq> 0 \<longrightarrow> 0 < rb \<and> rb \<le> next_retry s"
    using rb(1) by (auto simp: eqs refresh_def live_def)
  have wait: "a \<and> 0 < rb \<and> (\<exists>s \<in> set (servers pool'). next_retry s \<le> rb)" if "nlive_server pool' = 0"
  proof -
    from that n count have "\<exists>s \<in> set ss. \<not> live a t s" by (intro dead) auto
    with rb obtain s where "s \<in> set ss" "\<not> live a t s" "next_retry s = rb" "0 < rb" by force
    then show ?thesis by (force simp: eqs refresh_def live_def)
  qed
  have "routes disp pool'" if "nlive_server pool' \<noteq> 0"
  proof -
    from that have "live_count a t ss \<noteq> 0" by (rule contrapos_nn) (simp add: eqs)
    from routes [folded defs, OF this] show ?thesis
      unfolding routes_def eqs by (fastforce simp: refresh_def live_def)
  qed
  then show ?thesis
    using retry wait dead n count(1) rb(1) by (auto simp: health_def eqs)
qed

context distribution
begin

text \<open>A rebuild leaves a pool in good state, whatever its state was.\<close>

lemma rebuild:
  assumes "env_ok env" "conf_ok pool" "slots_ok pool" "pool_dist pool = dist"
  shows "\<exists>pool'. upd env pool = Inr (NC_OK, pool') \<and> slots_ok pool' \<and> health (disp_of pool') pool' \<and>
    same_scan env pool pool'"
proof -
  have conf: "0 \<le> now env" "servers pool \<noteq> []" "length (servers pool) \<le> 2 ^ 14"
    using assms by (simp_all add: env_ok_def conf_ok_def)
  show ?thesis
  proof (cases "live_count (auto_eject_hosts pool) (now env) (servers pool) = 0")
    case True
    then have "nlive_server (scanned env pool) = 0" by (simp add: scanned_def Let_def)
    note upd = none_live [OF assms(1) this]
    have "health (disp_of (scanned env pool)) (scanned env pool)"
      using conf True by (intro health_rebuilt [of env pool]) auto
    with upd frame [OF assms(1) upd] assms(3) show ?thesis
      by (intro exI [of _ "scanned env pool"]) (simp add: slots_ok_def same_scan_def same_conf_def split: if_splits)
  next
    case False
    then obtain pool' where upd: "upd env pool = Inr (NC_OK, pool')" "slots_ok pool'"
      and routes: "\<forall>r hash. \<exists>j < length (servers pool). live (auto_eject_hosts pool) (now env) (servers pool ! j) \<and>
           disp_of pool' r hash = Inr (word_of_nat j)"
      using some_live [OF assms] by blast
    note same = frame [OF assms(1) upd(1)]
    have "health (disp_of pool') pool'"
      using conf same routes by (intro health_rebuilt [of env pool]) (auto simp: same_scan_def same_conf_def)
    with upd same show ?thesis by blast
  qed
qed

end

subsection \<open>The three distributions\<close>

lemma modula_none_live:
  assumes "0 \<le> now env" "nlive_server (scanned env pool) = 0"
  shows "modula_update env pool = Inr (NC_OK, scanned env pool)"
  unfolding modula_update_def scan_servers_pool [OF assms(1)] Let_def prod.case scanned_fold
  using assms by simp

lemma random_none_live:
  assumes "0 \<le> now env" "nlive_server (scanned env pool) = 0"
  shows "random_update env pool = Inr (NC_OK, scanned env pool)"
  unfolding random_update_def scan_servers_pool [OF assms(1)] Let_def prod.case scanned_fold
  using assms by simp

lemma ketama_none_live:
  assumes "0 \<le> now env" "nlive_server (scanned env pool) = 0"
  shows "ketama_update env pool = Inr (NC_OK, scanned env pool)"
  unfolding ketama_update_def scan_servers_pool [OF assms(1)] Let_def prod.case scanned_fold
  using assms by simp

lemma same_scan_simps [simp]:
  "same_scan env pool (scanned env pool)"
  "same_scan env pool (pool'\<lparr>nserver_continuum := m\<rparr>) = same_scan env pool pool'"
  "same_scan env pool (pool'\<lparr>pool_continuum := c\<rparr>) = same_scan env pool pool'"
  "same_scan env pool (pool'\<lparr>ncontinuum := n\<rparr>) = same_scan env pool pool'"
  by (simp_all add: same_scan_def same_conf_def scanned_def Let_def)

lemma modula_frame:
  assumes "0 \<le> now env" "modula_update env pool = Inr (st, pool')"
  shows "same_scan env pool pool'"
  using assms unfolding modula_update_def scan_servers_pool [OF assms(1)] Let_def prod.case scanned_fold
  by (auto split: if_splits)

lemma random_frame:
  assumes "0 \<le> now env" "random_update env pool = Inr (st, pool')"
  shows "same_scan env pool pool'"
  using assms unfolding random_update_def scan_servers_pool [OF assms(1)] Let_def prod.case scanned_fold
  by (auto split: if_splits)

lemma ketama_frame:
  assumes "0 \<le> now env" "ketama_update env pool = Inr (st, pool')"
  shows "same_scan env pool pool'"
  using assms unfolding ketama_update_def scan_servers_pool [OF assms(1)] Let_def prod.case scanned_fold
  by (auto split: if_splits)

lemma live_weight_le: "live_weight auto t ss \<le> (\<Sum>s\<leftarrow>ss. unat (weight s))"
  unfolding live_weight_def by (rule sum_list_filter_le)

lemma slots_ok_frame:
  "same_scan env pool pool' \<Longrightarrow> pool_dist pool \<noteq> DIST_KETAMA \<Longrightarrow> slots_ok pool' = continuum_slots 1 pool'"
  by (simp add: slots_ok_def same_scan_def same_conf_def)

interpretation modula: distribution DIST_MODULA modula_update "\<lambda>r. modula_dispatch"
proof
  fix env pool assume a: "env_ok env" "conf_ok pool" "slots_ok pool" "pool_dist pool = DIST_MODULA"
    "live_count (auto_eject_hosts pool) (now env) (servers pool) \<noteq> 0"
  have conf: "0 \<le> now env" "alloc_ok env" "continuum_slots 1 pool" "length (servers pool) < 2 ^ 32"
    "live_weight (auto_eject_hosts pool) (now env) (servers pool) < 2 ^ 32 - 10" "\<forall>s \<in> set (servers pool). 0 < weight s"
    using a le_less_trans [OF live_weight_le] by (auto simp: env_ok_def conf_ok_def slots_ok_def)
  from modula_rebuild [OF conf(1-3) a(5) conf(4-6)] modula_frame [OF conf(1)] a(4)
  show "\<exists>pool'. modula_update env pool = Inr (NC_OK, pool') \<and> slots_ok pool' \<and>
      (\<forall>r hash. \<exists>j < length (servers pool). live (auto_eject_hosts pool) (now env) (servers pool ! j) \<and>
         modula_dispatch (pool_continuum pool') (ncontinuum pool') hash = Inr (word_of_nat j))"
    by (metis slots_ok_frame dist_type.distinct(1))
qed (simp_all add: env_ok_def modula_none_live modula_frame)

interpretation random: distribution DIST_RANDOM random_update random_dispatch
proof
  fix env pool assume a: "env_ok env" "conf_ok pool" "slots_ok pool" "pool_dist pool = DIST_RANDOM"
    "live_count (auto_eject_hosts pool) (now env) (servers pool) \<noteq> 0"
  have conf: "0 \<le> now env" "alloc_ok env" "continuum_slots 1 pool" "length (servers pool) < 2 ^ 32 - 10"
    using a by (auto simp: env_ok_def conf_ok_def slots_ok_def)
  from random_rebuild [OF conf(1-3) a(5) conf(4)] random_frame [OF conf(1)] a(4)
  show "\<exists>pool'. random_update env pool = Inr (NC_OK, pool') \<and> slots_ok pool' \<and>
      (\<forall>r hash. \<exists>j < length (servers pool). live (auto_eject_hosts pool) (now env) (servers pool ! j) \<and>
         random_dispatch r (pool_continuum pool') (ncontinuum pool') hash = Inr (word_of_nat j))"
    by (metis slots_ok_frame dist_type.distinct(3))
qed (simp_all add: env_ok_def random_none_live random_frame)

lemma ketama_slots:
  assumes "0 \<le> now env" "ketama_update env pool = Inr (st, pool')"
  shows "nserver_continuum pool' = nserver_continuum pool \<or> nserver_continuum pool' = nlive_server (scanned env pool) + 10"
  using assms unfolding ketama_update_def scan_servers_pool [OF assms(1)] Let_def prod.case scanned_fold
  by (auto simp: KETAMA_CONTINUUM_ADDITION_def split: if_splits)

lemma ketama_slots_small:
  assumes "0 \<le> now env" "ketama_update env pool = Inr (st, pool')" "length (servers pool) \<le> 2 ^ 14"
    "unat (nserver_continuum pool) < 2 ^ 24"
  shows "unat (nserver_continuum pool') < 2 ^ 24"
proof -
  have "live_count (auto_eject_hosts pool) (now env) (servers pool) \<le> length (servers pool)"
    by (simp add: live_count_def)
  then have "unat (nlive_server (scanned env pool) + 10) < 2 ^ 24"
    using assms(3) unat_of_nat_u32 [of "live_count (auto_eject_hosts pool) (now env) (servers pool) + 10"]
    by (simp add: scanned_def Let_def)
  with ketama_slots [OF assms(1,2)] assms(4) show ?thesis by auto
qed

interpretation ketama: distribution DIST_KETAMA ketama_update "\<lambda>r. ketama_dispatch"
proof
  fix env pool assume a: "env_ok env" "conf_ok pool" "slots_ok pool" "pool_dist pool = DIST_KETAMA"
    "live_count (auto_eject_hosts pool) (now env) (servers pool) \<noteq> 0"
  have conf: "ketama_conf env pool" "sorts_points (qsort env)" "0 \<le> now env"
    "length (servers pool) \<le> 2 ^ 14" "unat (nserver_continuum pool) < 2 ^ 24"
    using a by (auto simp: env_ok_def conf_ok_def slots_ok_def ketama_conf_def)
  obtain pool' where upd: "ketama_update env pool = Inr (NC_OK, pool')" "continuum_slots 160 pool'"
    "\<forall>hash. \<exists>j < length (servers pool). live (auto_eject_hosts pool) (now env) (servers pool ! j) \<and>
       ketama_dispatch (pool_continuum pool') (ncontinuum pool') hash = Inr (word_of_nat j)"
    using ketama_rebuild [OF conf(1,2) a(5)] by blast
  have "slots_ok pool'"
    using upd(2) ketama_frame [OF conf(3) upd(1)] ketama_slots_small [OF conf(3) upd(1) conf(4,5)] a(4)
    by (simp add: slots_ok_def same_scan_def same_conf_def)
  with upd show "\<exists>pool'. ketama_update env pool = Inr (NC_OK, pool') \<and> slots_ok pool' \<and>
      (\<forall>r hash. \<exists>j < length (servers pool). live (auto_eject_hosts pool) (now env) (servers pool ! j) \<and>
         ketama_dispatch (pool_continuum pool') (ncontinuum pool') hash = Inr (word_of_nat j))"
    by blast
qed (simp_all add: env_ok_def ketama_none_live ketama_frame)

section \<open>The invariant of a pool\<close>

definition dist_dispatch :: "server_pool \<Rightarrow> nat \<Rightarrow> u32 \<Rightarrow> fault + u32" where
  "dist_dispatch pool r hash =
     (case pool_dist pool of
        DIST_KETAMA \<Rightarrow> ketama_dispatch (pool_continuum pool) (ncontinuum pool) hash
      | DIST_MODULA \<Rightarrow> modula_dispatch (pool_continuum pool) (ncontinuum pool) hash
      | DIST_RANDOM \<Rightarrow> random_dispatch r (pool_continuum pool) (ncontinuum pool) hash)"

lemma dist_dispatch_simps:
  "pool_dist pool = DIST_KETAMA \<Longrightarrow> dist_dispatch pool = ketama.disp_of pool"
  "pool_dist pool = DIST_MODULA \<Longrightarrow> dist_dispatch pool = modula.disp_of pool"
  "pool_dist pool = DIST_RANDOM \<Longrightarrow> dist_dispatch pool = random.disp_of pool"
  by (simp_all add: dist_dispatch_def fun_eq_iff)

text \<open>The queue of connections of a server agrees with its counter and stays within the limit.\<close>

definition conns_ok :: "u32 \<Rightarrow> server \<Rightarrow> bool" where
  "conns_ok limit s \<longleftrightarrow>
     distinct (s_conn_q s) \<and> length (s_conn_q s) = unat (ns_conn_q s) \<and> ns_conn_q s \<le> limit"

definition pool_inv :: "server_pool \<Rightarrow> bool" where
  "pool_inv pool \<longleftrightarrow>
     conf_ok pool \<and> slots_ok pool \<and> health (dist_dispatch pool) pool \<and>
     (\<forall>s \<in> set (servers pool). conns_ok (server_connections pool) s)"

text \<open>What a rebuild needs of the pool.\<close>

definition pool_wf :: "server_pool \<Rightarrow> bool" where
  "pool_wf pool \<longleftrightarrow>
     conf_ok pool \<and> slots_ok pool \<and> (\<forall>s \<in> set (servers pool). conns_ok (server_connections pool) s)"

lemma pool_inv_eq: "pool_inv pool \<longleftrightarrow> pool_wf pool \<and> health (dist_dispatch pool) pool"
  by (auto simp: pool_inv_def pool_wf_def)

lemma refresh_more [simp]:
  "conns_ok limit (refresh auto t s) = conns_ok limit s" "ketama_server_ok (refresh auto t s) = ketama_server_ok s"
  by (simp_all add: refresh_def conns_ok_def ketama_server_ok_def)

lemma same_scan_conf:
  assumes "same_scan env pool pool'"
  shows "pool_dist pool' = pool_dist pool" "conf_ok pool' = conf_ok pool"
    "(\<forall>s \<in> set (servers pool'). conns_ok (server_connections pool') s) =
     (\<forall>s \<in> set (servers pool). conns_ok (server_connections pool) s)"
  using assms by (auto simp: same_scan_def same_conf_def conf_ok_def comp_def)

lemma server_pool_run_ok:
  assumes "env_ok env" "pool_wf pool"
  shows "\<exists>pool'. server_pool_run env pool = Inr (NC_OK, pool') \<and> pool_inv pool' \<and> same_scan env pool pool'"
proof -
  have wf: "conf_ok pool" "slots_ok pool" using assms(2) by (simp_all add: pool_wf_def)
  have "\<exists>pool'. server_pool_run env pool = Inr (NC_OK, pool') \<and> slots_ok pool' \<and>
      health (dist_dispatch pool') pool' \<and> same_scan env pool pool'"
  proof (cases "pool_dist pool")
    case DIST_KETAMA
    with ketama.rebuild [OF assms(1) wf] show ?thesis
      by (auto simp: server_pool_run_def dist_dispatch_simps same_scan_conf)
  next
    case DIST_MODULA
    with modula.rebuild [OF assms(1) wf] show ?thesis
      by (auto simp: server_pool_run_def dist_dispatch_simps same_scan_conf)
  next
    case DIST_RANDOM
    with random.rebuild [OF assms(1) wf] show ?thesis
      by (auto simp: server_pool_run_def dist_dispatch_simps same_scan_conf)
  qed
  then show ?thesis
    using assms(2) same_scan_conf by (auto simp: pool_inv_def pool_wf_def)
qed

section \<open>The operations keep the invariant\<close>

text \<open>A change to one server that keeps what the invariant says of it.\<close>

definition same_server :: "server \<Rightarrow> server \<Rightarrow> bool" where
  "same_server s s' \<longleftrightarrow> weight s' = weight s \<and> name s' = name s \<and> pname s' = pname s"

lemma sum_list_update_same:
  assumes "i < length xs" "f x = (f (xs ! i) :: nat)"
  shows "(\<Sum>y\<leftarrow>xs[i := x]. f y) = (\<Sum>y\<leftarrow>xs. f y)"
proof -
  have "map f (xs[i := x]) = map f xs" using assms by (simp add: map_update list_update_same_conv)
  then show ?thesis by simp
qed

lemma pool_wf_update:
  assumes "pool_wf pool" "i < length (servers pool)" "same_server (servers pool ! i) s"
    "conns_ok (server_connections pool) s"
  shows "pool_wf (pool\<lparr>servers := (servers pool)[i := s]\<rparr>)"
proof -
  have "servers pool ! i \<in> set (servers pool)" using assms(2) by simp
  then show ?thesis
    using assms sum_list_update_same [OF assms(2), of "\<lambda>s. unat (weight s)" s]
    by (auto simp: pool_wf_def conf_ok_def slots_ok_def continuum_slots_def same_server_def ketama_server_ok_def
        dest!: set_update_subset_insert [THEN subsetD])
qed

lemma health_update:
  assumes "health disp pool" "i < length (servers pool)"
    "next_retry s = next_retry (servers pool ! i) \<or> next_retry s = 0"
  shows "health disp (pool\<lparr>servers := (servers pool)[i := s]\<rparr>)"
proof -
  let ?ss = "(servers pool)[i := s]"
  have retry: "next_retry (?ss ! j) = next_retry (servers pool ! j) \<or> next_retry (?ss ! j) = 0" if "j < length (servers pool)" for j
    using assms(2,3) that by (cases "i = j") auto
  have "\<exists>s \<in> set ?ss. next_retry s \<le> next_rebuild pool"
    if "s' \<in> set (servers pool)" "next_retry s' \<le> next_rebuild pool" "0 < next_rebuild pool" for s'
  proof -
    from that(1) obtain j where "j < length (servers pool)" "servers pool ! j = s'" by (auto simp: in_set_conv_nth)
    with retry [of j] that show ?thesis by (intro bexI [of _ "?ss ! j"]) auto
  qed
  moreover have "routes disp pool \<Longrightarrow> routes disp (pool\<lparr>servers := ?ss\<rparr>)"
    using retry unfolding routes_def by simp metis
  moreover have "\<forall>s \<in> set ?ss. auto_eject_hosts pool \<and> next_retry s \<noteq> 0 \<longrightarrow>
      0 < next_rebuild pool \<and> next_rebuild pool \<le> next_retry s"
    using assms(1) retry by (auto simp: health_def in_set_conv_nth) (metis nth_mem)+
  ultimately show ?thesis
    using assms(1) by (auto simp: health_def)
qed

lemma dist_dispatch_servers [simp]: "dist_dispatch (pool\<lparr>servers := ss\<rparr>) = dist_dispatch pool"
  by (simp add: dist_dispatch_def fun_eq_iff split: dist_type.split)

lemma pool_inv_update:
  assumes "pool_inv pool" "i < length (servers pool)" "same_server (servers pool ! i) s"
    "conns_ok (server_connections pool) s" "next_retry s = next_retry (servers pool ! i) \<or> next_retry s = 0"
  shows "pool_inv (pool\<lparr>servers := (servers pool)[i := s]\<rparr>)"
  using assms pool_wf_update health_update by (simp add: pool_inv_eq)

lemma pool_inv_conns:
  "pool_inv pool \<Longrightarrow> i < length (servers pool) \<Longrightarrow> conns_ok (server_connections pool) (servers pool ! i)"
  by (simp add: pool_inv_def)

lemma server_ok_inv:
  assumes "pool_inv pool" "i < length (servers pool)"
  shows "pool_inv (server_ok i pool)"
  using assms pool_inv_conns [OF assms]
  by (auto simp: server_ok_def Let_def same_server_def conns_ok_def intro!: pool_inv_update)

text \<open>The connections of the servers, which only \<open>server_ref\<close>, \<open>server_unref\<close> and \<open>server_conn\<close> change.\<close>

definition same_conns :: "server_pool \<Rightarrow> server_pool \<Rightarrow> bool" where
  "same_conns pool pool' \<longleftrightarrow>
     map s_conn_q (servers pool') = map s_conn_q (servers pool) \<and> same_conf pool pool'"

lemma same_conns_refl [simp]: "same_conns pool pool"
  by (simp add: same_conns_def same_conf_def)

lemma same_conns_trans: "same_conns a b \<Longrightarrow> same_conns b c \<Longrightarrow> same_conns a c"
  by (simp add: same_conns_def same_conf_def)

lemma same_conns_scan: "same_scan env pool pool' \<Longrightarrow> same_conns pool pool'"
  by (simp add: same_scan_def same_conns_def comp_def refresh_def if_distrib cong: if_cong)

lemma same_conns_update:
  assumes "s_conn_q s = s_conn_q (servers pool ! i)"
  shows "same_conns pool (pool\<lparr>servers := (servers pool)[i := s]\<rparr>)"
proof (cases "i < length (servers pool)")
  case True
  then have "map s_conn_q (servers pool) ! i = s_conn_q s" using assms by simp
  then have "(map s_conn_q (servers pool))[i := s_conn_q s] = map s_conn_q (servers pool)"
    by (metis list_update_id)
  then show ?thesis by (simp add: same_conns_def same_conf_def map_update)
qed (simp add: same_conns_def same_conf_def list_update_beyond)

lemma same_conns_nth:
  assumes "same_conns pool pool'"
  shows "length (servers pool') = length (servers pool)" "server_connections pool' = server_connections pool"
    "i < length (servers pool) \<Longrightarrow> s_conn_q (servers pool' ! i) = s_conn_q (servers pool ! i)"
proof -
  have eq: "map s_conn_q (servers pool') = map s_conn_q (servers pool)" using assms by (simp add: same_conns_def)
  then show len: "length (servers pool') = length (servers pool)" by (rule map_eq_imp_length_eq)
  show "server_connections pool' = server_connections pool" using assms by (simp add: same_conns_def same_conf_def)
  show "s_conn_q (servers pool' ! i) = s_conn_q (servers pool ! i)" if "i < length (servers pool)"
    using arg_cong [OF eq, of "\<lambda>xs. xs ! i"] that len by simp
qed

text \<open>\<open>server_failure\<close> on its two branches: below the limit it only counts, at the limit it rebuilds.\<close>

definition counted :: "nat \<Rightarrow> server_pool \<Rightarrow> server_pool" where
  "counted i pool = pool\<lparr>servers := (servers pool)[i := (servers pool ! i)
     \<lparr>failure_count := failure_count (servers pool ! i) + 1\<rparr>]\<rparr>"

definition ejected :: "int \<Rightarrow> nat \<Rightarrow> server_pool \<Rightarrow> server_pool" where
  "ejected t i pool = pool\<lparr>servers := (servers pool)[i := (servers pool ! i)
     \<lparr>failure_count := 0, next_retry := t + server_retry_timeout pool\<rparr>]\<rparr>"

lemma server_failure_eq:
  assumes "i < length (servers pool)"
  shows "server_failure env t i pool =
     (if \<not> auto_eject_hosts pool then Inr pool
      else if failure_count (servers pool ! i) + 1 < server_failure_limit pool \<or> t < 0 then Inr (counted i pool)
      else bind_fault (server_pool_run env (ejected t i pool)) (\<lambda>(_, pool). Inr pool))"
  using assms by (simp add: server_failure_def counted_def ejected_def Let_def)

lemma counted_inv:
  assumes "pool_inv pool" "i < length (servers pool)"
  shows "pool_inv (counted i pool)" "same_conns pool (counted i pool)"
  using pool_inv_conns [OF assms] unfolding counted_def
  by (auto intro!: pool_inv_update same_conns_update assms simp: same_server_def conns_ok_def)

lemma ejected_wf:
  assumes "pool_inv pool" "i < length (servers pool)"
  shows "pool_wf (ejected t i pool)" "same_conns pool (ejected t i pool)"
  using pool_inv_conns [OF assms] assms unfolding ejected_def
  by (auto intro!: pool_wf_update same_conns_update simp: same_server_def conns_ok_def pool_inv_eq)

lemma server_failure_inv:
  assumes "pool_inv pool" "i < length (servers pool)" "env_ok env"
  shows "\<exists>pool'. server_failure env t i pool = Inr pool' \<and> pool_inv pool' \<and> same_conns pool pool'"
proof -
  note ej = ejected_wf [OF assms(1,2), of t]
  obtain pool' where "server_pool_run env (ejected t i pool) = Inr (NC_OK, pool')" "pool_inv pool'"
    "same_scan env (ejected t i pool) pool'"
    using server_pool_run_ok [OF assms(3) ej(1)] by blast
  with assms(1) counted_inv [OF assms(1,2)] same_conns_trans [OF ej(2) same_conns_scan]
  show ?thesis by (auto simp: server_failure_eq [OF assms(2)])
qed

lemma server_pool_update_inv:
  assumes "pool_inv pool" "env_ok env"
  shows "\<exists>st pool'. server_pool_update env t pool = Inr (st, pool') \<and> pool_inv pool' \<and> same_conns pool pool'"
proof -
  have "pool_wf pool" using assms(1) by (simp add: pool_inv_eq)
  from server_pool_run_ok [OF assms(2) this] assms(1) show ?thesis
    by (auto simp: server_pool_update_def intro: same_conns_scan)
qed

text \<open>After an update that succeeds, every hash goes to a server that is not ejected.\<close>

lemma server_pool_update_routes:
  assumes "pool_inv pool" "env_ok env" "t \<le> now env" "server_pool_update env t pool = Inr (NC_OK, pool')"
  shows "nlive_server pool' \<noteq> 0"
proof (cases "server_pool_run env pool = Inr (NC_OK, pool') \<and> auto_eject_hosts pool \<and> next_rebuild pool < t")
  case True
  have "pool_wf pool" using assms(1) by (simp add: pool_inv_eq)
  then have scan: "same_scan env pool pool'"
    using server_pool_run_ok [OF assms(2)] True by fastforce
  have "\<exists>s \<in> set (servers pool). next_retry s \<le> now env"
  proof (cases "nlive_server pool = 0")
    case True
    then obtain s where "s \<in> set (servers pool)" "next_retry s \<le> next_rebuild pool"
      using assms(1) by (auto simp: pool_inv_eq health_def)
    with \<open>_ \<and> _ \<and> _\<close> assms(3) show ?thesis by (intro bexI [of _ s]) auto
  next
    case False
    then have "routes (dist_dispatch pool) pool" using assms(1) by (simp add: pool_inv_eq health_def)
    then obtain j where "j < length (servers pool)" "next_retry (servers pool ! j) = 0"
      using True unfolding routes_def by blast
    with assms(2) show ?thesis by (intro bexI [of _ "servers pool ! j"]) (simp_all add: env_ok_def)
  qed
  then have "live_count (auto_eject_hosts pool) (now env) (servers pool) \<noteq> 0"
    by (auto simp: live_count_def filter_empty_conv live_def)
  with nlive_nonzero [OF this] assms(1) scan show ?thesis
    by (simp add: pool_inv_def conf_ok_def same_scan_def)
next
  case False
  then show ?thesis
    using assms(1,4) by (auto simp: server_pool_update_def pool_inv_eq health_def split: if_splits)
qed

lemma server_pool_idx_routes:
  assumes "pool_inv pool" "nlive_server pool \<noteq> 0"
  shows "\<exists>i < length (servers pool). (auto_eject_hosts pool \<longrightarrow> next_retry (servers pool ! i) = 0) \<and>
    server_pool_idx r pool key = Inr (word_of_nat i) \<and> server_pool_server r pool key = Inr i"
proof -
  have "\<exists>hash. server_pool_idx r pool key = dist_dispatch pool r hash"
    by (cases "pool_dist pool") (auto simp: server_pool_idx_def pool_dispatch_def dist_dispatch_def)
  moreover have "routes (dist_dispatch pool) pool" "length (servers pool) \<le> 2 ^ 14"
    using assms by (simp_all add: pool_inv_def conf_ok_def health_def)
  ultimately show ?thesis
    by (fastforce simp: routes_def server_pool_server_def unat_of_nat_u32)
qed

lemma server_conn_ok:
  assumes "conns_ok limit s" "0 < limit" "\<And>c. fresh_conn = Some c \<Longrightarrow> c \<notin> set (s_conn_q s)"
  shows "\<exists>conn s'. server_conn fresh_conn limit s = Inr (conn, s') \<and> conns_ok limit s' \<and> same_server s s' \<and>
    next_retry s' = next_retry s \<and> (case conn of None \<Rightarrow> fresh_conn = None | Some c \<Rightarrow> c \<in> set (s_conn_q s'))"
proof (cases "ns_conn_q s < limit")
  case True
  then have less: "unat (ns_conn_q s) < unat limit" by (simp add: word_less_nat_alt)
  then have "unat (ns_conn_q s + 1) = unat (ns_conn_q s) + 1"
    using unsigned_less [of limit, where 'a = nat] by (intro unat_add_1) simp
  moreover from this less have "ns_conn_q s + 1 \<le> limit" by (simp add: word_le_nat_alt)
  ultimately have "unat (ns_conn_q s + 1) = unat (ns_conn_q s) + 1" "ns_conn_q s + 1 \<le> limit" .
  with True assms show ?thesis
    by (auto simp: server_conn_def server_ref_def conns_ok_def same_server_def split: option.split)
next
  case False
  with assms have "s_conn_q s \<noteq> []"
    by (auto simp: conns_ok_def word_less_nat_alt)
  with False assms show ?thesis
    by (cases "s_conn_q s") (auto simp: server_conn_def conns_ok_def same_server_def)
qed

lemma server_unref_ok:
  assumes "conns_ok limit s" "conn \<in> set (s_conn_q s)"
  shows "conns_ok limit (server_unref conn s)"
proof -
  have "ns_conn_q s \<noteq> 0" using assms by (cases "s_conn_q s") (auto simp: conns_ok_def)
  then have "unat (ns_conn_q s - 1) = unat (ns_conn_q s) - 1" by (simp add: unat_minus_one)
  with assms show ?thesis
    by (auto simp: conns_ok_def server_unref_def length_remove1 word_le_nat_alt)
qed

lemma server_close_inv:
  assumes "pool_inv pool" "i < length (servers pool)" "conn \<in> set (s_conn_q (servers pool ! i))" "env_ok env"
  shows "\<exists>pool'. server_close env t i conn pool = Inr pool' \<and> pool_inv pool'"
proof -
  obtain pool' where fail: "server_failure env t i pool = Inr pool'" "pool_inv pool'" "same_conns pool pool'"
    using server_failure_inv [OF assms(1,2,4)] by blast
  note same = same_conns_nth [OF fail(3)]
  then have i: "i < length (servers pool')" using assms(2) by simp
  have "conns_ok (server_connections pool') (server_unref conn (servers pool' ! i))"
    using same(3) [OF assms(2)] assms(3) pool_inv_conns [OF fail(2) i]
    by (intro server_unref_ok) simp_all
  then have "pool_inv (pool'\<lparr>servers := (servers pool')[i := server_unref conn (servers pool' ! i)]\<rparr>)"
    by (intro pool_inv_update fail(2) i) (simp_all add: same_server_def server_unref_def)
  with fail(1) show ?thesis by (simp add: server_close_def)
qed

definition fresh_ok :: "nat option \<Rightarrow> server_pool \<Rightarrow> bool" where
  "fresh_ok fresh_conn pool \<longleftrightarrow>
     (\<forall>c. fresh_conn = Some c \<longrightarrow> (\<forall>s \<in> set (servers pool). c \<notin> set (s_conn_q s)))"

lemma server_pool_update_refuses:
  assumes "pool_inv pool" "env_ok env" "server_pool_update env t pool = Inr (st, pool')" "st \<noteq> NC_OK"
  shows "t < 0 \<or> nlive_server pool = 0 \<and> t \<le> next_rebuild pool"
proof -
  have "pool_wf pool" using assms(1) by (simp add: pool_inv_eq)
  with server_pool_run_ok [OF assms(2) this] assms(3,4) show ?thesis
    by (auto simp: server_pool_update_def split: if_splits)
qed

text \<open>
  The result that \<open>server_pool_conn\<close> may give at time \<open>t\<close>: a connection to a server of the pool that
  is not ejected, or none, because there is no memory for one or because every server is ejected
  until after \<open>t\<close>.
\<close>

definition good_conn :: "int \<Rightarrow> nat option \<Rightarrow> server_pool \<Rightarrow> (nat \<times> nat) option \<Rightarrow> server_pool \<Rightarrow> bool" where
  "good_conn t fresh_conn pool res pool' \<longleftrightarrow>
     (case res of
        None \<Rightarrow> fresh_conn = None \<or> t < 0 \<or> nlive_server pool = 0 \<and> t \<le> next_rebuild pool
      | Some (i, c) \<Rightarrow>
          i < length (servers pool') \<and> (auto_eject_hosts pool' \<longrightarrow> next_retry (servers pool' ! i) = 0) \<and>
          c \<in> set (s_conn_q (servers pool' ! i)))"

lemma server_pool_conn_inv:
  assumes "pool_inv pool" "env_ok env" "t \<le> now env" "fresh_ok fresh_conn pool" "conn_ok \<or> env_ok env2"
  shows "\<exists>res pool'. server_pool_conn env t r fresh_conn conn_ok env2 t2 key pool = Inr (res, pool') \<and>
    pool_inv pool' \<and> (conn_ok \<longrightarrow> good_conn t fresh_conn pool res pool')"
proof -
  obtain st pool1 where upd: "server_pool_update env t pool = Inr (st, pool1)" "pool_inv pool1" "same_conns pool pool1"
    using server_pool_update_inv [OF assms(1,2)] by blast
  show ?thesis
  proof (cases "st = NC_OK")
    case True
    then have "nlive_server pool1 \<noteq> 0"
      using server_pool_update_routes [OF assms(1-3)] upd(1) by blast
    from server_pool_idx_routes [OF upd(2) this, of r key] obtain i where
      i: "i < length (servers pool1)" "auto_eject_hosts pool1 \<longrightarrow> next_retry (servers pool1 ! i) = 0"
        "server_pool_server r pool1 key = Inr i"
      by blast
    have fresh: "c \<notin> set (s_conn_q (servers pool1 ! i))" if "fresh_conn = Some c" for c
      using assms(4) that i(1) same_conns_nth [OF upd(3)] by (auto simp: fresh_ok_def)
    have "0 < server_connections pool1" using upd(2) by (simp add: pool_inv_def conf_ok_def)
    from server_conn_ok [OF pool_inv_conns [OF upd(2) i(1)] this fresh] obtain conn s where
      s: "server_conn fresh_conn (server_connections pool1) (servers pool1 ! i) = Inr (conn, s)"
        "conns_ok (server_connections pool1) s" "same_server (servers pool1 ! i) s"
        "next_retry s = next_retry (servers pool1 ! i)"
        "case conn of None \<Rightarrow> fresh_conn = None | Some c \<Rightarrow> c \<in> set (s_conn_q s)"
      by blast
    define pool2 where "pool2 = pool1\<lparr>servers := (servers pool1)[i := s]\<rparr>"
    have inv2: "pool_inv pool2"
      unfolding pool2_def by (intro pool_inv_update upd(2) i(1) s) (simp add: s(4))
    have i2: "i < length (servers pool2)" "servers pool2 ! i = s" "auto_eject_hosts pool2 = auto_eject_hosts pool1"
      using i(1) by (simp_all add: pool2_def)
    show ?thesis
    proof (cases conn)
      case None
      with True upd(1) i(3) s inv2 show ?thesis
        by (simp add: server_pool_conn_def good_conn_def Let_def flip: pool2_def)
    next
      case (Some c)
      then have "\<exists>pool'. server_close env2 t2 i c pool2 = Inr pool' \<and> pool_inv pool'" if "\<not> conn_ok"
        using that assms(5) s(5) i2 by (intro server_close_inv inv2) auto
      with Some True upd(1) i(2,3) s i2 inv2 show ?thesis
        by (auto simp: server_pool_conn_def good_conn_def Let_def simp flip: pool2_def)
    qed
  next
    case False
    with upd server_pool_update_refuses [OF assms(1,2) upd(1)] show ?thesis
      by (simp add: server_pool_conn_def good_conn_def)
  qed
qed

section \<open>The pools that the proxy reaches\<close>

text \<open>
  A pool starts with the rebuild of \<open>server_pool_init\<close>; then requests ask for connections, responses
  report a server as well, and connections close.  The clock does not step back between two
  readings within one operation.
\<close>

inductive reachable :: "server_pool \<Rightarrow> bool" where
  start: "env_ok env \<Longrightarrow> pool_wf pool \<Longrightarrow> server_pool_run env pool = Inr (st, pool') \<Longrightarrow> reachable pool'"
| request: "reachable pool \<Longrightarrow> env_ok env \<Longrightarrow> t \<le> now env \<Longrightarrow> fresh_ok fresh_conn pool \<Longrightarrow> env_ok env2 \<Longrightarrow>
    server_pool_conn env t r fresh_conn conn_ok env2 t2 key pool = Inr (res, pool') \<Longrightarrow> reachable pool'"
| response: "reachable pool \<Longrightarrow> i < length (servers pool) \<Longrightarrow> reachable (server_ok i pool)"
| closed: "reachable pool \<Longrightarrow> i < length (servers pool) \<Longrightarrow> conn \<in> set (s_conn_q (servers pool ! i)) \<Longrightarrow> env_ok env \<Longrightarrow>
    server_close env t i conn pool = Inr pool' \<Longrightarrow> reachable pool'"

lemma reachable_inv: "reachable pool \<Longrightarrow> pool_inv pool"
proof (induction rule: reachable.induct)
  case (start env pool st pool')
  with server_pool_run_ok [of env pool] show ?case by auto
next
  case (request pool env t fresh_conn env2 r conn_ok t2 key res pool')
  with server_pool_conn_inv [of pool env t fresh_conn conn_ok env2 r t2 key] show ?case by auto
next
  case (response pool i)
  then show ?case by (intro server_ok_inv)
next
  case (closed pool i conn env t pool')
  with server_close_inv [of pool i conn env t] show ?case by auto
qed

text \<open>
  A reachable pool, for the instances below: the three servers of the demonstration pool, the first with a
  connection and one failure behind it.
\<close>

definition demo_start :: server_pool where
  "demo_start = (demo_pool DIST_MODULA)\<lparr>servers :=
     [(demo_server 1 0)\<lparr>ns_conn_q := 1, s_conn_q := [3], failure_count := 1\<rparr>, demo_server 1 500, demo_server 3 50]\<rparr>"

definition demo_run :: server_pool where
  "demo_run = (case server_pool_run demo_env demo_start of Inr (st, pool) \<Rightarrow> pool | Inl e \<Rightarrow> demo_start)"

definition demo_later :: "int \<Rightarrow> dist_env" where
  "demo_later t = demo_env\<lparr>now := t\<rparr>"

lemma demo_later_ok [simp]: "0 \<le> t \<Longrightarrow> env_ok (demo_later t)" "now (demo_later t) = t" "env_ok demo_env"
  using stable.sorts_points_axioms by (simp_all add: env_ok_def demo_later_def demo_env_def)

lemma demo_reachable:
  "reachable demo_run" "auto_eject_hosts demo_run" "next_rebuild demo_run = 500"
  "servers demo_run =
    [(demo_server 1 0)\<lparr>ns_conn_q := 1, s_conn_q := [3], failure_count := 1\<rparr>, demo_server 1 500, demo_server 3 0]"
  "server_retry_timeout demo_run = 30000000" "server_failure_limit demo_run = 2" "nlive_server demo_run = 2"
proof -
  have wf: "pool_wf demo_start"
    by (simp add: pool_wf_def demo_start_def demo_pool_def demo_server_def conf_ok_def slots_ok_def continuum_slots_def conns_ok_def)
  obtain pool' where run: "server_pool_run demo_env demo_start = Inr (NC_OK, pool')" "same_scan demo_env demo_start pool'"
    using server_pool_run_ok [OF demo_later_ok(3) wf] by blast
  then have eq: "demo_run = pool'" by (simp add: demo_run_def)
  show "reachable demo_run" using start [OF demo_later_ok(3) wf run(1)] by (simp add: eq)
  show "auto_eject_hosts demo_run" "next_rebuild demo_run = 500"
    "servers demo_run =
      [(demo_server 1 0)\<lparr>ns_conn_q := 1, s_conn_q := [3], failure_count := 1\<rparr>, demo_server 1 500, demo_server 3 0]"
    "server_retry_timeout demo_run = 30000000" "server_failure_limit demo_run = 2" "nlive_server demo_run = 2"
    using run(2) by (simp_all add: eq same_scan_def same_conf_def scanned_def demo_start_def demo_pool_def
        demo_server_def demo_env_def refresh_def live_def live_count_def earliest_def)
qed



text \<open>
  C37: no server of a pool ever has more connections than \<open>server_connections\<close>, and the counter
  of a server is the length of its queue.
\<close>

theorem server_connections_bound:
  assumes "reachable pool" "s \<in> set (servers pool)"
  shows "length (s_conn_q s) \<le> unat (server_connections pool) \<and> unat (ns_conn_q s) = length (s_conn_q s) \<and>
    distinct (s_conn_q s)"
  using reachable_inv [OF assms(1)] assms(2) by (auto simp: pool_inv_def conns_ok_def word_le_nat_alt)

theorem server_connections_bound_witness:
  "length (s_conn_q (servers demo_run ! 0)) \<le> unat (server_connections demo_run)"
  using server_connections_bound [OF demo_reachable(1), of "servers demo_run ! 0"] demo_reachable(4) by simp

lemma same_scan_all_live:
  assumes "same_scan env pool pool'" "auto_eject_hosts pool" "\<forall>s \<in> set (servers pool). next_retry s \<le> now env"
    "length (servers pool) \<le> 2 ^ 14"
  shows "unat (nlive_server pool') = length (servers pool')" "next_rebuild pool' = 0" "\<forall>s \<in> set (servers pool'). next_retry s = 0"
  using assms by (auto simp: same_scan_def scanned_def Let_def live_count_def live_def refresh_def earliest_def unat_of_nat_u32)

text \<open>
  C11: ejected servers return.  Once the clock has passed the next rebuild and every retry time, the next
  request, which calls \<open>server_pool_update\<close>, finds every server live and none ejected.
\<close>

theorem server_pool_recovers:
  assumes "reachable pool" "env_ok env" "auto_eject_hosts pool" "0 \<le> t" "t \<le> now env" "next_rebuild pool < t"
    "\<forall>s \<in> set (servers pool). next_retry s \<le> t"
  shows "\<exists>pool'. server_pool_update env t pool = Inr (NC_OK, pool') \<and>
    length (servers pool') = length (servers pool) \<and> unat (nlive_server pool') = length (servers pool') \<and>
    next_rebuild pool' = 0 \<and> (\<forall>s \<in> set (servers pool'). next_retry s = 0)"
proof (cases "next_rebuild pool = 0")
  case True
  with reachable_inv [OF assms(1)] assms(3) show ?thesis
    by (fastforce simp: server_pool_update_def pool_inv_eq health_def)
next
  case False
  have wf: "pool_wf pool" "length (servers pool) \<le> 2 ^ 14"
    using reachable_inv [OF assms(1)] by (simp_all add: pool_inv_eq pool_wf_def conf_ok_def)
  then obtain pool' where run: "server_pool_run env pool = Inr (NC_OK, pool')" "same_scan env pool pool'"
    using server_pool_run_ok [OF assms(2)] by blast
  have "\<forall>s \<in> set (servers pool). next_retry s \<le> now env" using assms(5,7) by auto
  note all = same_scan_all_live [OF run(2) assms(3) this wf(2)]
  have "server_pool_update env t pool = Inr (NC_OK, pool')"
    using False assms(3,4,6) run(1) by (simp add: server_pool_update_def)
  with all run(2) show ?thesis by (auto simp: same_scan_def)
qed

theorem server_pool_recovers_witness:
  "\<exists>pool'. server_pool_update (demo_later 600) 600 demo_run = Inr (NC_OK, pool') \<and> unat (nlive_server pool') = 3"
  using server_pool_recovers [OF demo_reachable(1), of "demo_later 600" 600] demo_reachable(2-4)
  by (auto simp: demo_server_def)

lemma server_pool_idx_servers:
  "length ss = length (servers pool) \<Longrightarrow> server_pool_idx r (pool\<lparr>servers := ss\<rparr>) key = server_pool_idx r pool key"
  by (simp add: server_pool_idx_def pool_dispatch_def server_pool_hash_def split: dist_type.split)

lemma run_ejected:
  assumes "pool_inv pool" "env_ok env" "auto_eject_hosts pool" "i < length (servers pool)"
    "now env < t + server_retry_timeout pool" "server_pool_run env (ejected t i pool) = Inr (st, pool')"
  shows "failure_count (servers pool' ! i) = 0" "next_retry (servers pool' ! i) = t + server_retry_timeout pool"
    "next_rebuild pool' \<noteq> 0" "next_rebuild pool' \<le> t + server_retry_timeout pool"
    "nlive_server pool' \<noteq> 0 \<Longrightarrow> server_pool_idx r pool' key \<noteq> Inr (word_of_nat i)"
proof -
  have pool': "pool_inv pool'" "same_scan env (ejected t i pool) pool'"
    using server_pool_run_ok [OF assms(2) ejected_wf(1) [OF assms(1,4), of t]] assms(6) by auto
  then show s: "failure_count (servers pool' ! i) = 0" "next_retry (servers pool' ! i) = t + server_retry_timeout pool"
    using assms(3-5) by (simp_all add: same_scan_def ejected_def refresh_def)
  have i: "i < length (servers pool')" "auto_eject_hosts pool'" "length (servers pool') \<le> 2 ^ 14"
    using pool' assms(3,4) by (simp_all add: same_scan_def same_conf_def ejected_def pool_inv_def conf_ok_def)
  have pos: "next_retry (servers pool' ! i) \<noteq> 0"
    using s(2) assms(2,5) by (simp add: env_ok_def)
  then have "0 < next_rebuild pool' \<and> next_rebuild pool' \<le> next_retry (servers pool' ! i)"
    using pool'(1) i(1,2) unfolding pool_inv_eq health_def by (meson nth_mem)
  then show "next_rebuild pool' \<noteq> 0" "next_rebuild pool' \<le> t + server_retry_timeout pool"
    by (simp_all add: s(2))
  show "server_pool_idx r pool' key \<noteq> Inr (word_of_nat i)" if live: "nlive_server pool' \<noteq> 0"
  proof -
    obtain j where j: "j < length (servers pool')" "next_retry (servers pool' ! j) = 0"
      "server_pool_idx r pool' key = Inr (word_of_nat j)"
      using server_pool_idx_routes [OF pool'(1) live, of r key] i(2) by blast
    then have "i \<noteq> j" using pos by auto
    moreover have "unat (word_of_nat i :: u32) = i" "unat (word_of_nat j :: u32) = j"
      using i(1,3) j(1) by (simp_all add: unat_of_nat_u32)
    ultimately have "(word_of_nat i :: u32) \<noteq> word_of_nat j" by metis
    with j(3) show ?thesis by simp
  qed
qed



section \<open>Hash tags and the rotation of connections\<close>

lemma nc_strchr_append: "c \<notin> set a \<Longrightarrow> nc_strchr (a @ c # b) c = Some (length a)"
  by (induction a) auto

lemma nc_strchr_None: "nc_strchr a c = None \<longleftrightarrow> c \<notin> set a"
  by (induction a) auto



text \<open>Successive calls of \<open>server_conn\<close> and the connections they return.\<close>

fun server_conns :: "nat \<Rightarrow> u32 \<Rightarrow> server \<Rightarrow> fault + nat list \<times> server" where
  "server_conns 0 limit s = Inr ([], s)"
| "server_conns (Suc n) limit s =
     bind_fault (server_conn None limit s) (\<lambda>(conn, s).
     bind_fault (server_conns n limit s) (\<lambda>(conns, s).
     Inr (case conn of None \<Rightarrow> conns | Some c \<Rightarrow> c # conns, s)))"

lemma server_conns_rotate:
  assumes "limit \<le> ns_conn_q s" "s_conn_q s = q @ rest"
  shows "server_conns (length q) limit s = Inr (q, s\<lparr>s_conn_q := rest @ q\<rparr>)"
  using assms
proof (induction q arbitrary: s rest)
  case (Cons c q)
  then show ?case
    using Cons.IH [of "s\<lparr>s_conn_q := (q @ rest) @ [c]\<rparr>" "rest @ [c]"] by (simp add: server_conn_def)
qed simp

text \<open>
  C39: a server with all its connections open uses them in turn: as many requests as there are connections
  use each of them once, in the order of the queue, and leave the queue as it was.
\<close>

theorem server_conn_round_robin:
  assumes "conns_ok limit s" "ns_conn_q s = limit"
  shows "server_conns (length (s_conn_q s)) limit s = Inr (s_conn_q s, s) \<and> distinct (s_conn_q s)"
  using server_conns_rotate [of limit s "s_conn_q s" "[]"] assms by (simp add: conns_ok_def)

lemma demo_conns: "conns_ok 2 ((demo_server 1 0)\<lparr>ns_conn_q := 2, s_conn_q := [4, 9]\<rparr>)"
  by (simp add: conns_ok_def)

theorem server_conn_round_robin_witness:
  "server_conns (Suc (Suc 0)) 2 ((demo_server 1 0)\<lparr>ns_conn_q := 2, s_conn_q := [4, 9]\<rparr>) =
     Inr ([4, 9], (demo_server 1 0)\<lparr>ns_conn_q := 2, s_conn_q := [4, 9]\<rparr>)"
  using server_conn_round_robin [OF demo_conns] by (simp del: server_conns.simps)

end
