(* ===== verification/NC_Mbuf.thy ===== *)
theory NC_Mbuf
  imports NC_Prelude
begin

text \<open>
  The buffers of src/src/nc_mbuf.c and the chains of them that hold a message, with the functions of
  src/src/nc_message.c that add to a chain.  An mbuf is the bytes between \<open>start\<close> and \<open>last\<close> and the
  offset of \<open>pos\<close>; \<open>cap\<close> is \<open>mbuf_data_size()\<close>, the distance of \<open>start\<close> and \<open>end\<close>.  The lists of
  free mbufs are not modelled: \<open>mem\<close> says whether memory is found.
\<close>

section \<open>nc_mbuf.c\<close>

record mbuf =
  mb_bytes :: bytes
  mb_pos :: nat

definition mbuf_get :: mbuf where
  "mbuf_get = \<lparr>mb_bytes = [], mb_pos = 0\<rparr>"

definition mbuf_rewind :: "mbuf \<Rightarrow> mbuf" where
  "mbuf_rewind b = b\<lparr>mb_pos := 0, mb_bytes := []\<rparr>"

definition mbuf_length :: "mbuf \<Rightarrow> nat" where
  "mbuf_length b = length (mb_bytes b) - mb_pos b"

definition mbuf_size :: "nat \<Rightarrow> mbuf \<Rightarrow> nat" where
  "mbuf_size cap b = cap - length (mb_bytes b)"

definition mbuf_empty :: "mbuf \<Rightarrow> bool" where
  "mbuf_empty b \<longleftrightarrow> mb_pos b = length (mb_bytes b)"

definition mbuf_full :: "nat \<Rightarrow> mbuf \<Rightarrow> bool" where
  "mbuf_full cap b \<longleftrightarrow> length (mb_bytes b) = cap"

definition mbuf_copy :: "nat \<Rightarrow> mbuf \<Rightarrow> bytes \<Rightarrow> fault + mbuf" where
  "mbuf_copy cap b xs =
     (if length (mb_bytes b) + length xs \<le> cap then Inr (b\<lparr>mb_bytes := mb_bytes b @ xs\<rparr>) else Inl OutOfBounds)"

text \<open>\<open>mbuf_split\<close> of the last mbuf of a chain, without a precopy handler, as every caller has it.\<close>

definition mbuf_split :: "bool \<Rightarrow> mbuf list \<Rightarrow> nat \<Rightarrow> (mbuf list \<times> mbuf) option" where
  "mbuf_split mem h p =
     (if mem
      then let b = last h
        in Some (butlast h @ [b\<lparr>mb_bytes := take p (mb_bytes b)\<rparr>], mbuf_get\<lparr>mb_bytes := drop p (mb_bytes b)\<rparr>)
      else None)"

section \<open>Chains\<close>

text \<open>
  The fields of \<open>struct msg\<close> that fragmentation and coalescing use.  A key is its bytes.  The type of
  the message is a parameter, as in the parsers.
\<close>

record 'ty chain =
  mhdr :: "mbuf list"
  mlen :: u32
  mkeys :: "bytes list"
  mnarg :: u32
  ctype :: 'ty
  frag_id :: u64
  nfrag :: u32

definition msg_ensure_mbuf :: "bool \<Rightarrow> nat \<Rightarrow> nat \<Rightarrow> 'ty chain \<Rightarrow> 'ty chain option" where
  "msg_ensure_mbuf mem cap len r =
     (if mhdr r = [] \<or> mbuf_size cap (last (mhdr r)) < len
      then if mem then Some (r\<lparr>mhdr := mhdr r @ [mbuf_get]\<rparr>) else None
      else Some r)"

text \<open>\<open>mbuf_copy\<close> into the last mbuf of a message, with the update of \<open>mlen\<close> that follows it.\<close>

definition copy_last :: "nat \<Rightarrow> bytes \<Rightarrow> 'ty chain \<Rightarrow> fault + 'ty chain" where
  "copy_last cap xs r =
     bind_fault (mbuf_copy cap (last (mhdr r)) xs) (\<lambda>b.
     Inr (r\<lparr>mhdr := butlast (mhdr r) @ [b], mlen := mlen r + word_of_nat (length xs)\<rparr>))"

definition msg_append :: "bool \<Rightarrow> nat \<Rightarrow> bytes \<Rightarrow> 'ty chain \<Rightarrow> fault + rstatus \<times> 'ty chain" where
  "msg_append mem cap xs r =
     (case msg_ensure_mbuf mem cap (length xs) r of
        None \<Rightarrow> Inr (NC_ENOMEM, r)
      | Some r \<Rightarrow> bind_fault (copy_last cap xs r) (\<lambda>r. Inr (NC_OK, r)))"

definition msg_prepend :: "bool \<Rightarrow> nat \<Rightarrow> bytes \<Rightarrow> 'ty chain \<Rightarrow> fault + rstatus \<times> 'ty chain" where
  "msg_prepend mem cap xs r =
     (if mem
      then bind_fault (mbuf_copy cap mbuf_get xs) (\<lambda>b.
        Inr (NC_OK, r\<lparr>mhdr := b # mhdr r, mlen := mlen r + word_of_nat (length xs)\<rparr>))
      else Inr (NC_ENOMEM, r))"

text \<open>\<open>xs\<close> is the formatted text; a text that does not fit into one mbuf is refused.\<close>

definition msg_prepend_format :: "bool \<Rightarrow> nat \<Rightarrow> bytes \<Rightarrow> 'ty chain \<Rightarrow> fault + rstatus \<times> 'ty chain" where
  "msg_prepend_format mem cap xs r =
     (if \<not> mem then Inr (NC_ENOMEM, r)
      else if xs = [] \<or> cap \<le> length xs then Inr (NC_ERROR, r)
      else Inr (NC_OK, r\<lparr>mhdr := mbuf_get\<lparr>mb_bytes := xs\<rparr> # mhdr r, mlen := mlen r + word_of_nat (length xs)\<rparr>))"

section \<open>The bytes of a chain\<close>

definition mbuf_data :: "mbuf \<Rightarrow> bytes" where
  "mbuf_data b = drop (mb_pos b) (mb_bytes b)"

definition bufs_data :: "mbuf list \<Rightarrow> bytes" where
  "bufs_data bs = concat (map mbuf_data bs)"

abbreviation msg_data :: "'ty chain \<Rightarrow> bytes" where
  "msg_data r \<equiv> bufs_data (mhdr r)"

definition mbuf_ok :: "nat \<Rightarrow> mbuf \<Rightarrow> bool" where
  "mbuf_ok cap b \<longleftrightarrow> mb_pos b \<le> length (mb_bytes b) \<and> length (mb_bytes b) \<le> cap"

definition bufs_ok :: "nat \<Rightarrow> mbuf list \<Rightarrow> bool" where
  "bufs_ok cap bs \<longleftrightarrow> (\<forall>b \<in> set bs. mbuf_ok cap b)"

lemma bufs_data_simps [simp]:
  "bufs_data [] = []" "bufs_data (b # bs) = mbuf_data b @ bufs_data bs" "bufs_data (bs @ cs) = bufs_data bs @ bufs_data cs"
  by (simp_all add: bufs_data_def)

lemma bufs_ok_simps [simp]:
  "bufs_ok cap []" "bufs_ok cap (b # bs) \<longleftrightarrow> mbuf_ok cap b \<and> bufs_ok cap bs"
  "bufs_ok cap (bs @ cs) \<longleftrightarrow> bufs_ok cap bs \<and> bufs_ok cap cs"
  by (auto simp: bufs_ok_def)

lemma mbuf_get_simps [simp]:
  "mbuf_data mbuf_get = []" "mbuf_ok cap mbuf_get" "mbuf_size cap mbuf_get = cap"
  "mbuf_data (mbuf_get\<lparr>mb_bytes := xs\<rparr>) = xs" "mbuf_ok cap (mbuf_get\<lparr>mb_bytes := xs\<rparr>) \<longleftrightarrow> length xs \<le> cap"
  by (simp_all add: mbuf_get_def mbuf_data_def mbuf_ok_def mbuf_size_def)

lemma length_mbuf_data: "length (mbuf_data b) = mbuf_length b"
  by (simp add: mbuf_data_def mbuf_length_def)

lemma mbuf_copy_ok:
  assumes "mbuf_ok cap b" "length xs \<le> mbuf_size cap b"
  shows "\<exists>b'. mbuf_copy cap b xs = Inr b' \<and> mbuf_data b' = mbuf_data b @ xs \<and> mbuf_ok cap b'"
  using assms by (auto simp: mbuf_copy_def mbuf_ok_def mbuf_size_def mbuf_data_def)

lemma copy_last_ok:
  assumes "bufs_ok cap (mhdr r)" "mhdr r \<noteq> []" "length xs \<le> mbuf_size cap (last (mhdr r))"
  shows "\<exists>bs. copy_last cap xs r = Inr (r\<lparr>mhdr := bs, mlen := mlen r + word_of_nat (length xs)\<rparr>) \<and>
    bufs_data bs = msg_data r @ xs \<and> bufs_ok cap bs \<and> bs \<noteq> [] \<and>
    mbuf_size cap (last bs) = mbuf_size cap (last (mhdr r)) - length xs"
proof -
  obtain bs b where bs: "mhdr r = bs @ [b]" using assms(2) by (metis append_butlast_last_id)
  with assms have "mbuf_ok cap b" "length xs \<le> mbuf_size cap b" by simp_all
  from mbuf_copy_ok [OF this] this(2) assms(1) show ?thesis
    by (auto simp: copy_last_def bs mbuf_copy_def mbuf_size_def split: if_splits)
qed

lemma msg_ensure_mbuf_ok:
  assumes "bufs_ok cap (mhdr r)" "len \<le> cap"
  shows "\<exists>bs. msg_ensure_mbuf True cap len r = Some (r\<lparr>mhdr := bs\<rparr>) \<and> bufs_data bs = msg_data r \<and> bufs_ok cap bs \<and>
    bs \<noteq> [] \<and> len \<le> mbuf_size cap (last bs)"
proof (cases "mhdr r = [] \<or> mbuf_size cap (last (mhdr r)) < len")
  case False
  then show ?thesis
    using assms by (intro exI [of _ "mhdr r"]) (simp add: msg_ensure_mbuf_def)
next
  case True
  then show ?thesis
    using assms by (intro exI [of _ "mhdr r @ [mbuf_get]"]) (simp add: msg_ensure_mbuf_def)
qed

lemma msg_append_ok:
  assumes "bufs_ok cap (mhdr r)" "length xs \<le> cap"
  shows "\<exists>bs. msg_append True cap xs r = Inr (NC_OK, r\<lparr>mhdr := bs, mlen := mlen r + word_of_nat (length xs)\<rparr>) \<and>
    bufs_data bs = msg_data r @ xs \<and> bufs_ok cap bs"
proof -
  obtain bs where bs: "msg_ensure_mbuf True cap (length xs) r = Some (r\<lparr>mhdr := bs\<rparr>)" "bufs_data bs = msg_data r"
    "bufs_ok cap bs" "bs \<noteq> []" "length xs \<le> mbuf_size cap (last bs)"
    using msg_ensure_mbuf_ok [OF assms] by blast
  with copy_last_ok [of cap "r\<lparr>mhdr := bs\<rparr>" xs] show ?thesis
    by (auto simp: msg_append_def)
qed

lemma msg_prepend_ok:
  assumes "bufs_ok cap (mhdr r)" "length xs \<le> cap"
  shows "\<exists>bs. msg_prepend True cap xs r = Inr (NC_OK, r\<lparr>mhdr := bs, mlen := mlen r + word_of_nat (length xs)\<rparr>) \<and>
    bufs_data bs = xs @ msg_data r \<and> bufs_ok cap bs"
  using assms mbuf_copy_ok [of cap mbuf_get xs] by (auto simp: msg_prepend_def)

lemma msg_prepend_format_ok:
  assumes "bufs_ok cap (mhdr r)" "length xs < cap" "xs \<noteq> []"
  shows "\<exists>bs. msg_prepend_format True cap xs r = Inr (NC_OK, r\<lparr>mhdr := bs, mlen := mlen r + word_of_nat (length xs)\<rparr>) \<and>
    bufs_data bs = xs @ msg_data r \<and> bufs_ok cap bs"
  using assms by (intro exI [of _ "mbuf_get\<lparr>mb_bytes := xs\<rparr> # mhdr r"]) (simp add: msg_prepend_format_def)

text \<open>A split changes where the bytes are, not what they are.\<close>

lemma mbuf_split_ok:
  assumes "bufs_ok cap h" "h \<noteq> []" "mb_pos (last h) \<le> p" "p \<le> length (mb_bytes (last h))"
  shows "\<exists>h' n. mbuf_split True h p = Some (h', n) \<and> bufs_data h' @ mbuf_data n = bufs_data h \<and> bufs_ok cap (h' @ [n])"
proof -
  obtain bs b where h: "h = bs @ [b]" using assms(2) by (metis append_butlast_last_id)
  define h' n where "h' = bs @ [b\<lparr>mb_bytes := take p (mb_bytes b)\<rparr>]" and "n = mbuf_get\<lparr>mb_bytes := drop p (mb_bytes b)\<rparr>"
  have "drop p (mb_bytes b) = drop (p - mb_pos b) (drop (mb_pos b) (mb_bytes b))"
    using assms(3) by (simp add: h)
  then have "drop (mb_pos b) (take p (mb_bytes b)) @ drop p (mb_bytes b) = drop (mb_pos b) (mb_bytes b)"
    by (simp only: drop_take append_take_drop_id)
  then have "bufs_data h' @ mbuf_data n = bufs_data h"
    by (simp add: h h'_def n_def mbuf_data_def mbuf_get_def)
  moreover have "bufs_ok cap (h' @ [n])"
    using assms(1,3,4) by (auto simp: h h'_def n_def mbuf_ok_def mbuf_get_def)
  ultimately show ?thesis
    by (simp add: mbuf_split_def h h'_def n_def Let_def)
qed

end
