(* ===== verification/NC_CopyBulk.thy ===== *)
theory NC_CopyBulk
  imports NC_Mbuf NC_Server NC_RedisPrint NC_RedisRspPrint NC_McReq
begin

text \<open>
  Moving one element of a message to another one: \<open>redis_copy_bulk\<close> of src/src/proto/nc_redis.c and
  \<open>memcache_copy_bulk\<close> of nc_memcache.c.  Fragmentation and coalescing are built on them.
\<close>

section \<open>Moving the bytes of one element\<close>

text \<open>\<open>for (; *p != c;) p++; p++;\<close>, \<open>n\<close> times; there is no test for the end of the mbuf.\<close>

fun eat_bytes :: "nat \<Rightarrow> u8 \<Rightarrow> bytes \<Rightarrow> nat \<Rightarrow> fault + nat" where
  "eat_bytes 0 c xs p = Inr p"
| "eat_bytes (Suc n) c xs p =
     (case nc_strchr (drop p xs) c of None \<Rightarrow> Inl OutOfBounds | Some k \<Rightarrow> eat_bytes n c xs (p + k + 1))"

text \<open>
  The loop that moves \<open>len\<close> bytes: whole mbufs are taken over, the last one is split.  \<open>split\<close> adds the
  first bytes of an mbuf to the destination.
\<close>

fun move_mbufs ::
  "(bytes \<Rightarrow> 'd \<Rightarrow> fault + rstatus \<times> 'd) \<Rightarrow> (mbuf \<Rightarrow> 'd \<Rightarrow> 'd) \<Rightarrow> nat \<Rightarrow> 'd \<Rightarrow> mbuf list \<Rightarrow>
    fault + rstatus \<times> 'd \<times> mbuf list" where
  "move_mbufs split steal len dst [] = Inr (NC_OK, dst, [])"
| "move_mbufs split steal len dst (b # bs) =
     (if mbuf_length b \<le> len then move_mbufs split steal (len - mbuf_length b) (steal b dst) bs
      else bind_fault (split (take len (mbuf_data b)) dst) (\<lambda>(st, dst).
        if st \<noteq> NC_OK then Inr (st, dst, b # bs)
        else Inr (NC_OK, dst, b\<lparr>mb_pos := mb_pos b + len\<rparr> # bs)))"

definition steal_mbuf :: "mbuf \<Rightarrow> 'ty chain option \<Rightarrow> 'ty chain option" where
  "steal_mbuf b = map_option (\<lambda>d. d\<lparr>mhdr := mhdr d @ [b]\<rparr>)"

text \<open>\<open>for (; p < mbuf->last && isdigit(*p); p++) len = len * 10 + (*p - '0')\<close>: the number and where it ends.\<close>

definition read_number :: "bytes \<Rightarrow> nat \<Rightarrow> u32 \<times> nat" where
  "read_number xs p =
     (let ds = takeWhile isdigit (drop p xs) in (foldl (\<lambda>n c. n * 10 + digit c) 0 ds, p + length ds))"

text \<open>
  \<open>redis_copy_bulk\<close>: one bulk from the front of \<open>src\<close> to the end of \<open>dst\<close>, or to nowhere.  The byte
  \<open>$\<close> is not looked at.
\<close>

definition redis_split :: "bool \<Rightarrow> nat \<Rightarrow> bytes \<Rightarrow> 'ty chain option \<Rightarrow> fault + rstatus \<times> 'ty chain option" where
  "redis_split mem cap xs dst =
     (case dst of
        None \<Rightarrow> Inr (NC_OK, None)
      | Some d \<Rightarrow> bind_fault (msg_append mem cap xs d) (\<lambda>(st, d). Inr (st, Some d)))"

definition bulk_length :: "mbuf \<Rightarrow> fault + u32" where
  "bulk_length b =
     (let xs = mb_bytes b; p = mb_pos b + 1 in
      if length xs \<le> p + 1 then Inl OutOfBounds
      else if xs ! p = 45 \<and> xs ! (p + 1) = 49 then Inr (1 + 2 + 2)
      else let (n, q) = read_number xs p in Inr (n + 2 * 2 + word_of_nat (q - mb_pos b)))"

definition redis_copy_bulk ::
  "bool \<Rightarrow> nat \<Rightarrow> 'ty chain option \<Rightarrow> 'ty chain \<Rightarrow> fault + rstatus \<times> 'ty chain option \<times> 'ty chain" where
  "redis_copy_bulk mem cap dst src =
     (case dropWhile mbuf_empty (mhdr src) of
        [] \<Rightarrow> Inr (NC_ERROR, dst, src\<lparr>mhdr := []\<rparr>)
      | b # bs \<Rightarrow>
          bind_fault (bulk_length b) (\<lambda>len.
          bind_fault (move_mbufs (redis_split mem cap) steal_mbuf (unat len) dst (b # bs)) (\<lambda>(st, dst, bs).
          let src = src\<lparr>mhdr := bs\<rparr> in
          if st \<noteq> NC_OK then Inr (st, dst, src)
          else Inr (NC_OK, map_option (\<lambda>d. d\<lparr>mlen := mlen d + len\<rparr>) dst, src\<lparr>mlen := mlen src - len\<rparr>))))"

text \<open>\<open>memcache_copy_bulk\<close>: one value, from \<open>VALUE\<close> to the end of its data.\<close>

definition memcache_split :: "bool \<Rightarrow> nat \<Rightarrow> bytes \<Rightarrow> 'ty chain option \<Rightarrow> fault + rstatus \<times> 'ty chain option" where
  "memcache_split mem cap xs dst =
     (if \<not> mem then Inr (NC_ENOMEM, dst)
      else bind_fault (mbuf_copy cap mbuf_get xs) (\<lambda>b. Inr (NC_OK, steal_mbuf b dst)))"

definition value_length :: "mbuf \<Rightarrow> fault + u32" where
  "value_length b =
     bind_fault (eat_bytes 3 32 (mb_bytes b) (mb_pos b)) (\<lambda>p.
     let (n, p) = read_number (mb_bytes b) p;
         p = p + length (takeWhile (\<lambda>c. c \<noteq> CR) (drop p (mb_bytes b)))
     in Inr (n + 2 * 2 + word_of_nat (p - mb_pos b)))"

definition memcache_copy_bulk ::
  "bool \<Rightarrow> nat \<Rightarrow> 'ty chain \<Rightarrow> 'ty chain \<Rightarrow> fault + rstatus \<times> 'ty chain \<times> 'ty chain" where
  "memcache_copy_bulk mem cap dst src =
     (case dropWhile mbuf_empty (mhdr src) of
        [] \<Rightarrow> Inr (NC_OK, dst, src\<lparr>mhdr := []\<rparr>)
      | b # bs \<Rightarrow>
          bind_fault (value_length b) (\<lambda>len.
          bind_fault (move_mbufs (memcache_split mem cap) steal_mbuf (unat len) (Some dst) (b # bs)) (\<lambda>(st, d, bs).
          let src = src\<lparr>mhdr := bs\<rparr>; dst = the d in
          if st \<noteq> NC_OK then Inr (st, dst, src)
          else Inr (NC_OK, dst\<lparr>mlen := mlen dst + len\<rparr>, src\<lparr>mlen := mlen src - len\<rparr>))))"

section \<open>Moving one element\<close>

text \<open>The mbufs that are left when \<open>n\<close> bytes are taken from the front.\<close>

fun drop_bufs :: "nat \<Rightarrow> mbuf list \<Rightarrow> mbuf list" where
  "drop_bufs n [] = []"
| "drop_bufs n (b # bs) =
     (if mbuf_length b \<le> n then drop_bufs (n - mbuf_length b) bs else b\<lparr>mb_pos := mb_pos b + n\<rparr> # bs)"

lemma drop_bufs_data: "bufs_ok cap bs \<Longrightarrow> bufs_data (drop_bufs n bs) = drop n (bufs_data bs) \<and> bufs_ok cap (drop_bufs n bs)"
proof (induction bs arbitrary: n)
  case (Cons b bs)
  then show ?case
    by (cases "mbuf_length b \<le> n")
      (auto simp: mbuf_data_def mbuf_length_def mbuf_ok_def add.commute)
qed simp

text \<open>A destination, if there is one, that took some bytes.\<close>

definition took :: "nat \<Rightarrow> 'ty chain option \<Rightarrow> bytes \<Rightarrow> 'ty chain option \<Rightarrow> bool" where
  "took cap d xs d' \<longleftrightarrow>
     (case d of
        None \<Rightarrow> d' = None
      | Some c \<Rightarrow> \<exists>c'. d' = Some c' \<and> bufs_ok cap (mhdr c') \<and> msg_data c' = msg_data c @ xs \<and>
          mkeys c' = mkeys c \<and> mnarg c' = mnarg c \<and> ctype c' = ctype c)"

definition dest_ok :: "nat \<Rightarrow> 'ty chain option \<Rightarrow> bool" where
  "dest_ok cap d \<longleftrightarrow> (\<forall>c. d = Some c \<longrightarrow> bufs_ok cap (mhdr c))"

lemma took_dest_ok: "took cap d xs d' \<Longrightarrow> dest_ok cap d'"
  by (auto simp: took_def dest_ok_def split: option.splits)

lemma took_trans: "took cap d xs d' \<Longrightarrow> took cap d' ys d'' \<Longrightarrow> took cap d (xs @ ys) d''"
  by (auto simp: took_def split: option.splits)

lemma took_Nil: "dest_ok cap d \<Longrightarrow> took cap d [] d"
  by (auto simp: took_def dest_ok_def split: option.splits)

lemma took_steal: "dest_ok cap d \<Longrightarrow> mbuf_ok cap b \<Longrightarrow> took cap d (mbuf_data b) (steal_mbuf b d)"
  by (auto simp: took_def dest_ok_def steal_mbuf_def split: option.splits)

lemma move_mbufs_ok:
  assumes split: "\<And>d zs. dest_ok cap d \<Longrightarrow> length zs \<le> cap \<Longrightarrow> \<exists>d'. split zs d = Inr (NC_OK, d') \<and> took cap d zs d'"
    and "dest_ok cap d" "bufs_ok cap bs" "n \<le> length (bufs_data bs)"
  shows "\<exists>d'. move_mbufs split steal_mbuf n d bs = Inr (NC_OK, d', drop_bufs n bs) \<and> took cap d (take n (bufs_data bs)) d'"
  using assms(2-)
proof (induction bs arbitrary: n d)
  case Nil
  then show ?case by (simp add: took_Nil)
next
  case (Cons b bs)
  then have b: "mbuf_ok cap b" "bufs_ok cap bs" by simp_all
  have len: "length (mbuf_data b) = mbuf_length b" by (rule length_mbuf_data)
  show ?case
  proof (cases "mbuf_length b \<le> n")
    case True
    have steal: "took cap d (mbuf_data b) (steal_mbuf b d)" using Cons.prems(1) b(1) by (rule took_steal)
    have left: "n - mbuf_length b \<le> length (bufs_data bs)" using Cons.prems(3) by (simp add: len)
    obtain d' where "move_mbufs split steal_mbuf (n - mbuf_length b) (steal_mbuf b d) bs =
        Inr (NC_OK, d', drop_bufs (n - mbuf_length b) bs)" "took cap (steal_mbuf b d) (take (n - mbuf_length b) (bufs_data bs)) d'"
      using Cons.IH [OF took_dest_ok [OF steal] b(2) left] by blast
    with True steal len show ?thesis by (auto dest: took_trans)
  next
    case False
    have "length (take n (mbuf_data b)) \<le> cap"
      using b(1) by (auto simp: mbuf_ok_def len mbuf_length_def)
    from split [OF Cons.prems(1) this] False len show ?thesis by auto
  qed
qed

lemma redis_split_ok:
  assumes "dest_ok cap d" "length zs \<le> cap"
  shows "\<exists>d'. redis_split True cap zs d = Inr (NC_OK, d') \<and> took cap d zs d'"
  using assms msg_append_ok [of cap _ zs] by (cases d) (fastforce simp: redis_split_def took_def dest_ok_def)+

lemma memcache_split_ok:
  assumes "dest_ok cap d" "length zs \<le> cap"
  shows "\<exists>d'. memcache_split True cap zs d = Inr (NC_OK, d') \<and> took cap d zs d'"
  using assms mbuf_copy_ok [of cap mbuf_get zs] took_steal [of cap d]
  by (fastforce simp: memcache_split_def)

lemma bufs_data_dropWhile: "bufs_ok cap bs \<Longrightarrow> bufs_data (dropWhile mbuf_empty bs) = bufs_data bs"
  by (induction bs) (auto simp: mbuf_empty_def mbuf_data_def)

lemma bufs_ok_dropWhile: "bufs_ok cap bs \<Longrightarrow> bufs_ok cap (dropWhile mbuf_empty bs)"
  by (auto simp: bufs_ok_def dest: set_dropWhileD)

text \<open>The first line of an element is inside one mbuf, which is what the repair of the parser is for.\<close>

definition head_at :: "mbuf list \<Rightarrow> bytes \<Rightarrow> bool" where
  "head_at bs e \<longleftrightarrow>
     (\<exists>b cs rest. dropWhile mbuf_empty bs = b # cs \<and> mbuf_data b = takeWhile (\<lambda>c. c \<noteq> LF) e @ rest)"

text \<open>A chain that starts with the elements \<open>es\<close>, the first line of each in one mbuf.\<close>

fun cut_ok :: "mbuf list \<Rightarrow> bytes list \<Rightarrow> bool" where
  "cut_ok bs [] \<longleftrightarrow> True"
| "cut_ok bs (e # es) \<longleftrightarrow> head_at bs e \<and> cut_ok (drop_bufs (length e) (dropWhile mbuf_empty bs)) es"

lemma bulk_print: "bulk v = print_elem (Bulk v)"
  by (simp add: bulk_def bulk_head_def print_bulk_def)

lemma LF_not_in_decimal: "c \<in> set (decimal n) \<Longrightarrow> c \<noteq> LF"
  using decimal_digits [of c n] by (auto simp: isdigit_def LF_def)

lemma head_of_null: "takeWhile (\<lambda>c. c \<noteq> LF) [36, 45, 49, CR, LF] = [36, 45, 49, CR]"
  by (simp add: CR_def LF_def)

lemma head_of_bulk: "takeWhile (\<lambda>c. c \<noteq> LF) (print_bulk v) = 36 # decimal (length v) @ [CR]"
proof -
  have "takeWhile (\<lambda>c. c \<noteq> LF) (decimal (length v) @ CR # LF # v @ [CR, LF]) = decimal (length v) @ [CR]"
    using LF_not_in_decimal by (subst takeWhile_append2) (auto simp: CR_def LF_def)
  then show ?thesis by (simp add: print_bulk_def LF_def)
qed

lemma read_number_decimal:
  assumes "drop p xs = decimal n @ c # rest" "\<not> isdigit c"
  shows "read_number xs p = (word_of_nat n, p + length (decimal n))"
proof -
  have "takeWhile isdigit (decimal n @ c # rest) = decimal n"
    using assms(2) decimal_digits [of _ n] by (subst takeWhile_append2) auto
  with number_decimal [of n] show ?thesis
    by (simp add: read_number_def assms(1) number_def)
qed

lemma bulk_length_ok:
  assumes "mbuf_data b = takeWhile (\<lambda>c. c \<noteq> LF) (print_elem e) @ rest" "e = NullBulk \<or> e = Bulk v"
  shows "bulk_length b = Inr (word_of_nat (length (print_elem e)))"
proof -
  define xs p where "xs = mb_bytes b" and "p = mb_pos b"
  have data: "drop p xs = takeWhile (\<lambda>c. c \<noteq> LF) (print_elem e) @ rest" using assms(1) by (simp add: mbuf_data_def xs_def p_def)
  then have "drop p xs \<noteq> []" using assms(2) by (auto simp: head_of_bulk head_of_null simp del: takeWhile.simps)
  then have p: "p \<le> length xs" by simp
  have nth: "xs ! (p + k) = drop p xs ! k" for k using p by simp
  show ?thesis
  proof (cases e)
    case NullBulk
    then have null: "drop p xs = [36, 45, 49, CR] @ rest" using data by (simp add: head_of_null del: takeWhile.simps)
    have "xs ! Suc p = 45" "xs ! Suc (Suc p) = 49"
      using nth [of 1] nth [of 2] by (simp_all add: null)
    moreover have "length xs - p = 4 + length rest" using arg_cong [OF null, of length] by simp
    then have "Suc (Suc p) < length xs" by simp
    ultimately show ?thesis by (simp add: bulk_length_def Let_def NullBulk flip: xs_def p_def)
  next
    case (Bulk v')
    then have v: "drop p xs = 36 # decimal (length v) @ CR # rest" "e = Bulk v"
      using data assms(2) by (auto simp: head_of_bulk)
    obtain d ds where d: "decimal (length v) = d # ds" by (cases "decimal (length v)") simp_all
    then have digit: "isdigit d" using decimal_digits [of d "length v"] by simp
    have "drop (Suc p) xs = decimal (length v) @ CR # rest"
      by (simp add: drop_Suc v(1) flip: tl_drop)
    then have "read_number xs (Suc p) = (word_of_nat (length v), Suc p + length (decimal (length v)))"
      by (rule read_number_decimal) simp
    moreover have "xs ! Suc p \<noteq> 45" using nth [of 1] v(1) d digit by (auto simp: isdigit_def)
    moreover have "Suc (Suc p) < length xs" using arg_cong [OF v(1), of length] d by simp
    ultimately show ?thesis
      by (simp add: bulk_length_def Let_def v(2) print_bulk_def flip: xs_def p_def)
  qed (use assms(2) in auto)
qed

lemma redis_copy_bulk_ok:
  assumes "bufs_ok cap (mhdr src)" "msg_data src = print_elem e @ ys" "head_at (mhdr src) (print_elem e)"
    "e = NullBulk \<or> e = Bulk v" "length (print_elem e) < 2 ^ 32" "dest_ok cap d"
  shows "\<exists>d' src'. redis_copy_bulk True cap d src = Inr (NC_OK, d', src') \<and> took cap d (print_elem e) d' \<and>
    mhdr src' = drop_bufs (length (print_elem e)) (dropWhile mbuf_empty (mhdr src)) \<and> msg_data src' = ys \<and>
    bufs_ok cap (mhdr src') \<and> ctype src' = ctype src"
proof -
  obtain b cs rest where b: "dropWhile mbuf_empty (mhdr src) = b # cs" "mbuf_data b = takeWhile (\<lambda>c. c \<noteq> LF) (print_elem e) @ rest"
    using assms(3) by (auto simp: head_at_def)
  have n: "unat (word_of_nat (length (print_elem e)) :: u32) = length (print_elem e)"
    using assms(5) by (simp add: unat_of_nat_u32)
  have data: "bufs_data (b # cs) = print_elem e @ ys" "bufs_ok cap (b # cs)"
    using bufs_data_dropWhile [OF assms(1)] bufs_ok_dropWhile [OF assms(1)] assms(2) b(1) by simp_all
  then obtain d' where "move_mbufs (redis_split True cap) steal_mbuf (length (print_elem e)) d (b # cs) =
      Inr (NC_OK, d', drop_bufs (length (print_elem e)) (b # cs))" "took cap d (print_elem e) d'"
    using move_mbufs_ok [OF redis_split_ok assms(6), of "b # cs" "length (print_elem e)"] by (auto simp del: move_mbufs.simps)
  moreover have "took cap d (print_elem e) (map_option (\<lambda>d. d\<lparr>mlen := mlen d + word_of_nat (length (print_elem e))\<rparr>) d')"
    using calculation(2) by (auto simp: took_def split: option.splits)
  ultimately show ?thesis
    using bulk_length_ok [OF b(2) assms(4)] drop_bufs_data [OF data(2), of "length (print_elem e)"] data(1) n b(1)
    by (simp add: redis_copy_bulk_def Let_def del: move_mbufs.simps drop_bufs.simps bufs_data_simps(2))
qed

end
