(* ===== verification/NC_Fragment.thy ===== *)
theory NC_Fragment
  imports NC_CopyBulk
begin

text \<open>
  Fragmentation: a request with several keys is cut into one request for each server that has some
  of them, \<open>memcache_fragment\<close> of src/src/proto/nc_memcache.c and \<open>redis_fragment\<close> of nc_redis.c.
\<close>

section \<open>Fragments\<close>

text \<open>A message as \<open>_msg_get\<close> leaves it.\<close>

definition new_chain :: "'ty \<Rightarrow> 'ty chain" where
  "new_chain ty = \<lparr>mhdr = [], mlen = 0, mkeys = [], mnarg = 0, ctype = ty, frag_id = 0, nfrag = 0\<rparr>"

text \<open>
  The loop over the keys, which both protocols share: the key's server selects the fragment, \<open>add\<close>
  puts the key, and what belongs to it, there.  The result has the place of each key, \<open>frag_seq\<close>.
\<close>

fun fragment_keys ::
  "(bytes \<Rightarrow> 'ty chain \<Rightarrow> 'ty chain \<Rightarrow> fault + rstatus \<times> 'ty chain \<times> 'ty chain) \<Rightarrow> bool \<Rightarrow>
    (nat \<Rightarrow> bytes \<Rightarrow> fault + u32) \<Rightarrow> 'ty chain \<Rightarrow> nat \<Rightarrow> bytes list \<Rightarrow> 'ty chain \<Rightarrow> 'ty chain option list \<Rightarrow>
    fault + rstatus \<times> 'ty chain \<times> 'ty chain option list \<times> nat list" where
  "fragment_keys add mem backend new i [] r subs = Inr (NC_OK, r, subs, [])"
| "fragment_keys add mem backend new i (key # ks) r subs =
     bind_fault (backend i key) (\<lambda>idx.
     if length subs \<le> unat idx then Inl OutOfBounds
     else
       case (case subs ! unat idx of None \<Rightarrow> if mem then Some new else None | Some sub \<Rightarrow> Some sub) of
         None \<Rightarrow> Inr (NC_ENOMEM, r, subs, [])
       | Some sub \<Rightarrow>
           bind_fault (add key r (sub\<lparr>mnarg := mnarg sub + 1\<rparr>)) (\<lambda>(st, r, sub).
           let subs = subs[unat idx := Some sub] in
           if st \<noteq> NC_OK then Inr (st, r, subs, [unat idx])
           else
             bind_fault (fragment_keys add mem backend new (Suc i) ks r subs) (\<lambda>(st, r, subs, seq).
             Inr (st, r, subs, unat idx # seq))))"

text \<open>The loop over the fragments: \<open>fin\<close> completes one; the result is the queue of fragments.\<close>

fun fragment_finish ::
  "('ty chain \<Rightarrow> fault + rstatus \<times> 'ty chain) \<Rightarrow> 'ty \<Rightarrow> u64 \<Rightarrow> nat \<Rightarrow> 'ty chain option list \<Rightarrow>
    fault + rstatus \<times> (nat \<times> 'ty chain) list" where
  "fragment_finish fin ty fid i [] = Inr (NC_OK, [])"
| "fragment_finish fin ty fid i (None # subs) = fragment_finish fin ty fid (Suc i) subs"
| "fragment_finish fin ty fid i (Some sub # subs) =
     bind_fault (fin sub) (\<lambda>(st, sub).
     if st \<noteq> NC_OK then Inr (st, [])
     else
       bind_fault (fragment_finish fin ty fid (Suc i) subs) (\<lambda>(st, frags).
       Inr (st, (i, sub\<lparr>ctype := ty, frag_id := fid\<rparr>) # frags)))"

text \<open>The part of \<open>memcache_fragment_retrieval\<close> and \<open>redis_fragment_argx\<close> that is the same.\<close>

definition fragment_request ::
  "(bytes \<Rightarrow> 'ty chain \<Rightarrow> 'ty chain \<Rightarrow> fault + rstatus \<times> 'ty chain \<times> 'ty chain) \<Rightarrow>
    ('ty chain \<Rightarrow> fault + rstatus \<times> 'ty chain) \<Rightarrow> bool \<Rightarrow> (nat \<Rightarrow> bytes \<Rightarrow> fault + u32) \<Rightarrow> 'ty chain \<Rightarrow> u64 \<Rightarrow> u32 \<Rightarrow>
    'ty chain \<Rightarrow> fault + rstatus \<times> 'ty chain \<times> nat list \<times> (nat \<times> 'ty chain) list" where
  "fragment_request add fin mem backend new fid n r =
     (let r = r\<lparr>frag_id := fid, nfrag := 0\<rparr> in
      bind_fault (fragment_keys add mem backend new 0 (mkeys r) r (replicate (unat n) None)) (\<lambda>(st, r, subs, seq).
      if st \<noteq> NC_OK then Inr (st, r, seq, [])
      else
        bind_fault (fragment_finish fin (ctype r) fid 0 subs) (\<lambda>(st, frags).
        Inr (st, r\<lparr>nfrag := word_of_nat (length frags)\<rparr>, seq, frags))))"

text \<open>\<open>mbuf->pos = mbuf->start\<close> in the first mbuf, and then past the command.\<close>

definition skip_command :: "nat \<Rightarrow> u8 \<Rightarrow> 'ty chain \<Rightarrow> fault + 'ty chain" where
  "skip_command n c r =
     (case mhdr r of
        [] \<Rightarrow> Inl NullDeref
      | b # bs \<Rightarrow> bind_fault (eat_bytes n c (mb_bytes b) 0) (\<lambda>p. Inr (r\<lparr>mhdr := b\<lparr>mb_pos := p\<rparr> # bs\<rparr>)))"

subsection \<open>Memcache\<close>

definition memcache_append_key :: "bool \<Rightarrow> nat \<Rightarrow> bytes \<Rightarrow> 'ty chain \<Rightarrow> fault + rstatus \<times> 'ty chain" where
  "memcache_append_key mem cap key r =
     (case msg_ensure_mbuf mem cap (length key + 2) r of
        None \<Rightarrow> Inr (NC_ENOMEM, r)
      | Some r \<Rightarrow>
          bind_fault (copy_last cap key (r\<lparr>mkeys := mkeys r @ [key]\<rparr>)) (\<lambda>r.
          bind_fault (copy_last cap [32] r) (\<lambda>r. Inr (NC_OK, r))))"

definition memcache_add :: "bool \<Rightarrow> nat \<Rightarrow> bytes \<Rightarrow> mc_type chain \<Rightarrow> mc_type chain \<Rightarrow> fault + rstatus \<times> mc_type chain \<times> mc_type chain" where
  "memcache_add mem cap key r sub = bind_fault (memcache_append_key mem cap key sub) (\<lambda>(st, sub). Inr (st, r, sub))"

definition memcache_fin :: "bool \<Rightarrow> nat \<Rightarrow> mc_type \<Rightarrow> mc_type chain \<Rightarrow> fault + rstatus \<times> mc_type chain" where
  "memcache_fin mem cap ty sub =
     bind_fault (msg_prepend mem cap (bytes_of (if ty = MSG_REQ_MC_GET then ''get '' else ''gets '')) sub) (\<lambda>(st, sub).
     if st \<noteq> NC_OK then Inr (st, sub) else msg_append mem cap [CR, LF] sub)"

definition memcache_fragment_retrieval ::
  "bool \<Rightarrow> nat \<Rightarrow> (nat \<Rightarrow> bytes \<Rightarrow> fault + u32) \<Rightarrow> u64 \<Rightarrow> u32 \<Rightarrow> mc_type chain \<Rightarrow>
    fault + rstatus \<times> mc_type chain \<times> nat list \<times> (nat \<times> mc_type chain) list" where
  "memcache_fragment_retrieval mem cap backend fid n r =
     (if \<not> mem then Inr (NC_ENOMEM, r, [], [])
      else
        bind_fault (skip_command 1 32 r) (\<lambda>r.
        fragment_request (memcache_add mem cap) (memcache_fin mem cap (ctype r)) mem backend (new_chain MSG_UNKNOWN) fid n r))"

text \<open>\<open>msg_backend_idx\<close>; \<open>rs\<close> are the numbers that \<open>random()\<close> returns.\<close>

definition msg_backend_idx :: "(nat \<Rightarrow> nat) \<Rightarrow> server_pool \<Rightarrow> nat \<Rightarrow> bytes \<Rightarrow> fault + u32" where
  "msg_backend_idx rs pool i key = server_pool_idx (rs i) pool key"

definition memcache_fragment ::
  "bool \<Rightarrow> nat \<Rightarrow> (nat \<Rightarrow> nat) \<Rightarrow> server_pool \<Rightarrow> u64 \<Rightarrow> u32 \<Rightarrow> mc_type chain \<Rightarrow>
    fault + rstatus \<times> mc_type chain \<times> nat list \<times> (nat \<times> mc_type chain) list" where
  "memcache_fragment mem cap rs pool fid n r =
     (if memcache_retrieval (ctype r) then memcache_fragment_retrieval mem cap (msg_backend_idx rs pool) fid n r
      else Inr (NC_OK, r, [], []))"

subsection \<open>Redis\<close>

definition redis_append_key :: "bool \<Rightarrow> nat \<Rightarrow> bytes \<Rightarrow> 'ty chain \<Rightarrow> fault + rstatus \<times> 'ty chain" where
  "redis_append_key mem cap key r =
     (let head = 36 # decimal (length key) @ [CR, LF] in
      case msg_ensure_mbuf mem cap (length head) r of
        None \<Rightarrow> Inr (NC_ENOMEM, r)
      | Some r \<Rightarrow>
          bind_fault (copy_last cap head r) (\<lambda>r.
          case msg_ensure_mbuf mem cap (length key) r of
            None \<Rightarrow> Inr (NC_ENOMEM, r)
          | Some r \<Rightarrow>
              bind_fault (copy_last cap key (r\<lparr>mkeys := mkeys r @ [key]\<rparr>)) (\<lambda>r.
              case msg_ensure_mbuf mem cap 2 r of
                None \<Rightarrow> Inr (NC_ENOMEM, r)
              | Some r \<Rightarrow> bind_fault (copy_last cap [CR, LF] r) (\<lambda>r. Inr (NC_OK, r)))))"

definition redis_add ::
  "bool \<Rightarrow> nat \<Rightarrow> nat \<Rightarrow> bytes \<Rightarrow> redis_type chain \<Rightarrow> redis_type chain \<Rightarrow> fault + rstatus \<times> redis_type chain \<times> redis_type chain" where
  "redis_add mem cap key_step key r sub =
     bind_fault (redis_append_key mem cap key sub) (\<lambda>(st, sub).
     if st \<noteq> NC_OK \<or> key_step = 1 then Inr (st, r, sub)
     else
       bind_fault (redis_copy_bulk mem cap None r) (\<lambda>(st, _, r).
       if st \<noteq> NC_OK then Inr (st, r, sub)
       else
         bind_fault (redis_copy_bulk mem cap (Some sub) r) (\<lambda>(st, sub', r).
         let sub = the sub' in
         if st \<noteq> NC_OK then Inr (st, r, sub) else Inr (NC_OK, r, sub\<lparr>mnarg := mnarg sub + 1\<rparr>))))"

definition redis_head :: "redis_type \<Rightarrow> nat \<Rightarrow> bytes" where
  "redis_head ty n =
     42 # decimal n @ [CR, LF] @
     (if ty = Strs MSG_REQ_REDIS_MGET then bytes_of ''$4'' @ [CR, LF] @ bytes_of ''mget'' @ [CR, LF]
      else if ty = Keys MSG_REQ_REDIS_DEL then bytes_of ''$3'' @ [CR, LF] @ bytes_of ''del'' @ [CR, LF]
      else bytes_of ''$4'' @ [CR, LF] @ bytes_of ''mset'' @ [CR, LF])"

definition redis_fin :: "bool \<Rightarrow> nat \<Rightarrow> redis_type \<Rightarrow> redis_type chain \<Rightarrow> fault + rstatus \<times> redis_type chain" where
  "redis_fin mem cap ty sub = msg_prepend_format mem cap (redis_head ty (unat (mnarg sub + 1))) sub"

definition redis_fragment_argx ::
  "bool \<Rightarrow> nat \<Rightarrow> (nat \<Rightarrow> bytes \<Rightarrow> fault + u32) \<Rightarrow> u64 \<Rightarrow> u32 \<Rightarrow> nat \<Rightarrow> redis_type chain \<Rightarrow>
    fault + rstatus \<times> redis_type chain \<times> nat list \<times> (nat \<times> redis_type chain) list" where
  "redis_fragment_argx mem cap backend fid n key_step r =
     (if \<not> mem then Inr (NC_ENOMEM, r, [], [])
      else
        bind_fault (skip_command 3 LF r) (\<lambda>r.
        fragment_request (redis_add mem cap key_step) (redis_fin mem cap (ctype r)) mem backend (new_chain REDIS_UNKNOWN) fid n r))"

definition redis_fragment ::
  "bool \<Rightarrow> nat \<Rightarrow> (nat \<Rightarrow> nat) \<Rightarrow> server_pool \<Rightarrow> u64 \<Rightarrow> u32 \<Rightarrow> redis_type chain \<Rightarrow>
    fault + rstatus \<times> redis_type chain \<times> nat list \<times> (nat \<times> redis_type chain) list" where
  "redis_fragment mem cap rs pool fid n r =
     (if length (mkeys r) = 1 then Inr (NC_OK, r, [], [])
      else if ctype r = Strs MSG_REQ_REDIS_MGET \<or> ctype r = Keys MSG_REQ_REDIS_DEL
      then redis_fragment_argx mem cap (msg_backend_idx rs pool) fid n 1 r
      else if ctype r = Strs MSG_REQ_REDIS_MSET then redis_fragment_argx mem cap (msg_backend_idx rs pool) fid n 2 r
      else Inr (NC_OK, r, [], []))"

section \<open>What the loops compute\<close>

text \<open>The items that go to place \<open>j\<close>, in order.\<close>

definition items_of :: "nat \<Rightarrow> nat list \<Rightarrow> 'a list \<Rightarrow> 'a list" where
  "items_of j js xs = map snd (filter (\<lambda>(i, x). i = j) (zip js xs))"

lemma items_of_simps [simp]:
  "items_of j [] xs = []" "items_of j (i # js) (x # xs) = (if i = j then x # items_of j js xs else items_of j js xs)"
  by (simp_all add: items_of_def)

text \<open>A fragment \<open>s'\<close> that grew from \<open>s\<close> by some items.\<close>

definition sub_grown ::
  "nat \<Rightarrow> u32 \<Rightarrow> 'ty chain \<Rightarrow> (bytes \<times> bytes) list \<Rightarrow> 'ty chain option \<Rightarrow> 'ty chain option \<Rightarrow> bool" where
  "sub_grown cap w new its s s' \<longleftrightarrow>
     (if its = [] then s' = s
      else
        let m = (case s of None \<Rightarrow> new | Some m \<Rightarrow> m) in
        \<exists>m'. s' = Some m' \<and> bufs_ok cap (mhdr m') \<and> msg_data m' = msg_data m @ concat (map snd its) \<and>
          mkeys m' = mkeys m @ map fst its \<and> mnarg m' = mnarg m + (1 + w) * word_of_nat (length its))"

lemma sub_grown_Cons:
  assumes "s1 = Some m1" "bufs_ok cap (mhdr m1)" "msg_data m1 = msg_data (case s of None \<Rightarrow> new | Some m \<Rightarrow> m) @ e"
    "mkeys m1 = mkeys (case s of None \<Rightarrow> new | Some m \<Rightarrow> m) @ [k]"
    "mnarg m1 = mnarg (case s of None \<Rightarrow> new | Some m \<Rightarrow> m) + (1 + w)" "sub_grown cap w new its s1 s'"
  shows "sub_grown cap w new ((k, e) # its) s s'"
  using assms by (auto simp: sub_grown_def Let_def distrib_left distrib_right add.assoc split: if_splits)

text \<open>
  What the loop over the keys needs of the step that adds a key: it puts the bytes \<open>e\<close> of the item at
  the end of the fragment.  \<open>holds\<close> is what the request still holds of the items.
\<close>

locale fragmenter =
  fixes add :: "bytes \<Rightarrow> 'ty chain \<Rightarrow> 'ty chain \<Rightarrow> fault + rstatus \<times> 'ty chain \<times> 'ty chain"
    and holds :: "'ty chain \<Rightarrow> (bytes \<times> bytes) list \<Rightarrow> bool"
    and cap :: nat and w :: u32
  assumes add_ok: "holds r ((k, e) # its) \<Longrightarrow> bufs_ok cap (mhdr sub) \<Longrightarrow>
    \<exists>r' sub'. add k r sub = Inr (NC_OK, r', sub') \<and> holds r' its \<and> ctype r' = ctype r \<and> bufs_ok cap (mhdr sub') \<and>
      msg_data sub' = msg_data sub @ e \<and> mkeys sub' = mkeys sub @ [k] \<and> mnarg sub' = mnarg sub + w"
begin

lemma fragment_keys_ok:
  assumes "holds r its" "length js = length its" "bufs_ok cap (mhdr new)" "length subs < 2 ^ 32"
    "\<forall>i < length its. js ! i < length subs \<and> backend (n + i) (fst (its ! i)) = Inr (word_of_nat (js ! i))"
    "\<forall>j < length subs. \<forall>m. subs ! j = Some m \<longrightarrow> bufs_ok cap (mhdr m)"
  shows "\<exists>r' subs'. fragment_keys add True backend new n (map fst its) r subs = Inr (NC_OK, r', subs', js) \<and>
    ctype r' = ctype r \<and> length subs' = length subs \<and>
    (\<forall>j < length subs. sub_grown cap w new (items_of j js its) (subs ! j) (subs' ! j))"
  using assms
proof (induction its arbitrary: r js subs n)
  case Nil
  then show ?case by (simp add: sub_grown_def)
next
  case (Cons it its)
  obtain k e where it: "it = (k, e)" by (cases it)
  obtain j js' where js: "js = j # js'" "length js' = length its" using Cons.prems(2) by (cases js) auto
  define m where "m = (case subs ! j of None \<Rightarrow> new | Some m \<Rightarrow> m)"
  have j: "j < length subs" "backend n k = Inr (word_of_nat j)" "unat (word_of_nat j :: u32) = j"
    using Cons.prems(4) spec [OF Cons.prems(5), of 0] by (simp_all add: js it unat_of_nat_u32)
  have "bufs_ok cap (mhdr (m\<lparr>mnarg := mnarg m + 1\<rparr>))"
    using Cons.prems(3,6) j(1) by (auto simp: m_def split: option.split)
  from add_ok [OF Cons.prems(1) [unfolded it] this] obtain r1 m1 where
    add: "add k r (m\<lparr>mnarg := mnarg m + 1\<rparr>) = Inr (NC_OK, r1, m1)" "holds r1 its" "ctype r1 = ctype r" "bufs_ok cap (mhdr m1)"
      "msg_data m1 = msg_data m @ e" "mkeys m1 = mkeys m @ [k]" "mnarg m1 = mnarg m + (1 + w)"
    by (auto simp: add.assoc)
  have idx: "\<forall>i < length its. js' ! i < length (subs[j := Some m1]) \<and>
      backend (Suc n + i) (fst (its ! i)) = Inr (word_of_nat (js' ! i))"
    using Cons.prems(5) by (force simp: js)
  have ok: "\<forall>i < length (subs[j := Some m1]). \<forall>m. subs[j := Some m1] ! i = Some m \<longrightarrow> bufs_ok cap (mhdr m)"
    using Cons.prems(6) add(4) by (metis length_list_update nth_list_update_eq nth_list_update_neq option.inject)
  obtain r' subs' where rest:
    "fragment_keys add True backend new (Suc n) (map fst its) r1 (subs[j := Some m1]) = Inr (NC_OK, r', subs', js')"
    "ctype r' = ctype r1" "length subs' = length subs"
    "\<forall>i < length subs. sub_grown cap w new (items_of i js' its) (subs[j := Some m1] ! i) (subs' ! i)"
    using Cons.IH [OF add(2) js(2) Cons.prems(3) _ idx ok] Cons.prems(4) by auto
  have "sub_grown cap w new (items_of i js (it # its)) (subs ! i) (subs' ! i)" if "i < length subs" for i
  proof (cases "i = j")
    case True
    have "sub_grown cap w new (items_of j js' its) (Some m1) (subs' ! j)" using rest(4) j(1) by auto
    from sub_grown_Cons [OF refl add(4) add(5-7) [unfolded m_def] this] show ?thesis by (simp add: True js it)
  next
    case False
    moreover have "sub_grown cap w new (items_of i js' its) (subs[j := Some m1] ! i) (subs' ! i)" using rest(4) that by blast
    ultimately show ?thesis by (simp add: js it)
  qed
  moreover have "fragment_keys add True backend new n (map fst (it # its)) r subs = Inr (NC_OK, r', subs', js)"
    using rest(1) add(1) j by (cases "subs ! j") (simp_all add: js it m_def)
  ultimately show ?case
    using rest(2,3) add(3) by (intro exI [of _ r'] exI [of _ subs']) simp
qed

end

lemma fragment_finish_ok:
  assumes "\<forall>s \<in> set subs. \<forall>m. s = Some m \<longrightarrow> (\<exists>m'. fin m = Inr (NC_OK, m') \<and> Q m m')"
  shows "\<exists>frags. fragment_finish fin ty fid i subs = Inr (NC_OK, frags) \<and>
    map fst frags = filter (\<lambda>j. subs ! (j - i) \<noteq> None) [i..<i + length subs] \<and>
    (\<forall>(j, f) \<in> set frags. \<exists>m m'. subs ! (j - i) = Some m \<and> Q m m' \<and> f = m'\<lparr>ctype := ty, frag_id := fid\<rparr>)"
  using assms
proof (induction subs arbitrary: i)
  case (Cons s subs)
  have "\<forall>s \<in> set subs. \<forall>m. s = Some m \<longrightarrow> (\<exists>m'. fin m = Inr (NC_OK, m') \<and> Q m m')" using Cons.prems by simp
  from Cons.IH [OF this, of "Suc i"] obtain frags where frags: "fragment_finish fin ty fid (Suc i) subs = Inr (NC_OK, frags)"
    "map fst frags = filter (\<lambda>j. subs ! (j - Suc i) \<noteq> None) [Suc i..<Suc i + length subs]"
    "\<forall>(j, f) \<in> set frags. \<exists>m m'. subs ! (j - Suc i) = Some m \<and> Q m m' \<and> f = m'\<lparr>ctype := ty, frag_id := fid\<rparr>"
    by blast
  have later: "Suc i \<le> j" if "(j, f) \<in> set frags" for j f
  proof -
    have "j \<in> set (map fst frags)" using that by force
    then show ?thesis unfolding frags(2) by auto
  qed
  have shift: "(s # subs) ! (j - i) = subs ! (j - Suc i)" if "Suc i \<le> j" for j
    using that by (simp add: nth_Cons' Suc_diff_le diff_Suc split: nat.split)
  have "filter (\<lambda>j. (s # subs) ! (j - i) \<noteq> None) [Suc i..<Suc i + length subs] =
      filter (\<lambda>j. subs ! (j - Suc i) \<noteq> None) [Suc i..<Suc i + length subs]"
  proof (intro filter_cong refl)
    fix j assume "j \<in> set [Suc i..<Suc i + length subs]"
    then have "Suc i \<le> j" by auto
    then show "((s # subs) ! (j - i) \<noteq> None) = (subs ! (j - Suc i) \<noteq> None)" by (simp only: shift)
  qed
  moreover have "[i..<i + length (s # subs)] = i # [Suc i..<Suc i + length subs]"
    using upt_conv_Cons [of i "i + length (s # subs)"] by (simp del: upt_Suc)
  ultimately have fsts: "filter (\<lambda>j. (s # subs) ! (j - i) \<noteq> None) [i..<i + length (s # subs)] =
      (if s = None then map fst frags else i # map fst frags)"
    by (simp only: frags(2) filter.simps diff_self_eq_0 nth_Cons_0) simp
  have old: "\<exists>m m'. (s # subs) ! (j - i) = Some m \<and> Q m m' \<and> f = m'\<lparr>ctype := ty, frag_id := fid\<rparr>" if "(j, f) \<in> set frags" for j f
    using frags(3) that shift [OF later [OF that]] by fastforce
  show ?case
  proof (cases s)
    case None
    with frags(1) fsts old show ?thesis by (auto simp del: upt_Suc)
  next
    case (Some m)
    with Cons.prems obtain m' where "fin m = Inr (NC_OK, m')" "Q m m'" by auto
    with Some frags(1) fsts old show ?thesis by (auto simp del: upt_Suc)
  qed
qed simp

lemma items_of_eq_Nil: "length js = length xs \<Longrightarrow> items_of j js xs = [] \<longleftrightarrow> j \<notin> set js"
  by (induction js xs rule: list_induct2) auto

lemma items_of_map: "items_of j js (map f xs) = map f (items_of j js xs)"
  by (induction js arbitrary: xs; case_tac xs) (auto simp: items_of_def)

lemma set_items_of: "set (items_of j js xs) \<subseteq> set xs"
  by (auto simp: items_of_def dest: set_zip_rightD)

lemma length_items_of: "length (items_of j js xs) \<le> length xs"
  unfolding items_of_def length_map by (rule order_trans [OF length_filter_le]) simp

context fragmenter
begin

text \<open>
  A whole request: every item goes to the fragment of its place, in order.  \<open>out\<close> is the text that
  \<open>fin\<close> makes of the items of a fragment.
\<close>

lemma fragment_request_ok:
  assumes "holds (r\<lparr>frag_id := fid, nfrag := 0\<rparr>) its" "mkeys r = map fst its" "length js = length its"
    "mhdr new = []" "mkeys new = []" "mnarg new = 0"
    "\<forall>i < length its. js ! i < unat n \<and> backend i (fst (its ! i)) = Inr (word_of_nat (js ! i))"
    and fin: "\<And>its' m. set its' \<subseteq> set its \<Longrightarrow> length its' \<le> length its \<Longrightarrow> bufs_ok cap (mhdr m) \<Longrightarrow>
      msg_data m = concat (map snd its') \<Longrightarrow> mnarg m = (1 + w) * word_of_nat (length its') \<Longrightarrow>
      \<exists>m'. fin m = Inr (NC_OK, m') \<and> msg_data m' = out its' \<and> mkeys m' = mkeys m"
  shows "\<exists>r' frags. fragment_request add fin True backend new fid n r = Inr (NC_OK, r', js, frags) \<and>
    nfrag r' = word_of_nat (length frags) \<and> map fst frags = filter (\<lambda>j. j \<in> set js) [0..<unat n] \<and>
    (\<forall>(j, f) \<in> set frags. msg_data f = out (items_of j js its) \<and> mkeys f = map fst (items_of j js its) \<and>
       ctype f = ctype r \<and> frag_id f = fid)"
proof -
  let ?r = "r\<lparr>frag_id := fid, nfrag := 0\<rparr>" and ?subs = "replicate (unat n) None"
  obtain r' subs where keys: "fragment_keys add True backend new 0 (map fst its) ?r ?subs = Inr (NC_OK, r', subs, js)"
    "ctype r' = ctype r" "length subs = unat n"
    and grown: "\<And>j. j < unat n \<Longrightarrow> sub_grown cap w new (items_of j js its) None (subs ! j)"
    using fragment_keys_ok [OF assms(1,3), of new ?subs backend 0] assms(4,7) unsigned_less [of n, where 'a = nat]
    by auto
  have some: "subs ! j \<noteq> None \<longleftrightarrow> j \<in> set js" if "j < unat n" for j
    using grown [OF that] items_of_eq_Nil [OF assms(3), of j]
    by (cases "items_of j js its = []") (simp_all add: sub_grown_def Let_def, blast)
  have at: "bufs_ok cap (mhdr m) \<and> msg_data m = concat (map snd (items_of j js its)) \<and> mkeys m = map fst (items_of j js its) \<and>
      mnarg m = (1 + w) * word_of_nat (length (items_of j js its))" if "j < unat n" "subs ! j = Some m" for j m
    using grown [OF that(1)] that(2) assms(4-6) by (auto simp: sub_grown_def Let_def split: if_splits)
  have made: "\<exists>m'. fin m = Inr (NC_OK, m') \<and> msg_data m' = out (items_of j js its) \<and> mkeys m' = map fst (items_of j js its)"
    if "j < unat n" "subs ! j = Some m" for j m
    using fin [OF set_items_of length_items_of, of m j js] at [OF that] by auto
  then have "\<forall>s \<in> set subs. \<forall>m. s = Some m \<longrightarrow> (\<exists>m'. fin m = Inr (NC_OK, m') \<and> fin m = Inr (NC_OK, m'))"
    unfolding keys(3) [symmetric] by (metis in_set_conv_nth)
  from fragment_finish_ok [OF this, of "ctype r" fid 0] obtain frags where
    frags: "fragment_finish fin (ctype r) fid 0 subs = Inr (NC_OK, frags)"
      "map fst frags = filter (\<lambda>j. subs ! j \<noteq> None) [0..<unat n]"
      "\<forall>(j, f) \<in> set frags. \<exists>m m'. subs ! j = Some m \<and> fin m = Inr (NC_OK, m') \<and> f = m'\<lparr>ctype := ctype r, frag_id := fid\<rparr>"
    by (auto simp: keys(3))
  have places: "map fst frags = filter (\<lambda>j. j \<in> set js) [0..<unat n]"
    unfolding frags(2) using some by (intro filter_cong) auto
  have "msg_data f = out (items_of j js its) \<and> mkeys f = map fst (items_of j js its) \<and> ctype f = ctype r \<and> frag_id f = fid"
    if jf: "(j, f) \<in> set frags" for j f
  proof -
    have "j \<in> set (map fst frags)" using jf by force
    then have "j < unat n" unfolding places by simp
    moreover obtain m m' where m: "subs ! j = Some m" "fin m = Inr (NC_OK, m')" "f = m'\<lparr>ctype := ctype r, frag_id := fid\<rparr>"
      using bspec [OF frags(3) jf] unfolding prod.case by metis
    ultimately show ?thesis using made [of j m] by simp
  qed
  with keys frags(1) places show ?thesis
    by (auto simp: fragment_request_def Let_def assms(2))
qed

end

subsection \<open>The steps of the two protocols\<close>

lemma copy_last_add:
  assumes "bufs_ok cap (mhdr r)" "mhdr r \<noteq> []" "length xs \<le> mbuf_size cap (last (mhdr r))"
  shows "\<exists>r'. copy_last cap xs r = Inr r' \<and> msg_data r' = msg_data r @ xs \<and> bufs_ok cap (mhdr r') \<and> mhdr r' \<noteq> [] \<and>
    mbuf_size cap (last (mhdr r')) = mbuf_size cap (last (mhdr r)) - length xs \<and> mkeys r' = mkeys r \<and> mnarg r' = mnarg r"
  using copy_last_ok [OF assms] by fastforce

lemma memcache_append_key_ok:
  assumes "bufs_ok cap (mhdr r)" "length key + 2 \<le> cap"
  shows "\<exists>r'. memcache_append_key True cap key r = Inr (NC_OK, r') \<and> msg_data r' = msg_data r @ key @ [32] \<and>
    bufs_ok cap (mhdr r') \<and> mkeys r' = mkeys r @ [key] \<and> mnarg r' = mnarg r"
proof -
  obtain bs where bs: "msg_ensure_mbuf True cap (length key + 2) r = Some (r\<lparr>mhdr := bs\<rparr>)" "bufs_data bs = msg_data r"
    "bufs_ok cap bs" "bs \<noteq> []" "length key + 2 \<le> mbuf_size cap (last bs)"
    using msg_ensure_mbuf_ok [OF assms] by blast
  obtain r1 where r1: "copy_last cap key (r\<lparr>mhdr := bs, mkeys := mkeys r @ [key]\<rparr>) = Inr r1" "msg_data r1 = msg_data r @ key"
    "bufs_ok cap (mhdr r1)" "mhdr r1 \<noteq> []" "2 \<le> mbuf_size cap (last (mhdr r1))" "mkeys r1 = mkeys r @ [key]" "mnarg r1 = mnarg r"
    using copy_last_add [of cap "r\<lparr>mhdr := bs, mkeys := mkeys r @ [key]\<rparr>" key] bs by auto
  obtain r2 where r2: "copy_last cap [32] r1 = Inr r2" "msg_data r2 = msg_data r1 @ [32]" "bufs_ok cap (mhdr r2)"
    "mkeys r2 = mkeys r1" "mnarg r2 = mnarg r1"
    using copy_last_add [of cap r1 "[32]"] r1 by auto
  show ?thesis
    using bs(1) r1 r2 by (simp add: memcache_append_key_def)
qed

lemma ensure_room:
  assumes "bufs_ok cap (mhdr r)" "n \<le> cap"
  shows "\<exists>r'. msg_ensure_mbuf True cap n r = Some r' \<and> msg_data r' = msg_data r \<and> bufs_ok cap (mhdr r') \<and>
    mhdr r' \<noteq> [] \<and> n \<le> mbuf_size cap (last (mhdr r')) \<and> mkeys r' = mkeys r \<and> mnarg r' = mnarg r"
  using msg_ensure_mbuf_ok [OF assms] by fastforce

lemma redis_append_key_ok:
  assumes "bufs_ok cap (mhdr r)" "length key < cap" "length (decimal (length key)) + 3 \<le> cap" "2 \<le> cap"
  shows "\<exists>r'. redis_append_key True cap key r = Inr (NC_OK, r') \<and> msg_data r' = msg_data r @ bulk key \<and>
    bufs_ok cap (mhdr r') \<and> mkeys r' = mkeys r @ [key] \<and> mnarg r' = mnarg r"
proof -
  define head where "head = 36 # decimal (length key) @ [CR, LF]"
  have "length head \<le> cap" using assms(3) by (simp add: head_def)
  then obtain a1 where a1: "msg_ensure_mbuf True cap (length head) r = Some a1" "msg_data a1 = msg_data r" "bufs_ok cap (mhdr a1)"
    "mhdr a1 \<noteq> []" "length head \<le> mbuf_size cap (last (mhdr a1))" "mkeys a1 = mkeys r" "mnarg a1 = mnarg r"
    using ensure_room [OF assms(1)] by blast
  obtain r1 where r1: "copy_last cap head a1 = Inr r1" "msg_data r1 = msg_data a1 @ head" "bufs_ok cap (mhdr r1)"
    "mkeys r1 = mkeys a1" "mnarg r1 = mnarg a1"
    using copy_last_add [OF a1(3-5)] by blast
  obtain a2 where a2: "msg_ensure_mbuf True cap (length key) r1 = Some a2" "msg_data a2 = msg_data r1" "bufs_ok cap (mhdr a2)"
    "mhdr a2 \<noteq> []" "length key \<le> mbuf_size cap (last (mhdr a2))" "mkeys a2 = mkeys r1" "mnarg a2 = mnarg r1"
    using ensure_room [OF r1(3), of "length key"] assms(2) by auto
  obtain r2 where r2: "copy_last cap key (a2\<lparr>mkeys := mkeys a2 @ [key]\<rparr>) = Inr r2" "msg_data r2 = msg_data a2 @ key"
    "bufs_ok cap (mhdr r2)" "mkeys r2 = mkeys a2 @ [key]" "mnarg r2 = mnarg a2"
    using copy_last_add [of cap "a2\<lparr>mkeys := mkeys a2 @ [key]\<rparr>" key] a2 by auto
  obtain a3 where a3: "msg_ensure_mbuf True cap 2 r2 = Some a3" "msg_data a3 = msg_data r2" "bufs_ok cap (mhdr a3)"
    "mhdr a3 \<noteq> []" "2 \<le> mbuf_size cap (last (mhdr a3))" "mkeys a3 = mkeys r2" "mnarg a3 = mnarg r2"
    using ensure_room [OF r2(3) assms(4)] by blast
  obtain r3 where r3: "copy_last cap [CR, LF] a3 = Inr r3" "msg_data r3 = msg_data a3 @ [CR, LF]" "bufs_ok cap (mhdr r3)"
    "mkeys r3 = mkeys a3" "mnarg r3 = mnarg a3"
    using copy_last_add [of cap a3 "[CR, LF]"] a3 by auto
  have "redis_append_key True cap key r = Inr (NC_OK, r3)"
    using a1(1) r1(1) a2(1) r2(1) a3(1) r3(1) by (simp add: redis_append_key_def Let_def flip: head_def)
  with a1 r1 a2 r2 a3 r3 show ?thesis
    by (simp add: head_def bulk_def bulk_head_def)
qed

interpretation memcache: fragmenter "memcache_add True cap" "\<lambda>r its. \<forall>(k, e) \<in> set its. length k + 2 \<le> cap \<and> e = k @ [32]" cap 0 for cap
proof
  fix r :: "mc_type chain" and k e :: bytes and its :: "(bytes \<times> bytes) list" and sub :: "mc_type chain"
  assume "\<forall>(k, e) \<in> set ((k, e) # its). length k + 2 \<le> cap \<and> e = k @ [32]" "bufs_ok cap (mhdr sub)"
  with memcache_append_key_ok [of cap sub k]
  show "\<exists>r' sub'. memcache_add True cap k r sub = Inr (NC_OK, r', sub') \<and>
    (\<forall>(k, e) \<in> set its. length k + 2 \<le> cap \<and> e = k @ [32]) \<and> ctype r' = ctype r \<and> bufs_ok cap (mhdr sub') \<and>
    msg_data sub' = msg_data sub @ e \<and> mkeys sub' = mkeys sub @ [k] \<and> mnarg sub' = mnarg sub + 0"
    by (auto simp: memcache_add_def)
qed

definition redis_key_ok :: "nat \<Rightarrow> bytes \<Rightarrow> bool" where
  "redis_key_ok cap k \<longleftrightarrow> length k < cap \<and> length (decimal (length k)) + 3 \<le> cap \<and> 2 \<le> cap"

interpretation redis: fragmenter "redis_add True cap 1" "\<lambda>r its. \<forall>(k, e) \<in> set its. redis_key_ok cap k \<and> e = bulk k" cap 0 for cap
proof
  fix r :: "redis_type chain" and k e :: bytes and its :: "(bytes \<times> bytes) list" and sub :: "redis_type chain"
  assume "\<forall>(k, e) \<in> set ((k, e) # its). redis_key_ok cap k \<and> e = bulk k" "bufs_ok cap (mhdr sub)"
  with redis_append_key_ok [of cap sub k]
  show "\<exists>r' sub'. redis_add True cap 1 k r sub = Inr (NC_OK, r', sub') \<and>
    (\<forall>(k, e) \<in> set its. redis_key_ok cap k \<and> e = bulk k) \<and> ctype r' = ctype r \<and> bufs_ok cap (mhdr sub') \<and>
    msg_data sub' = msg_data sub @ e \<and> mkeys sub' = mkeys sub @ [k] \<and> mnarg sub' = mnarg sub + 0"
    by (auto simp: redis_add_def redis_key_ok_def)
qed

text \<open>The keys and values of an \<open>mset\<close> that a chain still holds, the first line of each in one mbuf.\<close>

fun mset_holds :: "nat \<Rightarrow> mbuf list \<Rightarrow> (bytes \<times> bytes) list \<Rightarrow> bool" where
  "mset_holds cap bs [] \<longleftrightarrow> bufs_ok cap bs"
| "mset_holds cap bs ((k, e) # its) \<longleftrightarrow>
     bufs_ok cap bs \<and> redis_key_ok cap k \<and>
     (\<exists>v ys. e = bulk k @ bulk v \<and> bufs_data bs = bulk k @ bulk v @ ys \<and> length e < 2 ^ 32 \<and> head_at bs (bulk k) \<and>
       (let bs1 = drop_bufs (length (bulk k)) (dropWhile mbuf_empty bs) in
        head_at bs1 (bulk v) \<and> mset_holds cap (drop_bufs (length (bulk v)) (dropWhile mbuf_empty bs1)) its))"

lemma mset_holdsI:
  assumes "bufs_ok cap bs" "bufs_data bs = concat (map (\<lambda>(k, v). bulk k @ bulk v) kvs)"
    "cut_ok bs (concat (map (\<lambda>(k, v). [bulk k, bulk v]) kvs))"
    "\<forall>(k, v) \<in> set kvs. redis_key_ok cap k \<and> length (bulk k @ bulk v) < 2 ^ 32"
  shows "mset_holds cap bs (map (\<lambda>(k, v). (k, bulk k @ bulk v)) kvs)"
  using assms
proof (induction kvs arbitrary: bs)
  case (Cons kv kvs)
  obtain k v where kv: "kv = (k, v)" by (cases kv)
  define bs1 where "bs1 = drop_bufs (length (bulk k)) (dropWhile mbuf_empty bs)"
  define bs2 where "bs2 = drop_bufs (length (bulk v)) (dropWhile mbuf_empty bs1)"
  let ?ys = "concat (map (\<lambda>(k, v). bulk k @ bulk v) kvs)"
  have bs: "bufs_data bs = bulk k @ bulk v @ ?ys" using Cons.prems(2) by (simp add: kv)
  have "bufs_ok cap bs1" "bufs_data bs1 = bulk v @ ?ys"
    using drop_bufs_data [OF bufs_ok_dropWhile [OF Cons.prems(1)], of "length (bulk k)"] bufs_data_dropWhile [OF Cons.prems(1)] bs
    by (simp_all add: bs1_def)
  then have "bufs_ok cap bs2" "bufs_data bs2 = ?ys"
    using drop_bufs_data [OF bufs_ok_dropWhile, of cap bs1 "length (bulk v)"] bufs_data_dropWhile [of cap bs1]
    by (simp_all add: bs2_def)
  with Cons.IH [of bs2] Cons.prems bs show ?case
    by (simp add: kv Let_def flip: bs1_def bs2_def) (intro exI [of _ v], simp flip: bs2_def)
qed simp

lemma redis_copy_bulk_bulk:
  assumes "bufs_ok cap (mhdr src)" "msg_data src = bulk v @ ys" "head_at (mhdr src) (bulk v)" "length (bulk v) < 2 ^ 32"
    "dest_ok cap d"
  shows "\<exists>d' src'. redis_copy_bulk True cap d src = Inr (NC_OK, d', src') \<and> took cap d (bulk v) d' \<and>
    mhdr src' = drop_bufs (length (bulk v)) (dropWhile mbuf_empty (mhdr src)) \<and> msg_data src' = ys \<and>
    bufs_ok cap (mhdr src') \<and> ctype src' = ctype src"
  using redis_copy_bulk_ok [of cap src "Bulk v" ys v d] assms by (simp only: bulk_print) simp

interpretation redis_mset: fragmenter "redis_add True cap 2" "\<lambda>r its. mset_holds cap (mhdr r) its" cap 1 for cap
proof
  fix r :: "redis_type chain" and k e :: bytes and its :: "(bytes \<times> bytes) list" and sub :: "redis_type chain"
  assume holds: "mset_holds cap (mhdr r) ((k, e) # its)" and sub: "bufs_ok cap (mhdr sub)"
  define bs1 where "bs1 = drop_bufs (length (bulk k)) (dropWhile mbuf_empty (mhdr r))"
  obtain v ys where r: "bufs_ok cap (mhdr r)" "redis_key_ok cap k" "e = bulk k @ bulk v" "msg_data r = bulk k @ bulk v @ ys"
    "length e < 2 ^ 32" "head_at (mhdr r) (bulk k)" "head_at bs1 (bulk v)"
    "mset_holds cap (drop_bufs (length (bulk v)) (dropWhile mbuf_empty bs1)) its"
    using holds by (auto simp: Let_def bs1_def)
  obtain s1 where s1: "redis_append_key True cap k sub = Inr (NC_OK, s1)" "msg_data s1 = msg_data sub @ bulk k"
    "bufs_ok cap (mhdr s1)" "mkeys s1 = mkeys sub @ [k]" "mnarg s1 = mnarg sub"
    using redis_append_key_ok [OF sub] r(2) by (auto simp: redis_key_ok_def)
  obtain d1 r1 where r1: "redis_copy_bulk True cap None r = Inr (NC_OK, d1, r1)" "mhdr r1 = bs1" "msg_data r1 = bulk v @ ys"
    "bufs_ok cap (mhdr r1)" "ctype r1 = ctype r"
    using redis_copy_bulk_bulk [OF r(1,4,6), of None] r(3,5) by (auto simp: dest_ok_def bs1_def)
  obtain d2 r2 where r2: "redis_copy_bulk True cap (Some s1) r1 = Inr (NC_OK, d2, r2)" "took cap (Some s1) (bulk v) d2"
    "mhdr r2 = drop_bufs (length (bulk v)) (dropWhile mbuf_empty bs1)" "ctype r2 = ctype r1"
    using redis_copy_bulk_bulk [OF r1(4,3), of "Some s1"] r(3,5,7) r1(2) s1(3) by (auto simp: dest_ok_def)
  then obtain s2 where "d2 = Some s2" "bufs_ok cap (mhdr s2)" "msg_data s2 = msg_data s1 @ bulk v" "mkeys s2 = mkeys s1" "mnarg s2 = mnarg s1"
    by (auto simp: took_def)
  with s1 r1 r2 r(3,8)
  show "\<exists>r' sub'. redis_add True cap 2 k r sub = Inr (NC_OK, r', sub') \<and> mset_holds cap (mhdr r') its \<and> ctype r' = ctype r \<and>
    bufs_ok cap (mhdr sub') \<and> msg_data sub' = msg_data sub @ e \<and> mkeys sub' = mkeys sub @ [k] \<and> mnarg sub' = mnarg sub + 1"
    by (simp add: redis_add_def)
qed

section \<open>Fragmentation is correct\<close>

text \<open>The place of each key is the server that \<open>msg_backend_idx\<close> finds for it.\<close>

definition frag_places :: "(nat \<Rightarrow> nat) \<Rightarrow> server_pool \<Rightarrow> bytes list \<Rightarrow> nat list \<Rightarrow> bool" where
  "frag_places rs pool ks js \<longleftrightarrow>
     length js = length ks \<and>
     (\<forall>i < length ks. js ! i < length (servers pool) \<and> server_pool_idx (rs i) pool (ks ! i) = Inr (word_of_nat (js ! i)))"

lemma frag_places_ex:
  assumes "reachable pool" "nlive_server pool \<noteq> 0"
  shows "\<exists>js. frag_places rs pool ks js"
proof -
  have "\<forall>i < length ks. \<exists>j. j < length (servers pool) \<and> server_pool_idx (rs i) pool (ks ! i) = Inr (word_of_nat j)"
    using server_pool_idx_routes [OF reachable_inv [OF assms(1)] assms(2)] by blast
  then show ?thesis
    unfolding Skolem_list_nth frag_places_def by auto
qed

lemma skip_command_ok:
  "mhdr r = b # bs \<Longrightarrow> eat_bytes n c (mb_bytes b) 0 = Inr p \<Longrightarrow> skip_command n c r = Inr (r\<lparr>mhdr := b\<lparr>mb_pos := p\<rparr> # bs\<rparr>)"
  by (simp add: skip_command_def)

definition memcache_verb :: "mc_type \<Rightarrow> bytes" where
  "memcache_verb ty = bytes_of (if ty = MSG_REQ_MC_GET then ''get '' else ''gets '')"

lemma memcache_fin_ok:
  assumes "bufs_ok cap (mhdr m)" "5 \<le> cap"
  shows "\<exists>m'. memcache_fin True cap ty m = Inr (NC_OK, m') \<and> msg_data m' = memcache_verb ty @ msg_data m @ [CR, LF] \<and> mkeys m' = mkeys m"
proof -
  have "length (memcache_verb ty) \<le> cap" using assms(2) by (simp add: memcache_verb_def)
  from msg_prepend_ok [OF assms(1) this] obtain bs where bs: "msg_prepend True cap (memcache_verb ty) m =
      Inr (NC_OK, m\<lparr>mhdr := bs, mlen := mlen m + word_of_nat (length (memcache_verb ty))\<rparr>)"
    "bufs_data bs = memcache_verb ty @ msg_data m" "bufs_ok cap bs" by blast
  with msg_append_ok [of cap "m\<lparr>mhdr := bs, mlen := mlen m + word_of_nat (length (memcache_verb ty))\<rparr>" "[CR, LF]"] assms(2)
  show ?thesis by (auto simp: memcache_fin_def memcache_verb_def)
qed

text \<open>
  C6: \<open>memcache_fragment\<close>.  In a pool that has a live server, when the table of fragments has a place for
  every server, a \<open>get\<close> or \<open>gets\<close> is cut into one request of the same kind for each server that owns
  some of its keys.  The keys of a fragment are those of its server, in the order of the request.
\<close>

theorem memcache_fragment_correct:
  assumes "reachable pool" "nlive_server pool \<noteq> 0" "length (servers pool) \<le> unat n" "memcache_retrieval (ctype r)"
    "mhdr r = b # bs" "eat_bytes 1 32 (mb_bytes b) 0 = Inr p" "\<forall>k \<in> set (mkeys r). length k + 2 \<le> cap" "5 \<le> cap"
  shows "\<exists>r' js frags. memcache_fragment True cap rs pool fid n r = Inr (NC_OK, r', js, frags) \<and>
    frag_places rs pool (mkeys r) js \<and> nfrag r' = word_of_nat (length frags) \<and>
    map fst frags = filter (\<lambda>j. j \<in> set js) [0..<unat n] \<and>
    (\<forall>(j, f) \<in> set frags. mkeys f = items_of j js (mkeys r) \<and> ctype f = ctype r \<and> frag_id f = fid \<and>
       msg_data f = memcache_verb (ctype r) @ concat (map (\<lambda>k. k @ [32]) (items_of j js (mkeys r))) @ [CR, LF])"
proof -
  obtain js where js: "frag_places rs pool (mkeys r) js" using frag_places_ex [OF assms(1,2)] by blast
  define its where "its = map (\<lambda>k. (k, k @ [32])) (mkeys r)"
  define r1 where "r1 = r\<lparr>mhdr := b\<lparr>mb_pos := p\<rparr> # bs\<rparr>"
  have its: "mkeys r1 = map fst its" "length js = length its" "items_of j js its = map (\<lambda>k. (k, k @ [32])) (items_of j js (mkeys r))" for j
    using js by (simp_all add: its_def r1_def comp_def frag_places_def items_of_map)
  have "\<forall>i < length its. js ! i < unat n \<and> msg_backend_idx rs pool i (fst (its ! i)) = Inr (word_of_nat (js ! i))"
    using js assms(3) by (fastforce simp: frag_places_def its_def msg_backend_idx_def)
  moreover have "\<forall>(k, e) \<in> set its. length k + 2 \<le> cap \<and> e = k @ [32]" using assms(7) by (auto simp: its_def)
  moreover have "\<exists>m'. memcache_fin True cap (ctype r) m = Inr (NC_OK, m') \<and>
      msg_data m' = memcache_verb (ctype r) @ concat (map snd its') @ [CR, LF] \<and> mkeys m' = mkeys m"
    if "bufs_ok cap (mhdr m)" "msg_data m = concat (map snd its')" for m its'
    using memcache_fin_ok [OF that(1) assms(8)] that(2) by simp
  ultimately have "\<exists>r' frags. fragment_request (memcache_add True cap) (memcache_fin True cap (ctype r)) True
      (msg_backend_idx rs pool) (new_chain MSG_UNKNOWN) fid n r1 = Inr (NC_OK, r', js, frags) \<and>
      nfrag r' = word_of_nat (length frags) \<and> map fst frags = filter (\<lambda>j. j \<in> set js) [0..<unat n] \<and>
      (\<forall>(j, f) \<in> set frags. msg_data f = memcache_verb (ctype r) @ concat (map snd (items_of j js its)) @ [CR, LF] \<and>
        mkeys f = map fst (items_of j js its) \<and> ctype f = ctype r1 \<and> frag_id f = fid)"
    by (intro memcache.fragment_request_ok) (use its(1,2) in \<open>simp_all add: new_chain_def\<close>)
  then obtain r' frags where frags:
    "fragment_request (memcache_add True cap) (memcache_fin True cap (ctype r)) True (msg_backend_idx rs pool)
       (new_chain MSG_UNKNOWN) fid n r1 = Inr (NC_OK, r', js, frags)" "nfrag r' = word_of_nat (length frags)"
    "map fst frags = filter (\<lambda>j. j \<in> set js) [0..<unat n]"
    "\<forall>(j, f) \<in> set frags. msg_data f = memcache_verb (ctype r) @ concat (map snd (items_of j js its)) @ [CR, LF] \<and>
       mkeys f = map fst (items_of j js its) \<and> ctype f = ctype r1 \<and> frag_id f = fid"
    by blast
  have "memcache_fragment True cap rs pool fid n r = Inr (NC_OK, r', js, frags)"
    using frags(1) assms(4) skip_command_ok [OF assms(5,6)]
    by (simp add: memcache_fragment_def memcache_fragment_retrieval_def r1_def)
  with js frags(2-4) show ?thesis
    by (intro exI [of _ r'] exI [of _ js] exI [of _ frags]) (auto simp: its(3) comp_def r1_def)
qed

text \<open>A request in one mbuf, for the instances.\<close>

definition demo_request :: "'ty \<Rightarrow> bytes \<Rightarrow> bytes list \<Rightarrow> 'ty chain" where
  "demo_request ty xs ks = (new_chain ty)\<lparr>mhdr := [mbuf_get\<lparr>mb_bytes := xs\<rparr>], mkeys := ks\<rparr>"

theorem memcache_fragment_correct_witness:
  "\<exists>r' js frags. memcache_fragment True 512 (\<lambda>_. 0) demo_run 1 3
      (demo_request MSG_REQ_MC_GET (bytes_of ''get a bb'' @ [CR, LF]) [bytes_of ''a'', bytes_of ''bb'']) = Inr (NC_OK, r', js, frags)"
proof -
  have "memcache_retrieval (ctype (demo_request MSG_REQ_MC_GET (bytes_of ''get a bb'' @ [CR, LF]) [bytes_of ''a'', bytes_of ''bb'']))"
    by (simp add: demo_request_def new_chain_def memcache_retrieval_def)
  from memcache_fragment_correct [OF demo_reachable(1) _ _ this, of 3 _ _ 4 512 "\<lambda>_. 0" 1] show ?thesis
    using demo_reachable(4,7) by (auto simp: demo_request_def mbuf_get_def bytes_of_def)
qed

text \<open>Three servers of weight one, the first of them ejected.\<close>

definition short_start :: server_pool where
  "short_start = (demo_pool DIST_MODULA)\<lparr>servers := [demo_server 1 500, demo_server 1 0, demo_server 1 0]\<rparr>"

lemma short_run:
  "(case server_pool_run demo_env short_start of
      Inr (st, pool) \<Rightarrow> Some (ncontinuum pool, take 2 (pool_continuum pool), nlive_server pool)
    | Inl e \<Rightarrow> None) = Some (2, [\<lparr>c_index = 1, c_value = 0\<rparr>, \<lparr>c_index = 2, c_value = 0\<rparr>], 2)"
  by code_simp

lemma short_wf: "pool_wf short_start"
  by (simp add: pool_wf_def short_start_def demo_pool_def demo_server_def conf_ok_def slots_ok_def continuum_slots_def conns_ok_def)


subsection \<open>Redis\<close>

definition frag_name :: "redis_type \<Rightarrow> bytes" where
  "frag_name ty =
     bytes_of (if ty = Strs MSG_REQ_REDIS_MGET then ''mget'' else if ty = Keys MSG_REQ_REDIS_DEL then ''del'' else ''mset'')"

text \<open>The arguments that belong to a key: the key, and for \<open>mset\<close> its value.\<close>

definition frag_args :: "redis_type \<Rightarrow> bytes \<times> bytes \<Rightarrow> bytes list" where
  "frag_args ty kv = (if ty = Strs MSG_REQ_REDIS_MSET then [fst kv, snd kv] else [fst kv])"

definition frag_item :: "redis_type \<Rightarrow> bytes \<times> bytes \<Rightarrow> bytes \<times> bytes" where
  "frag_item ty kv = (fst kv, concat (map bulk (frag_args ty kv)))"

definition fragments_ty :: "redis_type \<Rightarrow> bool" where
  "fragments_ty ty \<longleftrightarrow> ty = Strs MSG_REQ_REDIS_MGET \<or> ty = Keys MSG_REQ_REDIS_DEL \<or> ty = Strs MSG_REQ_REDIS_MSET"

lemma redis_head_print: "redis_head ty (Suc (length args)) @ concat (map bulk args) = redis_print (frag_name ty # args)"
  by (simp add: redis_head_def redis_print_def frag_name_def bulk_def bulk_head_def bytes_of_def decimal.simps)

lemma length_concat_args: "length (concat (map (frag_args ty) kvs)) = (if ty = Strs MSG_REQ_REDIS_MSET then 2 else 1) * length kvs"
  by (induction kvs) (auto simp: frag_args_def)

lemma redis_fin_ok:
  assumes "bufs_ok cap (mhdr m)" "32 \<le> cap" "mnarg m = word_of_nat n" "Suc n < 10 ^ 9"
  shows "\<exists>m'. redis_fin True cap ty m = Inr (NC_OK, m') \<and> msg_data m' = redis_head ty (Suc n) @ msg_data m \<and> mkeys m' = mkeys m"
proof -
  have "unat (mnarg m + 1) = Suc n"
    using assms(3,4) unat_of_nat_u32 [of "Suc n"] by (simp add: add.commute)
  moreover have "length (redis_head ty (Suc n)) < cap" "redis_head ty (Suc n) \<noteq> []"
    using length_decimal [of "Suc n" 9] assms(2,4) by (simp_all add: redis_head_def)
  ultimately show ?thesis
    using msg_prepend_format_ok [OF assms(1), of "redis_head ty (Suc n)"] by (auto simp: redis_fin_def)
qed

text \<open>
  What a request must be for its fragmentation: the command is in the first mbuf, keys fit into an mbuf,
  and an \<open>mset\<close> holds its keys and values.
\<close>

definition redis_frag_ok :: "nat \<Rightarrow> (bytes \<times> bytes) list \<Rightarrow> redis_type chain \<Rightarrow> bool" where
  "redis_frag_ok cap kvs r \<longleftrightarrow>
     fragments_ty (ctype r) \<and> mkeys r = map fst kvs \<and> 1 < length kvs \<and> length kvs < 10 ^ 8 \<and> 32 \<le> cap \<and>
     (\<forall>kv \<in> set kvs. redis_key_ok cap (fst kv) \<and> length (snd (frag_item (ctype r) kv)) < 2 ^ 32) \<and>
     (\<exists>b bs p. mhdr r = b # bs \<and> eat_bytes 3 LF (mb_bytes b) 0 = Inr p \<and>
       (ctype r = Strs MSG_REQ_REDIS_MSET \<longrightarrow>
          bufs_ok cap (b\<lparr>mb_pos := p\<rparr> # bs) \<and>
          bufs_data (b\<lparr>mb_pos := p\<rparr> # bs) = concat (map (\<lambda>(k, v). bulk k @ bulk v) kvs) \<and>
          cut_ok (b\<lparr>mb_pos := p\<rparr> # bs) (concat (map (\<lambda>(k, v). [bulk k, bulk v]) kvs))))"

lemma redis_fragment_request:
  assumes "fragments_ty (ctype r)" "mkeys r = map fst kvs" "length js = length kvs" "length kvs < 10 ^ 8" "32 \<le> cap"
    "\<forall>kv \<in> set kvs. redis_key_ok cap (fst kv) \<and> length (snd (frag_item (ctype r) kv)) < 2 ^ 32"
    "ctype r = Strs MSG_REQ_REDIS_MSET \<Longrightarrow> bufs_ok cap (mhdr r) \<and> msg_data r = concat (map (\<lambda>(k, v). bulk k @ bulk v) kvs) \<and>
       cut_ok (mhdr r) (concat (map (\<lambda>(k, v). [bulk k, bulk v]) kvs))"
    "\<forall>i < length kvs. js ! i < unat n \<and> backend i (fst (kvs ! i)) = Inr (word_of_nat (js ! i))"
  shows "\<exists>r' frags. fragment_request (redis_add True cap (if ctype r = Strs MSG_REQ_REDIS_MSET then 2 else 1))
      (redis_fin True cap (ctype r)) True backend (new_chain REDIS_UNKNOWN) fid n r = Inr (NC_OK, r', js, frags) \<and>
    nfrag r' = word_of_nat (length frags) \<and> map fst frags = filter (\<lambda>j. j \<in> set js) [0..<unat n] \<and>
    (\<forall>(j, f) \<in> set frags.
       msg_data f = redis_head (ctype r) (Suc ((if ctype r = Strs MSG_REQ_REDIS_MSET then 2 else 1) * length (items_of j js (map (frag_item (ctype r)) kvs)))) @
         concat (map snd (items_of j js (map (frag_item (ctype r)) kvs))) \<and>
       mkeys f = map fst (items_of j js (map (frag_item (ctype r)) kvs)) \<and> ctype f = ctype r \<and> frag_id f = fid)"
proof -
  let ?its = "map (frag_item (ctype r)) kvs"
  have its: "mkeys r = map fst ?its" "length js = length ?its"
    "\<forall>i < length ?its. js ! i < unat n \<and> backend i (fst (?its ! i)) = Inr (word_of_nat (js ! i))"
    using assms(2,3,8) by (simp_all add: frag_item_def comp_def)
  have new: "mhdr (new_chain REDIS_UNKNOWN) = []" "mkeys (new_chain REDIS_UNKNOWN) = []" "mnarg (new_chain REDIS_UNKNOWN) = 0"
    by (simp_all add: new_chain_def)
  have len: "length its' < 10 ^ 8" if "length its' \<le> length ?its" for its' :: "(bytes \<times> bytes) list"
    using that assms(4) by simp
  show ?thesis
  proof (cases "ctype r = Strs MSG_REQ_REDIS_MSET")
    case True
    have item: "frag_item (ctype r) = (\<lambda>(k, v). (k, bulk k @ bulk v))"
      by (simp add: frag_item_def frag_args_def True fun_eq_iff)
    have ok: "\<forall>(k, v) \<in> set kvs. redis_key_ok cap k \<and> length (bulk k @ bulk v) < 2 ^ 32"
      using assms(6) by (auto simp: item)
    have "mset_holds cap (mhdr (r\<lparr>frag_id := fid, nfrag := 0\<rparr>)) ?its"
      using mset_holdsI [OF _ _ _ ok] assms(7) [OF True] by (simp add: item)
    moreover have "\<exists>m'. redis_fin True cap (ctype r) m = Inr (NC_OK, m') \<and>
        msg_data m' = redis_head (ctype r) (Suc (2 * length its')) @ concat (map snd its') \<and> mkeys m' = mkeys m"
      if "length its' \<le> length ?its" "bufs_ok cap (mhdr m)" "msg_data m = concat (map snd its')"
        "mnarg m = (1 + 1) * word_of_nat (length its')" for its' :: "(bytes \<times> bytes) list" and m
      using redis_fin_ok [OF that(2) assms(5), of "2 * length its'"] that(3,4) len [OF that(1)] by simp
    ultimately show ?thesis
      using redis_mset.fragment_request_ok [where cap = cap and r = r and its = ?its and js = js and fid = fid and
          new = "new_chain REDIS_UNKNOWN" and n = n and backend = backend and fin = "redis_fin True cap (ctype r)" and
          out = "\<lambda>its'. redis_head (ctype r) (Suc (2 * length its')) @ concat (map snd its')"] its new
      by (simp add: True)
  next
    case False
    then have "\<forall>(k, e) \<in> set ?its. redis_key_ok cap k \<and> e = bulk k"
      using assms(6) by (auto simp: frag_item_def frag_args_def)
    moreover have "\<exists>m'. redis_fin True cap (ctype r) m = Inr (NC_OK, m') \<and>
        msg_data m' = redis_head (ctype r) (Suc (length its')) @ concat (map snd its') \<and> mkeys m' = mkeys m"
      if "length its' \<le> length ?its" "bufs_ok cap (mhdr m)" "msg_data m = concat (map snd its')"
        "mnarg m = (1 + 0) * word_of_nat (length its')" for its' :: "(bytes \<times> bytes) list" and m
      using redis_fin_ok [OF that(2) assms(5), of "length its'"] that(3,4) len [OF that(1)] by simp
    ultimately show ?thesis
      using redis.fragment_request_ok [where cap = cap and r = r and its = ?its and js = js and fid = fid and
          new = "new_chain REDIS_UNKNOWN" and n = n and backend = backend and fin = "redis_fin True cap (ctype r)" and
          out = "\<lambda>its'. redis_head (ctype r) (Suc (length its')) @ concat (map snd its')"] its new
      by (simp add: False)
  qed
qed

lemma items_of_frag:
  "concat (map snd (items_of j js (map (frag_item ty) kvs))) = concat (map bulk (concat (map (frag_args ty) (items_of j js kvs))))"
  "map fst (items_of j js (map (frag_item ty) kvs)) = map fst (items_of j js kvs)"
proof -
  have "concat (map (snd \<circ> frag_item ty) xs) = concat (map bulk (concat (map (frag_args ty) xs)))" for xs
    by (induction xs) (simp_all add: frag_item_def)
  then show "concat (map snd (items_of j js (map (frag_item ty) kvs))) = concat (map bulk (concat (map (frag_args ty) (items_of j js kvs))))"
    by (simp add: items_of_map)
  show "map fst (items_of j js (map (frag_item ty) kvs)) = map fst (items_of j js kvs)"
    by (simp add: items_of_map frag_item_def comp_def)
qed

text \<open>
  C5: \<open>redis_fragment\<close>.  In a pool that has a live server, when the table of fragments has a place for every
  server, an \<open>mget\<close>, \<open>del\<close> or \<open>mset\<close> is cut into one request of the same kind for each server that
  owns some of its keys.  A fragment is what a client would write for the keys of its server, with
  their values for \<open>mset\<close>, in the order of the request.
\<close>

theorem redis_fragment_correct:
  assumes "reachable pool" "nlive_server pool \<noteq> 0" "length (servers pool) \<le> unat n" "redis_frag_ok cap kvs r"
  shows "\<exists>r' js frags. redis_fragment True cap rs pool fid n r = Inr (NC_OK, r', js, frags) \<and>
    frag_places rs pool (mkeys r) js \<and> nfrag r' = word_of_nat (length frags) \<and>
    map fst frags = filter (\<lambda>j. j \<in> set js) [0..<unat n] \<and>
    (\<forall>(j, f) \<in> set frags. mkeys f = map fst (items_of j js kvs) \<and> ctype f = ctype r \<and> frag_id f = fid \<and>
       msg_data f = redis_print (frag_name (ctype r) # concat (map (frag_args (ctype r)) (items_of j js kvs))))"
proof -
  obtain b bs p where b: "mhdr r = b # bs" "eat_bytes 3 LF (mb_bytes b) 0 = Inr p"
    "ctype r = Strs MSG_REQ_REDIS_MSET \<Longrightarrow> bufs_ok cap (b\<lparr>mb_pos := p\<rparr> # bs) \<and>
      bufs_data (b\<lparr>mb_pos := p\<rparr> # bs) = concat (map (\<lambda>(k, v). bulk k @ bulk v) kvs) \<and>
      cut_ok (b\<lparr>mb_pos := p\<rparr> # bs) (concat (map (\<lambda>(k, v). [bulk k, bulk v]) kvs))"
    and ok: "fragments_ty (ctype r)" "mkeys r = map fst kvs" "1 < length kvs" "length kvs < 10 ^ 8" "32 \<le> cap"
    "\<forall>kv \<in> set kvs. redis_key_ok cap (fst kv) \<and> length (snd (frag_item (ctype r) kv)) < 2 ^ 32"
    using assms(4) unfolding redis_frag_ok_def by blast
  obtain js where js: "frag_places rs pool (mkeys r) js" using frag_places_ex [OF assms(1,2)] by blast
  then have len: "length js = length kvs" by (simp add: frag_places_def ok(2))
  define r1 where "r1 = r\<lparr>mhdr := b\<lparr>mb_pos := p\<rparr> # bs\<rparr>"
  have r1: "ctype r1 = ctype r" "mkeys r1 = mkeys r" "mhdr r1 = b\<lparr>mb_pos := p\<rparr> # bs" by (simp_all add: r1_def)
  have idx: "\<forall>i < length kvs. js ! i < unat n \<and> msg_backend_idx rs pool i (fst (kvs ! i)) = Inr (word_of_nat (js ! i))"
    using js assms(3) by (fastforce simp: frag_places_def ok(2) msg_backend_idx_def)
  let ?step = "if ctype r = Strs MSG_REQ_REDIS_MSET then 2 else (1 :: nat)"
  obtain r' frags where frags:
    "fragment_request (redis_add True cap ?step) (redis_fin True cap (ctype r)) True (msg_backend_idx rs pool)
       (new_chain REDIS_UNKNOWN) fid n r1 = Inr (NC_OK, r', js, frags)" "nfrag r' = word_of_nat (length frags)"
    "map fst frags = filter (\<lambda>j. j \<in> set js) [0..<unat n]"
    "\<forall>(j, f) \<in> set frags. msg_data f = redis_print (frag_name (ctype r) # concat (map (frag_args (ctype r)) (items_of j js kvs))) \<and>
       mkeys f = map fst (items_of j js kvs) \<and> ctype f = ctype r \<and> frag_id f = fid"
    using redis_fragment_request [of r1 kvs js cap n "msg_backend_idx rs pool" fid, unfolded r1,
        OF ok(1,2) len ok(4-6) b(3) idx]
    unfolding items_of_frag redis_head_print [symmetric] length_concat_args
    by (auto simp: items_of_map)
  have "redis_fragment True cap rs pool fid n r = Inr (NC_OK, r', js, frags)"
    using frags(1) ok(1-3) skip_command_ok [OF b(1,2)]
    by (auto simp: redis_fragment_def redis_fragment_argx_def fragments_ty_def r1_def)
  with js frags(2-4) show ?thesis by blast
qed

theorem redis_fragment_correct_witness:
  "\<exists>r' js frags. redis_fragment True 512 (\<lambda>_. 0) demo_run 1 3
      (demo_request (Strs MSG_REQ_REDIS_MGET) (redis_print [bytes_of ''mget'', bytes_of ''a'', bytes_of ''bb''])
         [bytes_of ''a'', bytes_of ''bb'']) = Inr (NC_OK, r', js, frags)"
proof -
  have "redis_frag_ok 512 [(bytes_of ''a'', []), (bytes_of ''bb'', [])]
      (demo_request (Strs MSG_REQ_REDIS_MGET) (redis_print [bytes_of ''mget'', bytes_of ''a'', bytes_of ''bb'']) [bytes_of ''a'', bytes_of ''bb''])"
    by (simp add: redis_frag_ok_def demo_request_def new_chain_def fragments_ty_def redis_key_ok_def frag_item_def frag_args_def
        redis_print_def bulk_def bulk_head_def bytes_of_def decimal.simps mbuf_get_def CR_def LF_def numeral_3_eq_3)
  from redis_fragment_correct [OF demo_reachable(1) _ _ this, of 3 "\<lambda>_. 0" 1] show ?thesis
    using demo_reachable(4,7) by auto
qed

end
