(* ===== verification/Spec2Isabelle.thy ===== *)
theory Spec2Isabelle
  imports NC_Crc NC_Hash NC_Jenkins NC_Md5 NC_Dist NC_Ketama NC_McPrint NC_McRepair NC_RedisPrint NC_RedisRspPrint NC_Server NC_Fragment
begin

text \<open>
  A verification library for the cache proxy.
\<close>

end
